(* ===== verification/Prelude.thy ===== *)
theory Prelude
  imports Main "HOL-Library.Word" "HOL-Library.Multiset"
begin

text \<open>
  Shared vocabulary of the development: the fixed-width integers of the C++ sources, the ways a
  C++ call can end (\<open>run\<close>), and the generic facts on lists, association lists and sums that the
  component theories use. The named collections gather the facts the components hand to
  \<open>simp\<close>:
  \<^item> \<open>umap_simps\<close>: what the hash-table operations do to the contents;
  \<^item> \<open>engine_simps\<close>: what the storage operations do to the counters and the lookup;
  \<^item> \<open>frame_simps\<close>: the fields an operation leaves alone.
\<close>

named_theorems umap_simps
named_theorems engine_simps
named_theorems frame_simps

section \<open>Machine integers\<close>

text \<open>\<open>size_t\<close> and \<open>uint64_t\<close> are both 64 bits wide and wrap; \<open>int64_t\<close> values are kept as
  \<open>int\<close> together with the range test, because leaving the range is undefined behaviour.\<close>

type_synonym u64 = "64 word"

definition int64_min :: int where
  "int64_min = - (2 ^ 63)"

definition int64_max :: int where
  "int64_max = 2 ^ 63 - 1"

definition in_int64 :: "int \<Rightarrow> bool" where
  "in_int64 i \<longleftrightarrow> int64_min \<le> i \<and> i \<le> int64_max"

definition uint64_max :: int where
  "uint64_max = 2 ^ 64 - 1"

lemmas int64_defs = int64_min_def int64_max_def in_int64_def uint64_max_def

section \<open>How a call ends\<close>

text \<open>
  The exceptions of the standard library the sources can raise, and undefined behaviour. A call
  returns, raises, runs into undefined behaviour, or does not come back at all (unbounded
  recursion exhausts the stack, or a loop never leaves).
\<close>

datatype cxx_fault =
  Length_error | Signed_overflow | Invalid_argument_exn | Out_of_range_exn | Runtime_error

datatype 'a run = Diverges | Faults cxx_fault | Returns 'a

fun run_bind :: "'a run \<Rightarrow> ('a \<Rightarrow> 'b run) \<Rightarrow> 'b run" where
  "run_bind Diverges f = Diverges"
| "run_bind (Faults x) f = Faults x"
| "run_bind (Returns a) f = f a"

fun returns :: "'a run \<Rightarrow> bool" where
  "returns (Returns a) = True"
| "returns _ = False"

lemma returnsE:
  assumes "returns m"
  obtains a where "m = Returns a"
  using assms by (cases m) auto

text \<open>Feeding a list of inputs through a fallible step.\<close>

fun run_fold :: "('s \<Rightarrow> 'v \<Rightarrow> 's run) \<Rightarrow> 's \<Rightarrow> 'v list \<Rightarrow> 's run" where
  "run_fold step s [] = Returns s"
| "run_fold step s (v # vs) = run_bind (step s v) (\<lambda>s'. run_fold step s' vs)"

lemma run_bind_eq_Returns:
  "run_bind m f = Returns b \<longleftrightarrow> (\<exists>a. m = Returns a \<and> f a = Returns b)"
  by (cases m) auto

lemma run_bind_eq_Diverges:
  "run_bind m f = Diverges \<longleftrightarrow> m = Diverges \<or> (\<exists>a. m = Returns a \<and> f a = Diverges)"
  by (cases m) auto

lemma run_bind_assoc: "run_bind (run_bind m f) g = run_bind m (\<lambda>a. run_bind (f a) g)"
  by (cases m) auto

lemma run_fold_append: "run_fold step s (xs @ ys) = run_bind (run_fold step s xs) (\<lambda>s'. run_fold step s' ys)"
  by (induction xs arbitrary: s) (simp_all add: run_bind_assoc)

lemma map_run_ReturnsE:
  assumes "map_run f x = Returns y"
  obtains z where "x = Returns z" and "f z = y"
  using assms by (cases x) auto

section \<open>Lists\<close>

lemma drop_eq_appendD: "length xs = n \<Longrightarrow> drop n (xs @ ys) = ys"
  by simp

lemma drop_length_append [simp]: "drop (length xs + n) (xs @ ys) = drop n ys"
  by simp

lemma take_drop_append_mid: "take (length ys) (drop (length xs) (xs @ ys @ zs)) = ys"
  by simp

lemma list_update_same_conv_eq:
  "i < length xs \<Longrightarrow> xs[i := f (xs ! i)] ! j = (if i = j then f (xs ! i) else xs ! j)"
  by (cases "j < length xs") (auto simp: nth_list_update list_update_beyond)

text \<open>Updating one summand of a sum over a list, in any commutative group: the new total is the
  old one with that summand exchanged.\<close>

lemma sum_list_update_group:
  fixes f :: "'a \<Rightarrow> 'b::ab_group_add"
  assumes "i < length xs"
  shows "sum_list (map f (xs[i := x])) = sum_list (map f xs) - f (xs ! i) + f x"
  using assms
proof (induction xs arbitrary: i)
  case Nil
  then show ?case by simp
next
  case (Cons y ys)
  then show ?case by (cases i) (auto simp: algebra_simps)
qed

lemma sum_list_map_mset:
  fixes f :: "'a \<Rightarrow> 'b::comm_monoid_add"
  assumes "mset xs = mset ys"
  shows "sum_list (map f xs) = sum_list (map f ys)"
proof -
  have "sum_mset (image_mset f (mset xs)) = sum_mset (image_mset f (mset ys))"
    using assms by simp
  then show ?thesis by (simp add: sum_mset_sum_list flip: mset_map)
qed

lemma sum_list_filter_split:
  fixes f :: "'a \<Rightarrow> 'b::comm_monoid_add"
  shows "sum_list (map f xs) = sum_list (map f (filter P xs)) + sum_list (map f (filter (\<lambda>x. \<not> P x) xs))"
  by (induction xs) (auto simp: ac_simps)

section \<open>Association lists with distinct keys\<close>

lemma filter_fst_eq_single:
  assumes "distinct (map fst xs)" and "(k, v) \<in> set xs"
  shows "filter (\<lambda>x. fst x = k) xs = [(k, v)]"
  using assms
proof (induction xs)
  case Nil
  then show ?case by simp
next
  case (Cons x xs)
  have "filter (\<lambda>x. fst x = k) xs = []" if "fst x = k"
    using Cons.prems(1) that by (auto simp: filter_empty_conv image_iff)
  then show ?case using Cons by (force simp: image_iff)
qed

lemma map_of_filter_neq: "map_of (filter (\<lambda>x. fst x \<noteq> k) xs) = (map_of xs)(k := None)"
  by (induction xs) (auto simp: fun_eq_iff)

lemma map_of_mset_distinct:
  assumes "distinct (map fst xs)" and "mset xs = mset ys"
  shows "map_of xs = map_of ys"
proof -
  have "distinct (map fst ys)"
    using assms by (metis mset_eq_imp_distinct_iff mset_map)
  moreover have "set xs = set ys" using assms(2) by (rule mset_eq_setD)
  ultimately show ?thesis
    using assms(1) by (simp add: map_of_inject_set)
qed

end
