(* ===== verification/Charconv.thy ===== *)
theory Charconv
  imports Prelude
begin

text \<open>
  The conversions between integers and decimal text that the sources take from the standard
  library: \<open>std::to_string\<close> and \<open>std::from_chars\<close> (base 10). \<open>from_chars\<close> accepts an optional
  minus sign (signed types only) and a non-empty run of digits, stops at the first other
  character and hands back what is left, so that the caller can tell \<open>12\<close> from \<open>12abc\<close>; it
  reports a value outside the type's range. There is no leading plus sign and no white space.
\<close>

section \<open>Definitions\<close>

datatype errc = Invalid_argument | Result_out_of_range

definition digit_char :: "nat \<Rightarrow> char" where
  "digit_char d = char_of (48 + d)"

definition is_digit :: "char \<Rightarrow> bool" where
  "is_digit c \<longleftrightarrow> 48 \<le> (of_char c :: nat) \<and> (of_char c :: nat) \<le> 57"

definition digit_val :: "char \<Rightarrow> nat" where
  "digit_val c = of_char c - 48"

fun nat_to_string :: "nat \<Rightarrow> string" where
  "nat_to_string n =
     (if n < 10 then [digit_char n] else nat_to_string (n div 10) @ [digit_char (n mod 10)])"

declare nat_to_string.simps [simp del]

definition int_to_string :: "int \<Rightarrow> string" where
  "int_to_string i =
     (if i < 0 then CHR ''-'' # nat_to_string (nat (- i)) else nat_to_string (nat i))"

definition digits_val :: "string \<Rightarrow> nat" where
  "digits_val ds = foldl (\<lambda>acc c. 10 * acc + digit_val c) 0 ds"

definition from_chars_digits :: "bool \<Rightarrow> int \<Rightarrow> int \<Rightarrow> string \<Rightarrow> errc + int \<times> string" where
  "from_chars_digits neg lo hi s =
     (let ds = takeWhile is_digit s;
          v = (if neg then - int (digits_val ds) else int (digits_val ds))
      in if ds = [] then Inl Invalid_argument
         else if v < lo \<or> hi < v then Inl Result_out_of_range
         else Inr (v, dropWhile is_digit s))"

definition from_chars_i64 :: "string \<Rightarrow> errc + int \<times> string" where
  "from_chars_i64 s =
     (case s of
        [] \<Rightarrow> Inl Invalid_argument
      | c # cs \<Rightarrow>
          if c = CHR ''-'' then from_chars_digits True int64_min int64_max cs
          else from_chars_digits False int64_min int64_max s)"

definition from_chars_u64 :: "string \<Rightarrow> errc + int \<times> string" where
  "from_chars_u64 s = from_chars_digits False 0 uint64_max s"

section \<open>Digits\<close>

lemma digit_char_is_digit [simp]: "d < 10 \<Longrightarrow> is_digit (digit_char d)"
  by (simp add: is_digit_def digit_char_def)

lemma digit_val_digit_char [simp]: "d < 10 \<Longrightarrow> digit_val (digit_char d) = d"
  by (simp add: digit_val_def digit_char_def)

lemma digits_val_snoc [simp]: "digits_val (ds @ [c]) = 10 * digits_val ds + digit_val c"
  by (simp add: digits_val_def)

lemma nat_to_string_digits: "c \<in> set (nat_to_string n) \<Longrightarrow> is_digit c"
proof (induction n rule: nat_to_string.induct)
  case (1 n)
  then show ?case
    by (subst (asm) (2) nat_to_string.simps) (auto split: if_splits)
qed

lemma nat_to_string_nonempty [simp]: "nat_to_string n \<noteq> []"
  by (subst nat_to_string.simps) simp

lemma digits_val_nat_to_string [simp]: "digits_val (nat_to_string n) = n"
proof (induction n rule: nat_to_string.induct)
  case (1 n)
  show ?case
  proof (cases "n < 10")
    case True
    then show ?thesis by (subst nat_to_string.simps) (simp add: digits_val_def)
  next
    case False
    with "1.IH" show ?thesis by (subst nat_to_string.simps) simp
  qed
qed

lemma is_digit_neq_minus [simp]: "\<not> is_digit CHR ''-''"
  by (simp add: is_digit_def)

lemma nat_to_string_hd_digit: "is_digit (hd (nat_to_string n))"
  by (rule nat_to_string_digits) (rule hd_in_set, simp)

section \<open>Round trips\<close>

text \<open>The text that follows must not start with a digit, otherwise the digits run on.\<close>

definition no_digit_first :: "string \<Rightarrow> bool" where
  "no_digit_first s \<longleftrightarrow> (case s of [] \<Rightarrow> True | c # _ \<Rightarrow> \<not> is_digit c)"

lemma no_digit_first_Nil [simp]: "no_digit_first []"
  by (simp add: no_digit_first_def)

lemma takeWhile_digits_append:
  assumes "\<And>c. c \<in> set ds \<Longrightarrow> is_digit c" and "no_digit_first s"
  shows "takeWhile is_digit (ds @ s) = ds \<and> dropWhile is_digit (ds @ s) = s"
  using assms by (induction ds) (auto simp: no_digit_first_def split: list.splits)

lemma from_chars_digits_nat:
  assumes "no_digit_first s"
    and "lo \<le> (if neg then - int n else int n)" and "(if neg then - int n else int n) \<le> hi"
  shows "from_chars_digits neg lo hi (nat_to_string n @ s) = Inr (if neg then - int n else int n, s)"
proof -
  have "takeWhile is_digit (nat_to_string n @ s) = nat_to_string n"
    and "dropWhile is_digit (nat_to_string n @ s) = s"
    using takeWhile_digits_append [OF _ assms(1), of "nat_to_string n"] nat_to_string_digits
    by blast+
  with assms(2,3) show ?thesis by (auto simp: from_chars_digits_def Let_def)
qed

lemma from_chars_i64_to_string:
  assumes "in_int64 i" and "no_digit_first s"
  shows "from_chars_i64 (int_to_string i @ s) = Inr (i, s)"
proof (cases "i < 0")
  case True
  then show ?thesis
    using assms from_chars_digits_nat [where n = "nat (- i)" and neg = True]
    by (simp add: from_chars_i64_def int_to_string_def int64_defs)
next
  case False
  obtain c cs where cs: "nat_to_string (nat i) = c # cs"
    using nat_to_string_nonempty by (cases "nat_to_string (nat i)") blast+
  then have "c \<noteq> CHR ''-''"
    using nat_to_string_hd_digit [of "nat i"] by auto
  with False cs show ?thesis
    using assms from_chars_digits_nat [where n = "nat i" and neg = False]
    by (simp add: from_chars_i64_def int_to_string_def int64_defs)
qed

lemma from_chars_u64_to_string:
  assumes "0 \<le> i" and "i \<le> uint64_max" and "no_digit_first s"
  shows "from_chars_u64 (int_to_string i @ s) = Inr (i, s)"
  using assms from_chars_digits_nat [where n = "nat i" and neg = False]
  by (simp add: from_chars_u64_def int_to_string_def int64_defs)

text \<open>Whatever is accepted lies in the range of the type.\<close>

lemma from_chars_digits_range:
  "from_chars_digits neg lo hi s = Inr (v, r) \<Longrightarrow> lo \<le> v \<and> v \<le> hi"
  by (auto simp: from_chars_digits_def Let_def split: if_splits)

lemma from_chars_i64_range: "from_chars_i64 s = Inr (v, r) \<Longrightarrow> in_int64 v"
  by (auto simp: from_chars_i64_def in_int64_def split: list.splits if_splits
        dest: from_chars_digits_range)

lemma from_chars_u64_range: "from_chars_u64 s = Inr (v, r) \<Longrightarrow> 0 \<le> v \<and> v \<le> uint64_max"
  by (auto simp: from_chars_u64_def dest: from_chars_digits_range)

text \<open>A value printed by \<open>to_string\<close> is never negative without a leading minus sign.\<close>

lemma from_chars_i64_nonneg:
  "from_chars_i64 s = Inr (v, r) \<Longrightarrow> v < 0 \<Longrightarrow> \<exists>cs. s = CHR ''-'' # cs"
  by (auto simp: from_chars_i64_def from_chars_digits_def Let_def split: list.splits if_splits)

end
