(* ===== verification/RESP.thy ===== *)
theory RESP
  imports Charconv
begin

text \<open>
  The wire protocol: \<open>include/protocol/RESP.h\<close> and \<open>src/protocol/RESP.cpp\<close>.

  A \<open>RESPValue\<close> is the tagged struct of the header, all four fields kept. \<open>serialize\<close> prints it;
  \<open>parse_internal\<close> reads one value at a position of a buffer. Positions are \<open>size_t\<close>; the two
  places where the sources mix them with a signed length are written with the wrap-around
  (\<open>size_t\<close>). The recursion of \<open>parse_internal\<close> into array elements need not be well-founded, since a
  negative bulk length moves the position backwards: its first argument is the stack depth that is
  available, and \<open>Diverges\<close> is the outcome when that is used up.
\<close>

section \<open>Definitions\<close>

datatype RESPType = SimpleString | Error | Integer | BulkString | Array | Null

datatype RESPValue =
  RESPValue (resp_type: RESPType) (string_value: string) (integer_value: int)
    (array_value: "RESPValue list")

definition create_simple_string :: "string \<Rightarrow> RESPValue" where
  "create_simple_string s = RESPValue SimpleString s 0 []"

definition create_error :: "string \<Rightarrow> RESPValue" where
  "create_error e = RESPValue Error e 0 []"

definition create_integer :: "int \<Rightarrow> RESPValue" where
  "create_integer i = RESPValue Integer '''' i []"

definition create_bulk_string :: "string \<Rightarrow> RESPValue" where
  "create_bulk_string s = RESPValue BulkString s 0 []"

definition create_array :: "RESPValue list \<Rightarrow> RESPValue" where
  "create_array arr = RESPValue Array '''' 0 arr"

definition create_null :: RESPValue where
  "create_null = RESPValue Null '''' 0 []"

lemmas create_defs =
  create_simple_string_def create_error_def create_integer_def create_bulk_string_def
  create_array_def create_null_def

definition crlf :: string where
  "crlf = [CHR 0x0D, CHR 0x0A]"

fun serialize :: "RESPValue \<Rightarrow> string" where
  "serialize (RESPValue ty s i arr) =
     (case ty of
        SimpleString \<Rightarrow> ''+'' @ s @ crlf
      | Error \<Rightarrow> ''-'' @ s @ crlf
      | Integer \<Rightarrow> '':'' @ int_to_string i @ crlf
      | BulkString \<Rightarrow> ''$'' @ int_to_string (int (length s)) @ crlf @ s @ crlf
      | Array \<Rightarrow> ''*'' @ int_to_string (int (length arr)) @ crlf @ concat (map serialize arr)
      | Null \<Rightarrow> ''$-1'' @ crlf)"

text \<open>\<open>std::string::find\<close> of the two-byte line end, from the start of the text.\<close>

fun find_crlf :: "string \<Rightarrow> nat option" where
  "find_crlf [] = None"
| "find_crlf (c # s) =
     (if c = CHR 0x0D \<and> s \<noteq> [] \<and> hd s = CHR 0x0A then Some 0 else map_option Suc (find_crlf s))"

definition read_line :: "string \<Rightarrow> nat \<Rightarrow> (string \<times> nat) option" where
  "read_line buffer pos =
     (case find_crlf (drop pos buffer) of
        None \<Rightarrow> None
      | Some k \<Rightarrow> Some (take k (drop pos buffer), pos + k + 2))"

text \<open>Conversion of a mixed signed and unsigned sum to \<open>size_t\<close>.\<close>

definition size_t :: "int \<Rightarrow> int" where
  "size_t i = i mod 2 ^ 64"

definition substr :: "string \<Rightarrow> nat \<Rightarrow> int \<Rightarrow> string" where
  "substr buffer pos len = take (nat (size_t len)) (drop pos buffer)"

text \<open>\<open>std::vector<RESPValue>::max_size\<close>: the struct takes 72 bytes on the LP64 platform the
  repository builds on (tag, string, integer, vector).\<close>

definition vector_max_size :: int where
  "vector_max_size = int64_max div 72"

fun parse_elems ::
  "(nat \<Rightarrow> (RESPValue option \<times> nat) run) \<Rightarrow> nat \<Rightarrow> RESPValue list \<Rightarrow> nat \<Rightarrow>
   (RESPValue list option \<times> nat) run" where
  "parse_elems p 0 arr pos = Returns (Some arr, pos)"
| "parse_elems p (Suc n) arr pos =
     run_bind (p pos) (\<lambda>(elem, pos').
       case elem of
         None \<Rightarrow> Returns (None, pos')
       | Some v \<Rightarrow> parse_elems p n (arr @ [v]) pos')"

text \<open>The \<open>switch\<close> on the first byte of the line; the first argument is the recursive call.\<close>

definition parse_value ::
  "(nat \<Rightarrow> (RESPValue option \<times> nat) run) \<Rightarrow> string \<Rightarrow> nat \<Rightarrow> char \<Rightarrow> string \<Rightarrow> nat \<Rightarrow>
   (RESPValue option \<times> nat) run" where
  "parse_value rec buffer line_start_pos prefix content pos =
     (if prefix = CHR ''+'' then Returns (Some (create_simple_string content), pos)
      else if prefix = CHR ''-'' then Returns (Some (create_error content), pos)
      else if prefix = CHR '':'' then
        (case from_chars_i64 content of
           Inr (val, _) \<Rightarrow> Returns (Some (create_integer val), pos)
         | Inl _ \<Rightarrow> Returns (None, line_start_pos))
      else if prefix = CHR ''$'' then
        (case from_chars_i64 content of
           Inl _ \<Rightarrow> Returns (None, line_start_pos)
         | Inr (len, _) \<Rightarrow>
             if len = -1 then Returns (Some create_null, pos)
             else if int (length buffer) < size_t (int pos + len + 2)
             then Returns (None, line_start_pos)
             else Returns (Some (create_bulk_string (substr buffer pos len)),
                           nat (size_t (int pos + len + 2))))
      else if prefix = CHR ''*'' then
        (case from_chars_i64 content of
           Inl _ \<Rightarrow> Returns (None, line_start_pos)
         | Inr (cnt, _) \<Rightarrow>
             if cnt = -1 then Returns (Some create_null, pos)
             else if vector_max_size < size_t cnt then Faults Length_error
             else
               run_bind (parse_elems rec (nat cnt) [] pos)
                 (\<lambda>(arr, pos').
                    case arr of
                      None \<Rightarrow> Returns (None, line_start_pos)
                    | Some vs \<Rightarrow> Returns (Some (create_array vs), pos')))
      else Returns (None, line_start_pos))"

fun parse_internal :: "nat \<Rightarrow> string \<Rightarrow> nat \<Rightarrow> (RESPValue option \<times> nat) run" where
  "parse_internal 0 buffer pos = Diverges"
| "parse_internal (Suc depth) buffer pos =
     (if length buffer \<le> pos then Returns (None, pos)
      else
        let prefix = buffer ! pos; line_start_pos = pos in
        case read_line buffer pos of
          None \<Rightarrow> Returns (None, line_start_pos)
        | Some (line, pos) \<Rightarrow>
            if line = [] then Returns (None, line_start_pos)
            else parse_value (\<lambda>q. parse_internal depth buffer q) buffer line_start_pos prefix
                   (tl line) pos)"

declare parse_internal.simps [simp del]

definition parse :: "nat \<Rightarrow> string \<Rightarrow> nat \<Rightarrow> (RESPValue option \<times> nat) run" where
  "parse depth buffer consumed =
     run_bind (parse_internal depth buffer 0) (\<lambda>(val, pos).
       Returns (val, case val of Some _ \<Rightarrow> pos | None \<Rightarrow> consumed))"

text \<open>The values the protocol can carry: what the factory functions build, line types without a
  line end inside, integers of the type's range.\<close>

fun resp_wf :: "RESPValue \<Rightarrow> bool" where
  "resp_wf (RESPValue ty s i arr) =
     (case ty of
        SimpleString \<Rightarrow> find_crlf s = None \<and> i = 0 \<and> arr = []
      | Error \<Rightarrow> find_crlf s = None \<and> i = 0 \<and> arr = []
      | Integer \<Rightarrow> s = '''' \<and> in_int64 i \<and> arr = []
      | BulkString \<Rightarrow> i = 0 \<and> arr = []
      | Array \<Rightarrow> s = '''' \<and> i = 0 \<and> list_all resp_wf arr
      | Null \<Rightarrow> s = '''' \<and> i = 0 \<and> arr = [])"

fun resp_depth :: "RESPValue \<Rightarrow> nat" where
  "resp_depth (RESPValue ty s i arr) = Suc (foldr max (map resp_depth arr) 0)"

text \<open>No line of the buffer announces a bulk string of negative length, the null marker apart.\<close>

definition bulk_line_ok :: "string \<Rightarrow> nat \<Rightarrow> bool" where
  "bulk_line_ok buffer pos \<longleftrightarrow>
     (case read_line buffer pos of
        Some (c # content, _) \<Rightarrow>
          c = CHR ''$'' \<longrightarrow> (case from_chars_i64 content of Inr (len, _) \<Rightarrow> -1 \<le> len | Inl _ \<Rightarrow> True)
      | _ \<Rightarrow> True)"

definition bulk_lengths_ok :: "string \<Rightarrow> bool" where
  "bulk_lengths_ok buffer \<longleftrightarrow> list_all (bulk_line_ok buffer) [0..<length buffer]"

text \<open>Buffers that fit the address space (a single vector of values is the tightest limit).\<close>

definition fits :: "string \<Rightarrow> bool" where
  "fits buffer \<longleftrightarrow> int (length buffer) \<le> vector_max_size"


section \<open>Lines\<close>

lemma length_crlf [simp]: "length crlf = 2"
  by (simp add: crlf_def)

lemma find_crlf_no_cr: "CHR 0x0D \<notin> set s \<Longrightarrow> find_crlf s = None"
  by (induction s) auto

lemma find_crlf_append:
  "find_crlf s = None \<Longrightarrow> find_crlf (s @ crlf @ r) = Some (length s)"
proof (induction s)
  case Nil
  then show ?case by (simp add: crlf_def)
next
  case (Cons c s)
  then show ?case by (cases s) (auto simp: crlf_def split: if_splits)
qed

lemma find_crlf_take:
  "find_crlf s = None \<Longrightarrow> n < length s + 2 \<Longrightarrow> find_crlf (take n (s @ crlf @ r)) = None"
proof (induction s arbitrary: n)
  case Nil
  then have "n = 0 \<or> n = 1" by auto
  then show ?case by (auto simp: crlf_def)
next
  case (Cons c s)
  show ?case
  proof (cases n)
    case 0
    then show ?thesis by simp
  next
    case (Suc m)
    then have "find_crlf (take m (s @ crlf @ r)) = None"
      using Cons by (auto split: if_splits)
    moreover have "\<not> (c = CHR 0x0D \<and> take m (s @ crlf @ r) \<noteq> [] \<and> hd (take m (s @ crlf @ r)) = CHR 0x0A)"
      using Cons.prems(1) by (cases s; cases m) (auto simp: crlf_def split: if_splits)
    ultimately show ?thesis using Suc by simp
  qed
qed

lemma find_crlf_bound: "find_crlf s = Some k \<Longrightarrow> k + 2 \<le> length s"
proof (induction s arbitrary: k)
  case (Cons c s)
  then show ?case by (cases s) (auto split: if_splits)
qed simp

lemma find_crlf_Cons_None:
  "c \<noteq> CHR 0x0D \<Longrightarrow> find_crlf s = None \<Longrightarrow> find_crlf (c # s) = None"
  by simp

lemma digit_not_cr: "is_digit c \<Longrightarrow> c \<noteq> CHR 0x0D"
  by (auto simp: is_digit_def)

lemma find_crlf_int_to_string: "find_crlf (int_to_string i) = None"
  by (rule find_crlf_no_cr)
    (auto simp: int_to_string_def dest: nat_to_string_digits digit_not_cr)

lemma read_line_at:
  assumes "find_crlf s = None"
  shows "read_line (pre @ s @ crlf @ rest) (length pre) = Some (s, length pre + length s + 2)"
  using find_crlf_append [OF assms] by (simp add: read_line_def)

lemma read_line_bound:
  "read_line buffer pos = Some (line, pos') \<Longrightarrow> pos \<le> length buffer \<Longrightarrow>
   pos' \<le> length buffer \<and> pos + length line + 2 = pos'"
  by (auto simp: read_line_def split: option.splits dest!: find_crlf_bound)

section \<open>One step of the parser on a printed header line\<close>

text \<open>The rest of this theory reasons about the parser through the following unfolding at a
  position where a complete line \<open>c # content\<close> starts.\<close>

lemma parse_internal_line:
  assumes "find_crlf (c # content) = None"
    and "buffer = pre @ (c # content) @ crlf @ rest"
    and "p = length pre + length content + 3"
  shows "parse_internal (Suc d) buffer (length pre) =
     parse_value (\<lambda>q. parse_internal d buffer q) buffer (length pre) c content p"
proof -
  have rl: "read_line buffer (length pre) = Some (c # content, p)"
    using read_line_at [OF assms(1), of pre rest] assms(2,3) by simp
  have "\<not> length buffer \<le> length pre" and "buffer ! length pre = c"
    using assms(2) by (auto simp: nth_append)
  then show ?thesis
    unfolding parse_internal.simps Let_def rl by simp
qed

lemma parse_internal_no_line:
  assumes "find_crlf s = None"
  shows "parse_internal (Suc d) (pre @ s) (length pre) = Returns (None, length pre)"
  using assms by (simp add: parse_internal.simps read_line_def)

section \<open>Round trip\<close>

lemma fits_append: "fits (xs @ ys) \<Longrightarrow> fits xs \<and> fits ys"
  by (simp add: fits_def)

lemma vector_max_size_small: "vector_max_size < 2 ^ 63 - 8"
  by (simp add: vector_max_size_def int64_defs)

lemma size_t_small: "0 \<le> i \<Longrightarrow> i < 2 ^ 64 \<Longrightarrow> size_t i = i"
  by (simp add: size_t_def)

lemma size_t_pos: "int n \<le> 2 * vector_max_size + 8 \<Longrightarrow> size_t (int n) = int n"
  using vector_max_size_small by (intro size_t_small) auto

lemma from_chars_length: "int n \<le> vector_max_size \<Longrightarrow> from_chars_i64 (int_to_string (int n)) = Inr (int n, [])"
  using from_chars_i64_to_string [of "int n" "[]"] vector_max_size_small by (simp add: int64_defs)

lemma serialize_nonempty [simp]: "serialize v \<noteq> []"
  by (cases v) (simp split: RESPType.splits)

lemma concat_serialize_length: "length vs \<le> length (concat (map serialize vs))"
proof (induction vs)
  case (Cons v vs)
  obtain c s where "serialize v = c # s"
    using serialize_nonempty [of v] by (cases "serialize v") blast+
  with Cons show ?case by simp
qed simp

lemma parse_elems_serialize:
  assumes "\<And>v pre rest. v \<in> set vs \<Longrightarrow> buffer = pre @ serialize v @ rest \<Longrightarrow>
      p (length pre) = Returns (Some v, length pre + length (serialize v))"
    and "buffer = pre @ concat (map serialize vs) @ rest"
  shows "parse_elems p (length vs) arr (length pre) =
     Returns (Some (arr @ vs), length pre + length (concat (map serialize vs)))"
  using assms
proof (induction vs arbitrary: arr pre)
  case Nil
  then show ?case by simp
next
  case (Cons v vs)
  have "p (length pre) = Returns (Some v, length (pre @ serialize v))"
    using Cons.prems(1) [of v pre "concat (map serialize vs) @ rest"] Cons.prems(2) by simp
  moreover have "parse_elems p (length vs) (arr @ [v]) (length (pre @ serialize v)) =
      Returns (Some ((arr @ [v]) @ vs), length (pre @ serialize v) + length (concat (map serialize vs)))"
    by (rule Cons.IH) (use Cons.prems in auto)
  ultimately show ?case by simp
qed

lemma foldr_max_ge: "x \<in> set xs \<Longrightarrow> (x::nat) \<le> foldr max xs 0"
  by (induction xs) auto

lemma resp_depth_elem:
  "v \<in> set arr \<Longrightarrow> resp_depth (RESPValue ty s i arr) \<le> Suc d \<Longrightarrow> resp_depth v \<le> d"
  using foldr_max_ge [of "resp_depth v" "map resp_depth arr"] by simp

lemma parse_internal_bulk:
  assumes "buffer = pre @ serialize (create_bulk_string s) @ rest" and "fits buffer"
  shows "parse_internal (Suc d) buffer (length pre) =
     Returns (Some (create_bulk_string s), length pre + length (serialize (create_bulk_string s)))"
proof -
  let ?h = "int_to_string (int (length s))"
  let ?pre = "pre @ (CHR ''$'' # ?h) @ crlf"
  have buf: "buffer = ?pre @ s @ crlf @ rest"
    using assms(1) by (simp add: create_defs)
  then have len: "length buffer = length ?pre + length s + 2 + length rest"
    by simp
  with assms(2) have small: "int (length s) \<le> vector_max_size"
    by (simp add: fits_def)
  have pos: "size_t (int (length ?pre) + int (length s) + 2) = int (length ?pre + length s + 2)"
    using size_t_pos [of "length ?pre + length s + 2"] len assms(2) by (simp add: fits_def)
  have "substr buffer (length ?pre) (int (length s)) = s"
    unfolding buf substr_def drop_eq_appendD [OF refl] using size_t_pos [of "length s"] small by simp
  then show ?thesis
    using parse_internal_line [where c = "CHR ''$''" and content = ?h and buffer = buffer
        and pre = pre and rest = "s @ crlf @ rest" and d = d and p = "length ?pre"]
      buf len pos from_chars_length [OF small] find_crlf_int_to_string
    by (simp add: create_defs parse_value_def)
qed

lemma parse_internal_array:
  assumes "\<And>v pre rest. v \<in> set arr \<Longrightarrow> buffer = pre @ serialize v @ rest \<Longrightarrow>
      parse_internal d buffer (length pre) = Returns (Some v, length pre + length (serialize v))"
    and "buffer = pre @ serialize (create_array arr) @ rest" and "fits buffer"
  shows "parse_internal (Suc d) buffer (length pre) =
     Returns (Some (create_array arr), length pre + length (serialize (create_array arr)))"
proof -
  let ?h = "int_to_string (int (length arr))"
  let ?pre = "pre @ (CHR ''*'' # ?h) @ crlf"
  have buf: "buffer = ?pre @ concat (map serialize arr) @ rest"
    using assms(2) by (simp add: create_defs)
  then have "length buffer = length ?pre + length (concat (map serialize arr)) + length rest"
    by (simp only: length_append)
  then have small: "int (length arr) \<le> vector_max_size"
    using assms(3) concat_serialize_length [of arr] by (simp add: fits_def)
  have "parse_elems (\<lambda>q. parse_internal d buffer q) (length arr) [] (length ?pre) =
      Returns (Some ([] @ arr), length ?pre + length (concat (map serialize arr)))"
    using assms(1) by (rule parse_elems_serialize [OF _ buf])
  then show ?thesis
    using parse_internal_line [where c = "CHR ''*''" and content = ?h and buffer = buffer
        and pre = pre and rest = "concat (map serialize arr) @ rest" and d = d and p = "length ?pre"]
      buf small from_chars_length [OF small] find_crlf_int_to_string size_t_pos [of "length arr"]
    by (simp add: create_defs parse_value_def)
qed

lemma parse_internal_serialize:
  assumes "resp_wf v" and "resp_depth v \<le> d"
    and "buffer = pre @ serialize v @ rest" and "fits buffer"
  shows "parse_internal d buffer (length pre) = Returns (Some v, length pre + length (serialize v))"
  using assms
proof (induction v arbitrary: d pre rest)
  case (RESPValue ty s i arr)
  from RESPValue.prems(2) obtain d' where d: "d = Suc d'" by (cases d) auto
  note line = parse_internal_line [OF _ _ refl, where d = d' and pre = pre and buffer = buffer]
  show ?case
  proof (cases ty)
    case SimpleString
    with RESPValue.prems d show ?thesis
      using line [of "CHR ''+''" s rest] by (simp add: create_defs parse_value_def)
  next
    case Error
    with RESPValue.prems d show ?thesis
      using line [of "CHR ''-''" s rest] by (simp add: create_defs parse_value_def)
  next
    case Integer
    with RESPValue.prems d show ?thesis
      using line [of "CHR '':''" "int_to_string i" rest] from_chars_i64_to_string [of i "[]"]
        find_crlf_int_to_string [of i]
      by (simp add: create_defs parse_value_def)
  next
    case BulkString
    with RESPValue.prems d show ?thesis
      using parse_internal_bulk [of buffer pre s rest d'] by (simp add: create_bulk_string_def)
  next
    case Array
    have "parse_internal d' buffer (length pre) = Returns (Some v, length pre + length (serialize v))"
      if "v \<in> set arr" and "buffer = pre @ serialize v @ rest" for v pre rest
    proof (rule RESPValue.IH [OF that(1) _ _ that(2)])
      show "resp_wf v" using that(1) RESPValue.prems(1) Array by (simp add: list_all_iff)
      show "resp_depth v \<le> d'" using that(1) RESPValue.prems(2) d by (blast intro: resp_depth_elem)
    qed (rule RESPValue.prems(4))
    with Array RESPValue.prems d show ?thesis
      using parse_internal_array [of arr buffer d' pre rest] by (simp add: create_array_def)
  next
    case Null
    have "from_chars_i64 ''-1'' = Inr (-1, [])" by code_simp
    with Null RESPValue.prems d show ?thesis
      using line [of "CHR ''$''" "''-1''" rest] by (simp add: create_defs parse_value_def)
  qed
qed

section \<open>Incomplete frames\<close>

text \<open>A proper prefix of a printed value is never mistaken for a value: the parser asks for more
  data and leaves the position where it was.\<close>

lemma parse_internal_short_line:
  assumes "find_crlf (c # content) = None" and "n < length content + 3"
  shows "parse_internal (Suc d) (pre @ take n ((c # content) @ crlf @ rest)) (length pre) =
     Returns (None, length pre)"
  by (rule parse_internal_no_line) (use find_crlf_take [OF assms(1), of n rest] assms(2) in simp)

lemma parse_internal_bulk_prefix:
  assumes "n < length (serialize (create_bulk_string s))"
    and "fits (pre @ take n (serialize (create_bulk_string s)))"
    and "fits (serialize (create_bulk_string s))"
  shows "parse_internal (Suc d) (pre @ take n (serialize (create_bulk_string s))) (length pre) =
     Returns (None, length pre)"
proof -
  let ?h = "int_to_string (int (length s))"
  let ?pre = "pre @ (CHR ''$'' # ?h) @ crlf"
  have h: "find_crlf (CHR ''$'' # ?h) = None" using find_crlf_int_to_string by simp
  show ?thesis
  proof (cases "n < length ?h + 3")
    case True
    then show ?thesis
      using parse_internal_short_line [OF h, of n d pre "s @ crlf"] by (simp add: create_defs parse_value_def)
  next
    case False
    define m where "m = n - (length ?h + 3)"
    with False have n: "n = length ((CHR ''$'' # ?h) @ crlf) + m" by simp
    let ?buffer = "pre @ take n (serialize (create_bulk_string s))"
    have buf: "?buffer = ?pre @ take m (s @ crlf)" and m: "m < length s + 2"
      using n assms(1) by (simp_all add: create_defs)
    have small: "int (length s) + 2 \<le> vector_max_size"
      using assms(3) by (simp add: fits_def create_defs)
    moreover have "int (length ?pre) \<le> vector_max_size"
      using assms(2) unfolding buf fits_def by simp
    ultimately have "size_t (int (length ?pre) + int (length s) + 2) = int (length ?pre + length s + 2)"
      using size_t_pos [of "length ?pre + length s + 2"] by simp
    moreover have "length ?buffer < length ?pre + length s + 2" using m buf by simp
    moreover have "int (length s) \<le> vector_max_size" using small by simp
    ultimately show ?thesis
      using parse_internal_line [OF h, where buffer = ?buffer and pre = pre and d = d
          and rest = "take m (s @ crlf)" and p = "length ?pre"] buf
        from_chars_length [of "length s"]
      by (simp add: parse_value_def)
  qed
qed

lemma parse_elems_prefix:
  assumes "\<And>v pre rest. v \<in> set vs \<Longrightarrow> buffer = pre @ serialize v @ rest \<Longrightarrow>
      p (length pre) = Returns (Some v, length pre + length (serialize v))"
    and "\<And>v pre n. v \<in> set vs \<Longrightarrow> n < length (serialize v) \<Longrightarrow> buffer = pre @ take n (serialize v) \<Longrightarrow>
      \<exists>q. p (length pre) = Returns (None, q)"
    and "buffer = pre @ take m (concat (map serialize vs))"
    and "m < length (concat (map serialize vs))"
  shows "\<exists>q. parse_elems p (length vs) arr (length pre) = Returns (None, q)"
  using assms
proof (induction vs arbitrary: arr pre m)
  case Nil
  then show ?case by simp
next
  case (Cons v vs)
  show ?case
  proof (cases "m < length (serialize v)")
    case True
    then have "\<exists>q. p (length pre) = Returns (None, q)"
      using Cons.prems(2) [of v m pre] Cons.prems(3) by simp
    then show ?thesis by auto
  next
    case False
    let ?m = "m - length (serialize v)"
    have buf: "buffer = (pre @ serialize v) @ take ?m (concat (map serialize vs))"
      using Cons.prems(3) False by simp
    then have "p (length pre) = Returns (Some v, length (pre @ serialize v))"
      using Cons.prems(1) [of v pre "take ?m (concat (map serialize vs))"] by simp
    moreover have "\<exists>q. parse_elems p (length vs) (arr @ [v]) (length (pre @ serialize v)) = Returns (None, q)"
    proof (rule Cons.IH [OF _ _ buf])
      show "?m < length (concat (map serialize vs))" using Cons.prems(4) False by simp
      show "p (length pre) = Returns (Some w, length pre + length (serialize w))"
        if "w \<in> set vs" "buffer = pre @ serialize w @ rest" for w pre rest
        by (rule Cons.prems(1) [OF _ that(2)]) (use that(1) in simp)
      show "\<exists>q. p (length pre) = Returns (None, q)"
        if "w \<in> set vs" "n < length (serialize w)" "buffer = pre @ take n (serialize w)" for w pre n
        by (rule Cons.prems(2) [OF _ that(2,3)]) (use that(1) in simp)
    qed
    ultimately show ?thesis by simp
  qed
qed

lemma parse_internal_array_prefix:
  assumes "\<And>v pre rest. v \<in> set arr \<Longrightarrow> buffer = pre @ serialize v @ rest \<Longrightarrow>
      parse_internal d buffer (length pre) = Returns (Some v, length pre + length (serialize v))"
    and "\<And>v pre n. v \<in> set arr \<Longrightarrow> n < length (serialize v) \<Longrightarrow> buffer = pre @ take n (serialize v) \<Longrightarrow>
      \<exists>q. parse_internal d buffer (length pre) = Returns (None, q)"
    and "buffer = pre @ take n (serialize (create_array arr))"
    and "n < length (serialize (create_array arr))"
    and "fits (serialize (create_array arr))"
  shows "parse_internal (Suc d) buffer (length pre) = Returns (None, length pre)"
proof -
  let ?h = "int_to_string (int (length arr))"
  let ?pre = "pre @ (CHR ''*'' # ?h) @ crlf"
  let ?body = "concat (map serialize arr)"
  have h: "find_crlf (CHR ''*'' # ?h) = None" using find_crlf_int_to_string by simp
  show ?thesis
  proof (cases "n < length ?h + 3")
    case True
    then show ?thesis
      using parse_internal_short_line [OF h, of n d pre ?body] assms(3) by (simp add: create_defs parse_value_def)
  next
    case False
    define m where "m = n - (length ?h + 3)"
    with False have n: "n = length ((CHR ''*'' # ?h) @ crlf) + m" by simp
    have buf: "buffer = ?pre @ take m ?body" and m: "m < length ?body"
      using n assms(3,4) by (simp_all add: create_defs)
    have "int (length arr) \<le> vector_max_size"
      using assms(5) concat_serialize_length [of arr] by (simp add: fits_def create_defs)
    moreover have "\<exists>q. parse_elems (\<lambda>q. parse_internal d buffer q) (length arr) [] (length ?pre) = Returns (None, q)"
      by (rule parse_elems_prefix [OF assms(1,2) buf m])
    ultimately show ?thesis
      using parse_internal_line [OF h, where buffer = buffer and pre = pre and d = d
          and rest = "take m ?body" and p = "length ?pre"] buf
        from_chars_length [of "length arr"] size_t_pos [of "length arr"]
      by (auto simp: parse_value_def)
  qed
qed

lemma fits_mono: "fits ys \<Longrightarrow> length xs \<le> length ys \<Longrightarrow> fits xs"
  by (simp add: fits_def)

lemma length_serialize_elem:
  assumes "v \<in> set arr"
  shows "length (serialize v) \<le> length (serialize (create_array arr))"
proof -
  have "length (serialize v) \<le> length (concat (map serialize arr))"
    using assms by (induction arr) auto
  then show ?thesis by (simp add: create_defs)
qed

lemma parse_internal_prefix:
  assumes "resp_wf v" and "resp_depth v \<le> d" and "n < length (serialize v)"
    and "buffer = pre @ take n (serialize v)" and "fits buffer" and "fits (serialize v)"
  shows "parse_internal d buffer (length pre) = Returns (None, length pre)"
  using assms
proof (induction v arbitrary: d pre n)
  case (RESPValue ty s i arr)
  from RESPValue.prems(2) obtain d' where d: "d = Suc d'" by (cases d) auto
  note short = parse_internal_short_line [where d = d' and n = n and pre = pre and rest = "[]"]
  show ?case
  proof (cases ty)
    case SimpleString
    with RESPValue.prems d show ?thesis
      using short [of "CHR ''+''" s] by simp
  next
    case Error
    with RESPValue.prems d show ?thesis
      using short [of "CHR ''-''" s] by simp
  next
    case Integer
    with RESPValue.prems d show ?thesis
      using short [of "CHR '':''" "int_to_string i"] find_crlf_int_to_string [of i] by simp
  next
    case BulkString
    with RESPValue.prems d show ?thesis
      using parse_internal_bulk_prefix [of n s pre d'] by (simp add: create_bulk_string_def)
  next
    case Array
    have wf: "resp_wf v" and dep: "resp_depth v \<le> d'" and small: "fits (serialize v)"
      if "v \<in> set arr" for v
    proof -
      show "resp_wf v" using that RESPValue.prems(1) Array by (simp add: list_all_iff)
      show "resp_depth v \<le> d'" using that RESPValue.prems(2) d by (blast intro: resp_depth_elem)
      show "fits (serialize v)"
        using length_serialize_elem [OF that] RESPValue.prems(1,6) Array
        by (auto simp: create_array_def intro: fits_mono)
    qed
    have "parse_internal d buffer (length pre) = Returns (None, length pre)"
      unfolding d
    proof (rule parse_internal_array_prefix [of arr])
      show "parse_internal d' buffer (length pre) = Returns (Some v, length pre + length (serialize v))"
        if "v \<in> set arr" "buffer = pre @ serialize v @ rest" for v pre rest
        by (rule parse_internal_serialize [OF wf [OF that(1)] dep [OF that(1)] that(2) RESPValue.prems(5)])
      show "\<exists>q. parse_internal d' buffer (length pre) = Returns (None, q)"
        if "v \<in> set arr" "n < length (serialize v)" "buffer = pre @ take n (serialize v)" for v pre n
        by (rule exI, rule RESPValue.IH [OF that(1) wf dep that(2,3) RESPValue.prems(5) small])
          (rule that(1))+
    qed (use Array RESPValue.prems in \<open>simp_all add: create_array_def\<close>)
    then show ?thesis .
  next
    case Null
    with RESPValue.prems d show ?thesis
      using short [of "CHR ''$''" "''-1''"] by simp
  qed
qed

section \<open>Arbitrary input: positions, progress and termination\<close>

lemma read_line_hd:
  assumes "read_line buffer pos = Some (c # content, p)"
  shows "pos < length buffer \<and> buffer ! pos = c"
proof -
  obtain k where k: "take k (drop pos buffer) = c # content"
    using assms by (auto simp: read_line_def split: option.splits)
  then have "hd (drop pos buffer) = c" and "drop pos buffer \<noteq> []"
    by (cases "drop pos buffer"; cases k; simp)+
  then show ?thesis by (simp add: hd_drop_conv_nth)
qed

text \<open>A call that is not stuck at once has a line \<open>c # content\<close> in front of it.\<close>

lemma parse_internal_Suc:
  "parse_internal (Suc d) buffer pos =
     (case read_line buffer pos of
        Some (c # content, p) \<Rightarrow>
          parse_value (\<lambda>q. parse_internal d buffer q) buffer pos c content p
      | _ \<Rightarrow> Returns (None, pos))"
proof (cases "read_line buffer pos")
  case (Some lp)
  then show ?thesis
    by (cases lp; cases "fst lp") (auto simp: parse_internal.simps Let_def dest: read_line_hd)
qed (simp add: parse_internal.simps Let_def)

lemma read_line_cases:
  obtains (stuck) "read_line buffer pos = None"
  | (empty) p where "read_line buffer pos = Some ([], p)"
  | (line) c content p where "read_line buffer pos = Some (c # content, p)" "pos < length buffer"
proof (cases "read_line buffer pos")
  case (Some lp)
  then show thesis
    using empty line read_line_hd [of buffer pos] by (cases lp; cases "fst lp") auto
qed (rule stuck)

lemma parse_elems_pos:
  assumes "\<And>q v q'. p q = Returns (Some v, q') \<Longrightarrow> q' \<le> b"
    and "parse_elems p n arr pos = Returns (Some vs, pos')" and "pos \<le> b"
  shows "pos' \<le> b"
  using assms(2,3)
proof (induction n arbitrary: arr pos)
  case (Suc n)
  then show ?case
    by (auto simp: run_bind_eq_Returns split: option.splits dest: assms(1))
qed simp

lemma parse_value_pos:
  assumes "\<And>q v q'. rec q = Returns (Some v, q') \<Longrightarrow> q' \<le> length buffer"
    and "parse_value rec buffer start c content p = Returns (r, p')" and "p \<le> length buffer"
  shows "case r of None \<Rightarrow> p' = start | Some v \<Rightarrow> p' \<le> length buffer"
  using assms(2,3) parse_elems_pos [OF assms(1)]
  by (auto simp: parse_value_def run_bind_eq_Returns split: if_splits sum.splits prod.splits option.splits)

lemma parse_internal_pos:
  "parse_internal d buffer pos = Returns (r, p) \<Longrightarrow>
   (case r of None \<Rightarrow> p = pos | Some v \<Rightarrow> p \<le> length buffer)"
proof (induction d arbitrary: pos r p)
  case (Suc d)
  have rec: "q' \<le> length buffer" if "parse_internal d buffer q = Returns (Some v, q')" for q v q'
    using Suc.IH [OF that] by simp
  show ?case
  proof (cases rule: read_line_cases [of buffer pos])
    case (line c content p')
    then have "p' \<le> length buffer" using read_line_bound [OF line(1)] by simp
    then show ?thesis
      using parse_value_pos [of "parse_internal d buffer", OF rec] Suc.prems line
      by (simp add: parse_internal_Suc)
  qed (use Suc.prems in \<open>auto simp: parse_internal_Suc\<close>)
qed (simp add: parse_internal.simps)

text \<open>Enough stack: the outcome no longer depends on the depth once it is not \<open>Diverges\<close>.\<close>

lemma parse_elems_cong_defined:
  assumes "\<And>q. p q \<noteq> Diverges \<Longrightarrow> p' q = p q"
    and "parse_elems p n arr pos \<noteq> Diverges"
  shows "parse_elems p' n arr pos = parse_elems p n arr pos"
  using assms(2)
proof (induction n arbitrary: arr pos)
  case (Suc n)
  then show ?case
    using assms(1) [of pos] by (cases "p pos") (auto split: option.splits)
qed simp

lemma parse_value_cong_defined:
  assumes "\<And>q. rec q \<noteq> Diverges \<Longrightarrow> rec' q = rec q"
    and "parse_value rec buffer start c content p \<noteq> Diverges"
  shows "parse_value rec' buffer start c content p = parse_value rec buffer start c content p"
  using assms(2) parse_elems_cong_defined [of rec rec', OF assms(1)]
  by (auto simp: parse_value_def run_bind_eq_Diverges split: if_splits sum.splits prod.splits)

lemma parse_internal_depth_Suc:
  "parse_internal d buffer pos \<noteq> Diverges \<Longrightarrow>
   parse_internal (Suc d) buffer pos = parse_internal d buffer pos"
proof (induction d arbitrary: pos)
  case (Suc d)
  show ?case
  proof (cases rule: read_line_cases [of buffer pos])
    case (line c content p)
    have "parse_value (parse_internal (Suc d) buffer) buffer pos c content p =
        parse_value (parse_internal d buffer) buffer pos c content p"
      by (rule parse_value_cong_defined [OF Suc.IH])
        (use Suc.prems line in \<open>simp_all add: parse_internal_Suc [of d]\<close>)
    with line show ?thesis by (simp add: parse_internal_Suc [of d] parse_internal_Suc [of "Suc d"])
  qed (auto simp: parse_internal_Suc)
qed (simp add: parse_internal.simps)

lemma parse_internal_depth_mono:
  "d \<le> d' \<Longrightarrow> parse_internal d buffer pos \<noteq> Diverges \<Longrightarrow>
   parse_internal d' buffer pos = parse_internal d buffer pos"
  by (induction rule: dec_induct) (auto simp: parse_internal_depth_Suc)

text \<open>On a buffer without negative bulk lengths every value moves the position forward, hence the
  recursion is bounded by what is left of the buffer.\<close>

lemma bulk_lengths_okD:
  assumes "bulk_lengths_ok buffer" and "read_line buffer pos = Some (CHR ''$'' # content, p)"
    and "from_chars_i64 content = Inr (len, rest)"
  shows "-1 \<le> len"
proof -
  have "bulk_line_ok buffer pos"
    using assms(1) read_line_hd [OF assms(2)] by (simp add: bulk_lengths_ok_def list_all_iff)
  with assms(2,3) show ?thesis by (simp add: bulk_line_ok_def)
qed

lemma parse_elems_progress:
  assumes "\<And>q v q'. p q = Returns (Some v, q') \<Longrightarrow> q \<le> q'"
    and "parse_elems p n arr pos = Returns (Some vs, pos')"
  shows "pos \<le> pos'"
  using assms(2)
proof (induction n arbitrary: arr pos)
  case (Suc n)
  then show ?case
    by (fastforce simp: run_bind_eq_Returns split: option.splits dest: assms(1))
qed simp

lemma bulk_end_small:
  assumes "from_chars_i64 content = Inr (len, rest)" and "-1 \<le> len"
    and "p \<le> length buffer" and "fits buffer"
  shows "size_t (int p + len + 2) = int p + len + 2"
  using from_chars_i64_range [OF assms(1)] assms(2-) vector_max_size_small
  by (intro size_t_small) (auto simp: int64_defs fits_def)

lemma parse_value_progress:
  assumes rec: "\<And>q v q'. rec q = Returns (Some v, q') \<Longrightarrow> q \<le> q'"
    and bulk: "\<And>len rest. c = CHR ''$'' \<Longrightarrow> from_chars_i64 content = Inr (len, rest) \<Longrightarrow> -1 \<le> len"
    and "p \<le> length buffer" and "fits buffer"
    and "parse_value rec buffer start c content p = Returns (Some v, p')"
  shows "p \<le> p'"
  using assms(5) parse_elems_progress [OF rec] bulk bulk_end_small [OF _ bulk assms(3,4)]
  by (auto simp: parse_value_def run_bind_eq_Returns split: if_splits sum.splits prod.splits option.splits)

lemma parse_internal_progress:
  assumes "bulk_lengths_ok buffer" and "fits buffer"
  shows "parse_internal d buffer pos = Returns (Some v, p) \<Longrightarrow> pos < p"
proof (induction d arbitrary: pos v p)
  case (Suc d)
  have rec: "q \<le> q'" if "parse_internal d buffer q = Returns (Some v, q')" for q v q'
    using Suc.IH [OF that] by simp
  show ?case
  proof (cases rule: read_line_cases [of buffer pos])
    case (line c content p')
    have p': "p' \<le> length buffer" "pos < p'" using read_line_bound [OF line(1)] line(2) by auto
    have bulk: "-1 \<le> len" if "c = CHR ''$''" "from_chars_i64 content = Inr (len, rest)" for len rest
      using bulk_lengths_okD [OF assms(1) _ that(2)] line(1) that(1) by simp
    have "parse_value (parse_internal d buffer) buffer pos c content p' = Returns (Some v, p)"
      using Suc.prems line by (simp add: parse_internal_Suc)
    then have "p' \<le> p"
      by (rule parse_value_progress [of "parse_internal d buffer", rotated -1])
        (use rec bulk p'(1) assms(2) in blast)+
    with p' show ?thesis by simp
  qed (use Suc.prems in \<open>auto simp: parse_internal_Suc\<close>)
qed (simp add: parse_internal.simps)

lemma parse_elems_total:
  assumes "\<And>q v q'. p q = Returns (Some v, q') \<Longrightarrow> q \<le> q'" and "\<And>q. b \<le> q \<Longrightarrow> p q \<noteq> Diverges"
    and "b \<le> pos"
  shows "parse_elems p n arr pos \<noteq> Diverges"
  using assms(3)
proof (induction n arbitrary: arr pos)
  case (Suc n)
  have "b \<le> q'" if "p pos = Returns (Some v, q')" for v q'
    using assms(1) [OF that] Suc.prems by simp
  with Suc show ?case
    using assms(2) [OF Suc.prems] by (auto simp: run_bind_eq_Diverges split: option.splits)
qed simp

lemma parse_value_total:
  assumes "\<And>q v q'. rec q = Returns (Some v, q') \<Longrightarrow> q \<le> q'" and "\<And>q. p \<le> q \<Longrightarrow> rec q \<noteq> Diverges"
  shows "parse_value rec buffer start c content p \<noteq> Diverges"
  using parse_elems_total [of rec p p, OF assms order.refl]
  by (auto simp: parse_value_def run_bind_eq_Diverges split: sum.splits prod.splits option.splits)

lemma parse_internal_total:
  assumes "bulk_lengths_ok buffer" and "fits buffer" and "length buffer - pos < d"
  shows "parse_internal d buffer pos \<noteq> Diverges"
  using assms(3)
proof (induction d arbitrary: pos)
  case (Suc d)
  show ?case
  proof (cases rule: read_line_cases [of buffer pos])
    case (line c content p)
    have "pos < p" using read_line_bound [OF line(1)] line(2) by auto
    then have "length buffer - q < d" if "p \<le> q" for q using that Suc.prems line(2) by auto
    then have "parse_value (parse_internal d buffer) buffer pos c content p \<noteq> Diverges"
      using parse_internal_progress [OF assms(1,2)] Suc.IH
      by (intro parse_value_total) (auto intro: less_imp_le)
    with line show ?thesis by (simp add: parse_internal_Suc)
  qed (auto simp: parse_internal_Suc)
qed simp

section \<open>Data that arrives later\<close>

text \<open>A value once recognised stays the same when more bytes arrive behind it.\<close>

lemma find_crlf_append_Some: "find_crlf s = Some k \<Longrightarrow> find_crlf (s @ t) = Some k"
proof (induction s arbitrary: k)
  case (Cons c s)
  then show ?case by (cases s) (auto split: if_splits)
qed simp

lemma read_line_append:
  assumes "read_line buffer pos = Some (line, p)"
  shows "read_line (buffer @ more) pos = Some (line, p)"
proof -
  obtain k where k: "find_crlf (drop pos buffer) = Some k"
    and r: "line = take k (drop pos buffer)" "p = pos + k + 2"
    using assms by (auto simp: read_line_def split: option.splits)
  have "pos \<le> length buffer" using find_crlf_bound [OF k] by simp
  then have "drop pos (buffer @ more) = drop pos buffer @ more" by simp
  moreover have "take k (drop pos buffer @ more) = take k (drop pos buffer)"
    using find_crlf_bound [OF k] by simp
  ultimately show ?thesis using find_crlf_append_Some [OF k] r by (simp add: read_line_def)
qed

lemma parse_elems_cong_Some:
  assumes "\<And>q v q'. p q = Returns (Some v, q') \<Longrightarrow> p' q = Returns (Some v, q')"
    and "parse_elems p n arr pos = Returns (Some vs, pos')"
  shows "parse_elems p' n arr pos = Returns (Some vs, pos')"
  using assms(2)
proof (induction n arbitrary: arr pos)
  case (Suc n)
  then show ?case
    by (fastforce simp: run_bind_eq_Returns split: option.splits dest: assms(1))
qed simp

lemma substr_append:
  assumes "0 \<le> len" and "len < 2 ^ 64" and "int p + len \<le> int (length buffer)"
  shows "substr (buffer @ more) p len = substr buffer p len"
  using assms by (simp add: substr_def size_t_small)

lemma parse_value_append:
  assumes rec: "\<And>q v q'. rec q = Returns (Some v, q') \<Longrightarrow> rec' q = Returns (Some v, q')"
    and bulk: "\<And>len rest. c = CHR ''$'' \<Longrightarrow> from_chars_i64 content = Inr (len, rest) \<Longrightarrow> -1 \<le> len"
    and "p \<le> length buffer" and "fits buffer"
    and "parse_value rec buffer start c content p = Returns (Some v, p')"
  shows "parse_value rec' (buffer @ more) start c content p = Returns (Some v, p')"
proof (cases "c = CHR ''$''")
  case True
  show ?thesis
  proof (cases "from_chars_i64 content")
    case (Inr lr)
    obtain len rest where lr: "lr = (len, rest)" by (cases lr)
    note len = bulk [OF True Inr [unfolded lr]] from_chars_i64_range [OF Inr [unfolded lr]]
    have "size_t (int p + len + 2) = int p + len + 2"
      using bulk_end_small [OF Inr [unfolded lr] len(1) assms(3,4)] .
    then show ?thesis
      using assms(5) True Inr lr len substr_append [of len p buffer more]
      by (auto simp: parse_value_def int64_defs split: if_splits)
  qed (use assms(5) True in \<open>simp add: parse_value_def\<close>)
next
  case False
  then show ?thesis
    using assms(5) parse_elems_cong_Some [of rec rec', OF rec]
    by (auto simp: parse_value_def run_bind_eq_Returns split: if_splits sum.splits prod.splits option.splits)
qed

lemma parse_internal_append:
  assumes "bulk_lengths_ok buffer" and "fits buffer"
  shows "parse_internal d buffer pos = Returns (Some v, p) \<Longrightarrow>
     parse_internal d (buffer @ more) pos = Returns (Some v, p)"
proof (induction d arbitrary: pos v p)
  case (Suc d)
  show ?case
  proof (cases rule: read_line_cases [of buffer pos])
    case (line c content p')
    have p': "p' \<le> length buffer" using read_line_bound [OF line(1)] line(2) by auto
    have bulk: "-1 \<le> len" if "c = CHR ''$''" "from_chars_i64 content = Inr (len, rest)" for len rest
      using bulk_lengths_okD [OF assms(1) _ that(2)] line(1) that(1) by simp
    have "parse_value (parse_internal d buffer) buffer pos c content p' = Returns (Some v, p)"
      using Suc.prems line by (simp add: parse_internal_Suc)
    then have "parse_value (parse_internal d (buffer @ more)) (buffer @ more) pos c content p' =
        Returns (Some v, p)"
    proof (rule parse_value_append [of "parse_internal d buffer", rotated -1])
      show "parse_internal d (buffer @ more) q = Returns (Some v, q')"
        if "parse_internal d buffer q = Returns (Some v, q')" for q v q'
        using that by (rule Suc.IH)
    qed (use bulk p' assms(2) in blast)+
    then show ?thesis using read_line_append [OF line(1)] by (simp add: parse_internal_Suc)
  qed (use Suc.prems in \<open>auto simp: parse_internal_Suc\<close>)
qed (simp add: parse_internal.simps)

section \<open>The entry point\<close>

lemma parse_Some_iff:
  "parse d buffer c = Returns (Some v, n) \<longleftrightarrow> parse_internal d buffer 0 = Returns (Some v, n)"
  by (auto simp: parse_def run_bind_eq_Returns)

lemma parse_None_iff:
  "parse d buffer c = Returns (None, n) \<longleftrightarrow>
     (\<exists>p. parse_internal d buffer 0 = Returns (None, p)) \<and> n = c"
  by (auto simp: parse_def run_bind_eq_Returns)

text \<open>C8. Round trip of the protocol: a value that the protocol can carry, printed by \<open>serialize\<close> and
  followed by any further bytes of a buffer, is read back by \<open>parse\<close> as the same value, and
  \<open>consumed\<close> is exactly the printed length, provided the stack is as deep as the value nests.\<close>

theorem parse_serialize:
  assumes "resp_wf v" and "resp_depth v \<le> d" and "fits (serialize v @ rest)"
  shows "parse d (serialize v @ rest) c = Returns (Some v, length (serialize v))"
  using parse_internal_serialize [OF assms(1,2), of _ "[]" rest] assms(3)
  by (simp add: parse_Some_iff)

theorem parse_serialize_witness:
  "parse 2 (serialize (create_array [create_bulk_string ''GET'', create_integer (- 5), create_null]) @ ''*1'') 0 =
     Returns (Some (create_array [create_bulk_string ''GET'', create_integer (- 5), create_null]), 23)"
proof -
  let ?v = "create_array [create_bulk_string ''GET'', create_integer (- 5), create_null]"
  have "resp_wf ?v" and "resp_depth ?v \<le> 2" and "fits (serialize ?v @ ''*1'')"
    by code_simp+
  from parse_serialize [OF this, of 0] have
    "parse 2 (serialize ?v @ ''*1'') 0 = Returns (Some ?v, length (serialize ?v))" .
  moreover have "length (serialize ?v) = 23" by code_simp
  ultimately show ?thesis by (simp only:)
qed

text \<open>C20. Incomplete frames: a proper prefix of a printed value makes \<open>parse\<close> report that no complete
  value is there yet, with \<open>consumed\<close> untouched.\<close>

theorem parse_incomplete:
  assumes "resp_wf v" and "resp_depth v \<le> d" and "n < length (serialize v)" and "fits (serialize v)"
  shows "parse d (take n (serialize v)) c = Returns (None, c)"
proof -
  have "fits (take n (serialize v))" by (rule fits_mono [OF assms(4)]) simp
  then show ?thesis
    using parse_internal_prefix [OF assms(1-3), of _ "[]"] assms(4) by (simp add: parse_None_iff)
qed

theorem parse_incomplete_witness:
  "parse 2 (take 9 (serialize (create_array [create_bulk_string ''PING'']))) 7 = Returns (None, 7)"
proof -
  let ?v = "create_array [create_bulk_string ''PING'']"
  have "resp_wf ?v" and "resp_depth ?v \<le> 2" and "9 < length (serialize ?v)" and "fits (serialize ?v)"
    by code_simp+
  from parse_incomplete [OF this] show ?thesis .
qed

text \<open>C21. Positions stay in range on every input: when \<open>parse\<close> yields a value, \<open>consumed\<close> is at most
  the size of the buffer, so erasing that many bytes is defined; when it yields none, \<open>consumed\<close>
  keeps its old value.\<close>

theorem parse_consumed_in_range:
  "parse d buffer c = Returns (r, n) \<Longrightarrow> (case r of None \<Rightarrow> n = c | Some v \<Rightarrow> n \<le> length buffer)"
  using parse_internal_pos [of d buffer 0]
  by (cases r) (auto simp: parse_Some_iff parse_None_iff)

theorem parse_consumed_in_range_witness:
  "parse 1 (''$2'' @ crlf @ ''ab'' @ crlf @ ''+'') 9 = Returns (Some (create_bulk_string ''ab''), 8) \<and>
   (8::nat) \<le> length (''$2'' @ crlf @ ''ab'' @ crlf @ ''+'')"
proof -
  have r: "parse 1 (''$2'' @ crlf @ ''ab'' @ crlf @ ''+'') 9 = Returns (Some (create_bulk_string ''ab''), 8)"
    by code_simp
  from parse_consumed_in_range [OF r] r show ?thesis by simp
qed

text \<open>C22. Termination: on a buffer in which no line announces a negative bulk length (other than the
  null marker \<open>$-1\<close>), a stack one deeper than the buffer is long is always enough, whatever else
  the bytes are.\<close>

theorem parse_terminates:
  assumes "bulk_lengths_ok buffer" and "fits buffer"
  shows "parse (Suc (length buffer)) buffer c \<noteq> Diverges"
  using parse_internal_total [OF assms, of 0 "Suc (length buffer)"]
  by (auto simp: parse_def run_bind_eq_Diverges)

theorem parse_terminates_witness:
  "parse (Suc (length (serialize (create_array [create_array [], create_null]))))
     (serialize (create_array [create_array [], create_null])) 0 \<noteq> Diverges"
proof -
  let ?b = "serialize (create_array [create_array [], create_null])"
  have "bulk_lengths_ok ?b" and "fits ?b" by code_simp+
  then show ?thesis by (rule parse_terminates)
qed

text \<open>C23. Streaming stability: on such a buffer, a value that has been recognised is recognised
  identically, with the same \<open>consumed\<close>, after any further bytes have arrived behind it.\<close>

theorem parse_stable_under_append:
  assumes "bulk_lengths_ok buffer" and "fits buffer" and "parse d buffer c = Returns (Some v, n)"
  shows "parse d (buffer @ more) c = Returns (Some v, n)"
  using parse_internal_append [OF assms(1,2)] assms(3) by (simp add: parse_Some_iff)

theorem parse_stable_under_append_witness:
  "parse 1 ((''+OK'' @ crlf) @ ''$3'') 0 = Returns (Some (create_simple_string ''OK''), 5)"
proof -
  have "bulk_lengths_ok (''+OK'' @ crlf)" and "fits (''+OK'' @ crlf)"
    and "parse 1 (''+OK'' @ crlf) 0 = Returns (Some (create_simple_string ''OK''), 5)"
    by code_simp+
  then show ?thesis by (rule parse_stable_under_append)
qed

section \<open>What negative lengths do\<close>

text \<open>C40. A ten-byte request makes the parser recurse without bound: the bulk length \<open>-12\<close> of the
  first element moves the position back to the start of the enclosing array, whose second element
  is then that array again. No stack is deep enough.\<close>

theorem parse_negative_length_diverges:
  "parse d (''*2'' @ crlf @ ''$-12'' @ crlf) c = Diverges"
proof -
  let ?b = "''*2'' @ crlf @ ''$-12'' @ crlf"
  have rewind: "parse_internal (Suc d) ?b 4 = Returns (Some (create_bulk_string ''''), 0)" for d
  proof -
    have "from_chars_i64 ''-12'' = Inr (-12, [])" by code_simp
    then show ?thesis
      using parse_internal_line [of "CHR ''$''" "''-12''" ?b "''*2'' @ crlf" "[]" _ d]
      by (simp add: parse_value_def size_t_def substr_def)
  qed
  have "parse_internal d ?b 0 = Diverges" for d
  proof (induction d)
    case (Suc d)
    have "from_chars_i64 ''2'' = Inr (2, [])" by code_simp
    then show ?case
      using parse_internal_line [of "CHR ''*''" "''2''" ?b "[]" "''$-12'' @ crlf" _ d] rewind Suc
      by (cases d) (simp_all add: parse_value_def size_t_def vector_max_size_def int64_defs numeral_2_eq_2
          parse_internal.simps(1))
  qed (simp add: parse_internal.simps)
  then show ?thesis by (simp add: parse_def)
qed

text \<open>The bulk header \<open>$-7\<close> is accepted as a value although nothing is consumed, so a loop that
  erases the consumed bytes and parses again sees the same buffer again.\<close>

lemma parse_negative_length_consumes_nothing:
  assumes "fits (''$-7'' @ crlf @ rest)"
  shows "parse (Suc d) (''$-7'' @ crlf @ rest) c = Returns (Some (create_bulk_string rest), 0)"
proof -
  have "from_chars_i64 ''-7'' = Inr (-7, [])" by code_simp
  then show ?thesis
    using parse_internal_line [of "CHR ''$''" "''-7''" "''$-7'' @ crlf @ rest" "[]" rest _ d] assms
      vector_max_size_small
    by (simp add: parse_Some_iff parse_value_def size_t_def substr_def fits_def)
qed

text \<open>A negative array count other than \<open>-1\<close> raises \<open>std::length_error\<close> out of the parser (the
  count is handed to \<open>vector::reserve\<close> as a huge unsigned number).\<close>

lemma parse_negative_count_throws:
  assumes "n < -1" and "in_int64 n"
  shows "parse (Suc d) (''*'' @ int_to_string n @ crlf @ rest) c = Faults Length_error"
proof -
  let ?b = "''*'' @ int_to_string n @ crlf @ rest"
  have "from_chars_i64 (int_to_string n) = Inr (n, [])"
    using from_chars_i64_to_string [OF assms(2), of "[]"] by simp
  moreover have "size_t n = (n + 2 ^ 64) mod 2 ^ 64"
    by (simp add: size_t_def)
  then have "size_t n = n + 2 ^ 64"
    using assms by (subst (asm) mod_pos_pos_trivial) (auto simp: int64_defs)
  then have "vector_max_size < size_t n"
    using assms(2) vector_max_size_small by (simp add: int64_defs)
  ultimately show ?thesis
    using parse_internal_line [of "CHR ''*''" "int_to_string n" ?b "[]" rest _ d] assms(1)
      find_crlf_int_to_string
    by (simp add: parse_def parse_value_def)
qed

end
