(* ===== verification/UMap.thy ===== *)
theory UMap
  imports Prelude
begin

text \<open>
  The two standard containers whose internals the storage engine observes.

  \<open>std::string\<close>: the engine charges for \<open>capacity()\<close>, so a stored string carries its capacity
  beside its characters. The rules are those of the library the repository builds with (libstdc++
  of the Ubuntu 22.04 image): fifteen characters are stored in the object, a fresh copy allocates
  exactly its length beyond that, assignment keeps a buffer that is large enough, and growth at
  least doubles.

  \<open>std::unordered_map<std::string, _>\<close>: the nodes form one list, the iteration order, in which the
  nodes of a bucket are consecutive. A new node goes to the front of its bucket, or to the front
  of the list when the bucket is empty; a rehash re-inserts the nodes in order. The hash function
  and the growth policy are parameters (\<open>lib\<close>), since the standard leaves both open.
\<close>

section \<open>Strings with capacity\<close>

record cxx_string =
  chars :: string
  capacity :: nat

definition fresh_capacity :: "nat \<Rightarrow> nat" where
  "fresh_capacity n = max 15 n"

definition fresh :: "string \<Rightarrow> cxx_string" where
  "fresh s = \<lparr>chars = s, capacity = fresh_capacity (length s)\<rparr>"

text \<open>Copy assignment \<open>dst = src\<close>.\<close>

definition copy_assign :: "cxx_string \<Rightarrow> string \<Rightarrow> cxx_string" where
  "copy_assign dst s =
     \<lparr>chars = s,
      capacity = (if length s \<le> capacity dst then capacity dst else max (length s) (2 * capacity dst))\<rparr>"

text \<open>Move assignment from a fresh temporary: a short source is copied into the buffer of the
  target, a long one hands its buffer over.\<close>

definition move_assign :: "cxx_string \<Rightarrow> string \<Rightarrow> cxx_string" where
  "move_assign dst s =
     \<lparr>chars = s, capacity = (if length s \<le> 15 then capacity dst else length s)\<rparr>"

section \<open>Hash tables\<close>

record lib =
  hash_of :: "string \<Rightarrow> u64"
  rehash_policy :: "nat \<Rightarrow> nat \<Rightarrow> nat option"

record 'e umap =
  nodes :: "(string \<times> 'e) list"
  bucket_count :: nat

definition umap_empty :: "'e umap" where
  "umap_empty = \<lparr>nodes = [], bucket_count = 1\<rparr>"

definition bucket_of :: "lib \<Rightarrow> nat \<Rightarrow> string \<Rightarrow> nat" where
  "bucket_of L n key = unat (hash_of L key) mod n"

definition umap_find :: "'e umap \<Rightarrow> string \<Rightarrow> 'e option" where
  "umap_find d key = map_of (nodes d) key"

definition umap_erase :: "string \<Rightarrow> 'e umap \<Rightarrow> 'e umap" where
  "umap_erase key d = d\<lparr>nodes := filter (\<lambda>x. fst x \<noteq> key) (nodes d)\<rparr>"

text \<open>Writing through an iterator: the node keeps its place.\<close>

definition umap_modify :: "string \<Rightarrow> ('e \<Rightarrow> 'e) \<Rightarrow> 'e umap \<Rightarrow> 'e umap" where
  "umap_modify key f d =
     d\<lparr>nodes := map (\<lambda>(k, e). (k, if k = key then f e else e)) (nodes d)\<rparr>"

definition insert_bucket_begin ::
  "(string \<Rightarrow> nat) \<Rightarrow> string \<times> 'e \<Rightarrow> (string \<times> 'e) list \<Rightarrow> (string \<times> 'e) list" where
  "insert_bucket_begin b x xs =
     (let other = (\<lambda>y. b (fst y) \<noteq> b (fst x))
      in if list_all other xs then x # xs else takeWhile other xs @ x # dropWhile other xs)"

definition rehash_nodes :: "(string \<Rightarrow> nat) \<Rightarrow> (string \<times> 'e) list \<Rightarrow> (string \<times> 'e) list" where
  "rehash_nodes b xs = fold (insert_bucket_begin b) xs []"

definition umap_emplace :: "lib \<Rightarrow> string \<Rightarrow> 'e \<Rightarrow> 'e umap \<Rightarrow> 'e umap" where
  "umap_emplace L key e d =
     (case rehash_policy L (bucket_count d) (length (nodes d)) of
        None \<Rightarrow>
          d\<lparr>nodes := insert_bucket_begin (bucket_of L (bucket_count d)) (key, e) (nodes d)\<rparr>
      | Some n \<Rightarrow>
          \<lparr>nodes = insert_bucket_begin (bucket_of L n) (key, e) (rehash_nodes (bucket_of L n) (nodes d)),
           bucket_count = n\<rparr>)"

definition bucket_nodes :: "lib \<Rightarrow> 'e umap \<Rightarrow> nat \<Rightarrow> (string \<times> 'e) list" where
  "bucket_nodes L d i = filter (\<lambda>x. bucket_of L (bucket_count d) (fst x) = i) (nodes d)"

definition umap_invar :: "'e umap \<Rightarrow> bool" where
  "umap_invar d \<longleftrightarrow> distinct (map fst (nodes d))"

section \<open>Contents\<close>

lemma mset_insert_bucket_begin [simp]: "mset (insert_bucket_begin b x xs) = add_mset x (mset xs)"
proof -
  have "mset (takeWhile P xs) + mset (dropWhile P xs) = mset xs" for P
    by (metis mset_append takeWhile_dropWhile_id)
  then show ?thesis by (simp add: insert_bucket_begin_def Let_def)
qed

lemma mset_rehash_nodes [simp]: "mset (rehash_nodes b xs) = mset xs"
proof -
  have "mset (fold (insert_bucket_begin b) xs ys) = mset xs + mset ys" for ys
    by (induction xs arbitrary: ys) auto
  then show ?thesis by (simp add: rehash_nodes_def)
qed

lemma mset_nodes_emplace [umap_simps]:
  "mset (nodes (umap_emplace L key e d)) = add_mset (key, e) (mset (nodes d))"
  by (simp add: umap_emplace_def split: option.split)

lemma length_nodes_emplace [umap_simps]:
  "length (nodes (umap_emplace L key e d)) = Suc (length (nodes d))"
  using arg_cong [OF mset_nodes_emplace [of L key e d], of size] by simp

lemma set_nodes_emplace [umap_simps]:
  "set (nodes (umap_emplace L key e d)) = insert (key, e) (set (nodes d))"
  using arg_cong [OF mset_nodes_emplace [of L key e d], of set_mset] by simp

lemma nodes_erase [umap_simps]: "nodes (umap_erase key d) = filter (\<lambda>x. fst x \<noteq> key) (nodes d)"
  by (simp add: umap_erase_def)

lemma bucket_count_erase [umap_simps]: "bucket_count (umap_erase key d) = bucket_count d"
  by (simp add: umap_erase_def)

lemma bucket_count_modify [umap_simps]: "bucket_count (umap_modify key f d) = bucket_count d"
  by (simp add: umap_modify_def)

lemma umap_find_eq: "umap_find d = map_of (nodes d)"
  by (simp add: umap_find_def fun_eq_iff)

lemma umap_find_in: "umap_find d key = Some e \<Longrightarrow> (key, e) \<in> set (nodes d)"
  by (simp add: umap_find_def map_of_SomeD)

lemma umap_find_iff: "umap_invar d \<Longrightarrow> umap_find d key = Some e \<longleftrightarrow> (key, e) \<in> set (nodes d)"
  by (simp add: umap_find_def umap_invar_def)

lemma umap_find_None_iff: "umap_find d key = None \<longleftrightarrow> key \<notin> fst ` set (nodes d)"
  by (simp add: umap_find_def map_of_eq_None_iff)

lemma keys_modify [simp]: "map fst (nodes (umap_modify key f d)) = map fst (nodes d)"
  by (auto simp: umap_modify_def)

section \<open>The interface\<close>

text \<open>What a client of a dictionary relies on. The observer \<open>find\<close> determines the dictionary up to
  the order of its nodes; \<open>cells\<close> is the bag of its nodes, over which a client may sum.\<close>

locale dictionary =
  fixes find :: "'d \<Rightarrow> 'k \<Rightarrow> 'e option"
    and emplace :: "'k \<Rightarrow> 'e \<Rightarrow> 'd \<Rightarrow> 'd"
    and erase :: "'k \<Rightarrow> 'd \<Rightarrow> 'd"
    and modify :: "'k \<Rightarrow> ('e \<Rightarrow> 'e) \<Rightarrow> 'd \<Rightarrow> 'd"
    and cells :: "'d \<Rightarrow> ('k \<times> 'e) multiset"
    and invar :: "'d \<Rightarrow> bool"
  assumes find_emplace: "invar d \<Longrightarrow> find d k = None \<Longrightarrow> find (emplace k e d) = (find d)(k \<mapsto> e)"
    and find_erase: "invar d \<Longrightarrow> find (erase k d) = (find d)(k := None)"
    and find_modify: "invar d \<Longrightarrow> find (modify k f d) = (find d)(k := map_option f (find d k))"
    and invar_emplace: "invar d \<Longrightarrow> find d k = None \<Longrightarrow> invar (emplace k e d)"
    and invar_erase: "invar d \<Longrightarrow> invar (erase k d)"
    and invar_modify: "invar d \<Longrightarrow> invar (modify k f d)"
    and cells_emplace: "cells (emplace k e d) = add_mset (k, e) (cells d)"
    and cells_erase: "invar d \<Longrightarrow> find d k = Some e \<Longrightarrow> cells d = add_mset (k, e) (cells (erase k d))"
    and cells_modify: "invar d \<Longrightarrow> find d k = Some e \<Longrightarrow>
      cells (modify k f d) = add_mset (k, f e) (cells (erase k d))"
begin

text \<open>A quantity that is summed over the cells, such as the bytes charged for them, moves by
  exactly the difference of the cells exchanged.\<close>

lemma sum_emplace:
  "(\<Sum>x\<in>#cells (emplace k e d). w x) = (\<Sum>x\<in>#cells d. w x) + w (k, e :: 'e)"
  for w :: "'k \<times> 'e \<Rightarrow> 'c::ab_group_add"
  by (simp add: cells_emplace)

lemma sum_erase:
  fixes w :: "'k \<times> 'e \<Rightarrow> 'c::ab_group_add"
  assumes "invar d" and "find d k = Some e"
  shows "(\<Sum>x\<in>#cells (erase k d). w x) = (\<Sum>x\<in>#cells d. w x) - w (k, e)"
  using cells_erase [OF assms] by simp

lemma sum_modify:
  fixes w :: "'k \<times> 'e \<Rightarrow> 'c::ab_group_add"
  assumes "invar d" and "find d k = Some e"
  shows "(\<Sum>x\<in>#cells (modify k f d). w x) = (\<Sum>x\<in>#cells d. w x) - w (k, e) + w (k, f e)"
  using cells_modify [OF assms, of f] cells_erase [OF assms] by simp

lemma find_erase_other: "invar d \<Longrightarrow> k' \<noteq> k \<Longrightarrow> find (erase k d) k' = find d k'"
  by (simp add: find_erase)

lemma dom_emplace: "invar d \<Longrightarrow> find d k = None \<Longrightarrow> dom (find (emplace k e d)) = insert k (dom (find d))"
  by (simp add: find_emplace)

lemma dom_erase: "invar d \<Longrightarrow> dom (find (erase k d)) = dom (find d) - {k}"
  by (simp add: find_erase)

lemma dom_modify: "invar d \<Longrightarrow> dom (find (modify k f d)) = dom (find d)"
  by (auto simp: find_modify split: if_splits)

end

section \<open>The hash table provides it\<close>

lemma umap_find_emplace:
  assumes "umap_invar d" and "umap_find d k = None"
  shows "umap_find (umap_emplace L k e d) = (umap_find d)(k \<mapsto> e)"
proof -
  have "distinct (map fst ((k, e) # nodes d))"
    using assms by (auto simp: umap_invar_def umap_find_None_iff image_iff)
  then have "map_of (nodes (umap_emplace L k e d)) = map_of ((k, e) # nodes d)"
    by (intro map_of_mset_distinct [symmetric]) (simp_all add: umap_simps)
  then show ?thesis by (simp add: umap_find_eq)
qed

lemma umap_invar_emplace:
  assumes "umap_invar d" and "umap_find d k = None"
  shows "umap_invar (umap_emplace L k e d)"
proof -
  have "mset (map fst (nodes (umap_emplace L k e d))) = mset (k # map fst (nodes d))"
    by (simp add: umap_simps)
  moreover have "distinct (k # map fst (nodes d))"
    using assms by (auto simp: umap_invar_def umap_find_None_iff image_iff)
  ultimately show ?thesis unfolding umap_invar_def using mset_eq_imp_distinct_iff by blast
qed

lemma umap_find_modify:
  "umap_find (umap_modify k f d) = (umap_find d)(k := map_option f (umap_find d k))"
proof -
  have "map_of (map (\<lambda>(k', e). (k', if k' = k then f e else e)) xs) k'' =
      (if k'' = k then map_option f (map_of xs k) else map_of xs k'')" for xs k''
    by (induction xs) auto
  then show ?thesis by (auto simp: umap_find_def umap_modify_def)
qed

lemma umap_cells_erase:
  assumes "umap_invar d" and "umap_find d k = Some e"
  shows "mset (nodes d) = add_mset (k, e) (mset (nodes (umap_erase k d)))"
proof -
  have "mset (nodes d) = mset (filter (\<lambda>x. fst x = k) (nodes d)) + mset (filter (\<lambda>x. fst x \<noteq> k) (nodes d))"
    using multiset_partition [of "mset (nodes d)" "\<lambda>x. fst x = k"] by simp
  also have "filter (\<lambda>x. fst x = k) (nodes d) = [(k, e)]"
    using assms by (intro filter_fst_eq_single) (auto simp: umap_invar_def dest: umap_find_in)
  finally show ?thesis by (simp add: nodes_erase)
qed

lemma umap_modify_absent: "k \<notin> fst ` set xs \<Longrightarrow> map (\<lambda>(k', e). (k', if k' = k then f e else e)) xs = xs"
  by (induction xs) auto

lemma umap_cells_modify:
  assumes "umap_invar d" and "umap_find d k = Some e"
  shows "mset (nodes (umap_modify k f d)) = add_mset (k, f e) (mset (nodes (umap_erase k d)))"
proof -
  let ?m = "map (\<lambda>(k', e). (k', if k' = k then f e else e))"
  have "mset (?m (nodes d)) = image_mset (\<lambda>(k', e). (k', if k' = k then f e else e)) (mset (nodes d))"
    by simp
  also have "\<dots> = add_mset (k, f e) (mset (?m (nodes (umap_erase k d))))"
    using umap_cells_erase [OF assms] by simp
  also have "?m (nodes (umap_erase k d)) = nodes (umap_erase k d)"
    by (rule umap_modify_absent) (auto simp: nodes_erase)
  finally show ?thesis by (simp add: umap_modify_def)
qed

interpretation um: dictionary umap_find "umap_emplace L" umap_erase umap_modify "\<lambda>d. mset (nodes d)" umap_invar
  for L :: lib
proof unfold_locales
  fix d :: "'e umap" and k e f
  assume inv: "umap_invar d"
  show "umap_find (umap_erase k d) = (umap_find d)(k := None)"
    by (auto simp: umap_find_def nodes_erase map_of_filter_neq)
  show "umap_invar (umap_erase k d)"
    using inv by (simp add: umap_invar_def nodes_erase distinct_map_filter)
  show "umap_invar (umap_modify k f d)"
    using inv by (simp add: umap_invar_def)
  show "umap_find (umap_modify k f d) = (umap_find d)(k := map_option f (umap_find d k))"
    by (rule umap_find_modify)
qed (simp_all add: umap_find_emplace umap_invar_emplace mset_nodes_emplace umap_cells_erase umap_cells_modify)

end
