(* ===== verification/Engine.thy ===== *)
theory Engine
  imports UMap Charconv
begin

text \<open>
  The storage engine: \<open>include/storage/StorageEngine.h\<close>, \<open>include/storage/DictEntry.h\<close> and
  \<open>src/storage/StorageEngine.cpp\<close>. The fields of the class (without their trailing underscore)
  are the fields of the record, the shards a list of hash tables. An operation takes what the
  outside world supplies to the call (the clock reading \<open>now_ms\<close> and the values \<open>draw\<close> that the random
  distribution yields, in a \<open>tick\<close>), the arguments and the engine, and returns the result with the
  new engine. The keys and values that reach the engine are copies made while a request was decoded,
  so their capacity is that of a fresh string. The counts that \<open>del\<close> and \<open>exists\<close> return are an \<open>int\<close> in the
  sources; they are at most the number of arguments of one request.

  This theory holds the operations; their properties are in \<open>Engine_Invariant\<close>, \<open>Engine_Spec\<close> and
  \<open>Engine_Theorems\<close>.
\<close>

record DictEntry =
  entry_value :: cxx_string
  expire_at_ms :: u64
  last_access_ms :: u64

type_synonym dict = "DictEntry umap"

record StorageEngine =
  shards :: "dict list"
  running :: bool
  total_memory_usage :: u64
  max_memory_bytes :: u64
  keyspace_hits :: u64
  keyspace_misses :: u64
  evicted_keys :: u64
  expired_keys :: u64

record tick =
  now_ms :: u64
  draw :: "nat \<Rightarrow> nat \<Rightarrow> nat"

section \<open>Construction, limits and counters\<close>

definition engine_new :: "nat \<Rightarrow> StorageEngine" where
  "engine_new num_shards =
     \<lparr>shards = replicate num_shards umap_empty, running = True, total_memory_usage = 0,
      max_memory_bytes = 0, keyspace_hits = 0, keyspace_misses = 0, evicted_keys = 0,
      expired_keys = 0\<rparr>"

definition engine_shutdown :: "StorageEngine \<Rightarrow> StorageEngine" where
  "engine_shutdown e = e\<lparr>running := False\<rparr>"

definition set_max_memory :: "u64 \<Rightarrow> StorageEngine \<Rightarrow> StorageEngine" where
  "set_max_memory bytes e = e\<lparr>max_memory_bytes := bytes\<rparr>"

definition memory_usage :: "StorageEngine \<Rightarrow> u64" where
  "memory_usage e = total_memory_usage e"

text \<open>The bytes charged for an entry: the two capacities, the 48 bytes of a \<open>DictEntry\<close> and the
  32 bytes the sources assume for a node.\<close>

definition sizeof_DictEntry :: u64 where
  "sizeof_DictEntry = 48"

definition entry_cost :: "string \<Rightarrow> cxx_string \<Rightarrow> u64" where
  "entry_cost key v =
     of_nat (fresh_capacity (length key)) + of_nat (capacity v) + sizeof_DictEntry + 32"

definition get_shard_index :: "lib \<Rightarrow> StorageEngine \<Rightarrow> string \<Rightarrow> nat" where
  "get_shard_index L e key = unat (hash_of L key) mod length (shards e)"

definition shard_of :: "lib \<Rightarrow> StorageEngine \<Rightarrow> string \<Rightarrow> dict" where
  "shard_of L e key = shards e ! get_shard_index L e key"

definition is_expired :: "u64 \<Rightarrow> DictEntry \<Rightarrow> bool" where
  "is_expired now ent \<longleftrightarrow> 0 < expire_at_ms ent \<and> expire_at_ms ent \<le> now"

section \<open>How an operation writes to the shard of a key\<close>

text \<open>Uncharging and erasing an entry that was found, writing to one in place, adding one.\<close>

definition erase_entry :: "lib \<Rightarrow> string \<Rightarrow> DictEntry \<Rightarrow> StorageEngine \<Rightarrow> StorageEngine" where
  "erase_entry L key ent e =
     e\<lparr>total_memory_usage := total_memory_usage e - entry_cost key (entry_value ent),
       shards := (shards e)[get_shard_index L e key := umap_erase key (shard_of L e key)]\<rparr>"

definition update_entry :: "lib \<Rightarrow> string \<Rightarrow> (DictEntry \<Rightarrow> DictEntry) \<Rightarrow> StorageEngine \<Rightarrow> StorageEngine" where
  "update_entry L key f e =
     e\<lparr>shards := (shards e)[get_shard_index L e key := umap_modify key f (shard_of L e key)]\<rparr>"

definition insert_entry :: "lib \<Rightarrow> string \<Rightarrow> DictEntry \<Rightarrow> StorageEngine \<Rightarrow> StorageEngine" where
  "insert_entry L key ent e =
     e\<lparr>shards := (shards e)[get_shard_index L e key := umap_emplace L key ent (shard_of L e key)]\<rparr>"

text \<open>Emplacing a key or, when it is there, writing through the iterator instead.\<close>

definition put_entry ::
  "lib \<Rightarrow> string \<Rightarrow> DictEntry \<Rightarrow> (DictEntry \<Rightarrow> DictEntry) \<Rightarrow> StorageEngine \<Rightarrow> StorageEngine" where
  "put_entry L key ent f e =
     (case umap_find (shard_of L e key) key of
        None \<Rightarrow> insert_entry L key ent e
      | Some _ \<Rightarrow> update_entry L key f e)"

definition count_hit :: "StorageEngine \<Rightarrow> StorageEngine" where
  "count_hit e = e\<lparr>keyspace_hits := keyspace_hits e + 1\<rparr>"

definition count_miss :: "StorageEngine \<Rightarrow> StorageEngine" where
  "count_miss e = e\<lparr>keyspace_misses := keyspace_misses e + 1\<rparr>"

definition count_expired :: "StorageEngine \<Rightarrow> StorageEngine" where
  "count_expired e = e\<lparr>expired_keys := expired_keys e + 1\<rparr>"

section \<open>Approximate LRU eviction\<close>

fun sample_buckets ::
  "lib \<Rightarrow> dict \<Rightarrow> nat list \<Rightarrow> u64 \<Rightarrow> (string \<times> DictEntry) option \<Rightarrow> (string \<times> DictEntry) option" where
  "sample_buckets L d [] oldest_time best = best"
| "sample_buckets L d (b # bs) oldest_time best =
     (case bucket_nodes L d b of
        [] \<Rightarrow> sample_buckets L d bs oldest_time best
      | (k, _) # _ \<Rightarrow>
          (case umap_find d k of
             None \<Rightarrow> sample_buckets L d bs oldest_time best
           | Some ent \<Rightarrow>
               if last_access_ms ent < oldest_time
               then sample_buckets L d bs (last_access_ms ent) (Some (k, ent))
               else sample_buckets L d bs oldest_time best))"

text \<open>The victim of one round; \<open>i\<close> numbers the calls of the distribution since it was seeded. When no
  sampled bucket holds anything older than the end of time, the first node is taken.\<close>

definition choose_victim :: "lib \<Rightarrow> (nat \<Rightarrow> nat \<Rightarrow> nat) \<Rightarrow> nat \<Rightarrow> dict \<Rightarrow> string \<times> DictEntry" where
  "choose_victim L dr i d =
     (case sample_buckets L d (map (\<lambda>j. dr (i + j) (bucket_count d)) [0..<5]) (-1) None of
        Some x \<Rightarrow> x
      | None \<Rightarrow> hd (nodes d))"

lemma sample_buckets_in:
  assumes "\<And>x. best = Some x \<Longrightarrow> x \<in> set (nodes d)"
    and "sample_buckets L d bs t best = Some x"
  shows "x \<in> set (nodes d)"
  using assms
proof (induction bs arbitrary: t best)
  case (Cons b bs)
  show ?case
    using Cons.prems Cons.IH umap_find_in [of d]
    by (auto split: list.splits option.splits if_splits) blast+
qed simp

lemma choose_victim_in: "nodes d \<noteq> [] \<Longrightarrow> choose_victim L dr i d \<in> set (nodes d)"
  by (auto simp: choose_victim_def split: option.splits intro: sample_buckets_in)

function evict_loop ::
  "lib \<Rightarrow> (nat \<Rightarrow> nat \<Rightarrow> nat) \<Rightarrow> nat \<Rightarrow> u64 \<Rightarrow> u64 \<Rightarrow> dict \<Rightarrow> u64 \<Rightarrow> u64 \<Rightarrow> u64 \<times> dict \<times> u64 \<times> u64" where
  "evict_loop L dr i needed freed d mem evicted =
     (if freed < needed \<and> nodes d \<noteq> [] \<and> bucket_count d \<noteq> 0
      then
        let (k, ent) = choose_victim L dr i d; cost = entry_cost k (entry_value ent)
        in evict_loop L dr (i + 5) needed (freed + cost) (umap_erase k d) (mem - cost) (evicted + 1)
      else (freed, d, mem, evicted))"
  by pat_completeness auto
termination
proof (relation "measure (\<lambda>(L, dr, i, needed, freed, d, mem, evicted). length (nodes d))")
  fix L dr i d x k ent and needed freed mem evicted cost :: u64
  assume "freed < needed \<and> nodes d \<noteq> [] \<and> bucket_count d \<noteq> 0"
    and "x = choose_victim L dr i d" and "(k, ent) = x"
  then have "(k, ent) \<in> set (nodes d)" using choose_victim_in [of d L dr i] by simp
  then have "length (filter (\<lambda>x. fst x \<noteq> k) (nodes d)) < length (nodes d)"
    by (intro length_filter_less) auto
  then show "((L, dr, i + 5, needed, freed + cost, umap_erase k d, mem - cost, evicted + 1),
      L, dr, i, needed, freed, d, mem, evicted)
    \<in> measure (\<lambda>(L, dr, i, needed, freed, d, mem, evicted). length (nodes d))"
    by (simp add: nodes_erase)
qed simp

declare evict_loop.simps [simp del]

definition evict_from_shard ::
  "lib \<Rightarrow> tick \<Rightarrow> nat \<Rightarrow> u64 \<Rightarrow> StorageEngine \<Rightarrow> u64 \<times> StorageEngine" where
  "evict_from_shard L tk idx needed_bytes e =
     (let (freed, d, mem, evicted) =
            evict_loop L (draw tk) 0 needed_bytes 0 (shards e ! idx) (total_memory_usage e) (evicted_keys e)
      in (freed, e\<lparr>shards := (shards e)[idx := d], total_memory_usage := mem, evicted_keys := evicted\<rparr>))"

text \<open>The memory check that \<open>set\<close>, \<open>incr\<close> and \<open>decr\<close> share: \<open>False\<close> when even emptying the shard did not
  make room.\<close>

definition make_room ::
  "lib \<Rightarrow> tick \<Rightarrow> nat \<Rightarrow> u64 \<Rightarrow> u64 \<Rightarrow> StorageEngine \<Rightarrow> bool \<times> StorageEngine" where
  "make_room L tk idx new_cost old_cost e =
     (let current_mem = total_memory_usage e; max_mem = max_memory_bytes e
      in if 0 < max_mem \<and> max_mem + old_cost < current_mem + new_cost
         then
           let needed = (current_mem + new_cost) - (max_mem + old_cost);
               (freed, e') = evict_from_shard L tk idx needed e
           in (\<not> freed < needed, e')
         else (True, e))"

section \<open>Strings\<close>

definition old_cost_of :: "string \<Rightarrow> DictEntry option \<Rightarrow> u64" where
  "old_cost_of key it = (case it of Some ent \<Rightarrow> entry_cost key (entry_value ent) | None \<Rightarrow> 0)"

definition charge :: "u64 \<Rightarrow> u64 \<Rightarrow> StorageEngine \<Rightarrow> StorageEngine" where
  "charge new_cost old_cost e =
     e\<lparr>total_memory_usage := total_memory_usage e + (new_cost - old_cost)\<rparr>"

definition storage_set :: "lib \<Rightarrow> tick \<Rightarrow> string \<Rightarrow> string \<Rightarrow> StorageEngine \<Rightarrow> bool \<times> StorageEngine" where
  "storage_set L tk key v e =
     (let new_cost = entry_cost key (fresh v);
          now = now_ms tk;
          old_cost = old_cost_of key (umap_find (shard_of L e key) key);
          (room, e1) = make_room L tk (get_shard_index L e key) new_cost old_cost e
      in if \<not> room then (False, e1)
         else
           (True, put_entry L key
              \<lparr>entry_value = fresh v, expire_at_ms = 0, last_access_ms = now\<rparr>
              (\<lambda>ent. \<lparr>entry_value = copy_assign (entry_value ent) v, expire_at_ms = 0, last_access_ms = now\<rparr>)
              (charge new_cost old_cost e1)))"

definition storage_get :: "lib \<Rightarrow> u64 \<Rightarrow> string \<Rightarrow> StorageEngine \<Rightarrow> string option \<times> StorageEngine" where
  "storage_get L now key e =
     (case umap_find (shard_of L e key) key of
        None \<Rightarrow> (None, count_miss e)
      | Some ent \<Rightarrow>
          if is_expired now ent
          then (None, count_miss (count_expired (erase_entry L key ent e)))
          else (Some (chars (entry_value ent)),
                count_hit (update_entry L key (\<lambda>ent. ent\<lparr>last_access_ms := now\<rparr>) e)))"

section \<open>Several keys\<close>

fun storage_del :: "lib \<Rightarrow> string list \<Rightarrow> StorageEngine \<Rightarrow> int \<times> StorageEngine" where
  "storage_del L [] e = (0, e)"
| "storage_del L (key # keys) e =
     (case umap_find (shard_of L e key) key of
        None \<Rightarrow> storage_del L keys e
      | Some ent \<Rightarrow>
          let (deleted, e') = storage_del L keys (erase_entry L key ent e)
          in (deleted + 1, e'))"

fun storage_exists :: "lib \<Rightarrow> u64 \<Rightarrow> string list \<Rightarrow> StorageEngine \<Rightarrow> int \<times> StorageEngine" where
  "storage_exists L now [] e = (0, e)"
| "storage_exists L now (key # keys) e =
     (case umap_find (shard_of L e key) key of
        None \<Rightarrow> storage_exists L now keys (count_miss e)
      | Some ent \<Rightarrow>
          if is_expired now ent
          then storage_exists L now keys (count_miss (count_expired (erase_entry L key ent e)))
          else
            let (cnt, e') = storage_exists L now keys
                  (count_hit (update_entry L key (\<lambda>ent. ent\<lparr>last_access_ms := now\<rparr>) e))
            in (cnt + 1, e'))"

section \<open>Counters kept in strings\<close>

text \<open>What \<open>incr\<close> and \<open>decr\<close> do once the number and the deadline to keep are known: \<open>it\<close> is the entry
  that was found alive, if any.\<close>

definition store_number ::
  "lib \<Rightarrow> tick \<Rightarrow> string \<Rightarrow> DictEntry option \<Rightarrow> u64 \<Rightarrow> int \<Rightarrow> StorageEngine \<Rightarrow> (int option \<times> StorageEngine) run" where
  "store_number L tk key it expire_at val e =
     (if \<not> in_int64 val then Faults Signed_overflow
      else
        let new_val_str = int_to_string val;
            new_cost = entry_cost key (fresh new_val_str);
            old_cost = old_cost_of key it;
            (room, e1) = make_room L tk (get_shard_index L e key) new_cost old_cost e
        in if \<not> room then Returns (None, e1)
           else
             Returns (Some val, put_entry L key
               \<lparr>entry_value = fresh new_val_str, expire_at_ms = expire_at, last_access_ms = now_ms tk\<rparr>
               (\<lambda>ent. \<lparr>entry_value = move_assign (entry_value ent) new_val_str, expire_at_ms = expire_at,
                       last_access_ms = now_ms tk\<rparr>)
               (charge new_cost old_cost e1)))"

definition storage_step ::
  "lib \<Rightarrow> tick \<Rightarrow> int \<Rightarrow> string \<Rightarrow> StorageEngine \<Rightarrow> (int option \<times> StorageEngine) run" where
  "storage_step L tk delta key e =
     (case umap_find (shard_of L e key) key of
        None \<Rightarrow> store_number L tk key None 0 (0 + delta) e
      | Some ent \<Rightarrow>
          if is_expired (now_ms tk) ent
          then store_number L tk key None 0 (0 + delta) (erase_entry L key ent e)
          else
            (case from_chars_i64 (chars (entry_value ent)) of
               Inl _ \<Rightarrow> Returns (None, e)
             | Inr (val, rest) \<Rightarrow>
                 if rest \<noteq> [] then Returns (None, e)
                 else store_number L tk key (Some ent) (expire_at_ms ent) (val + delta) e))"

definition storage_incr :: "lib \<Rightarrow> tick \<Rightarrow> string \<Rightarrow> StorageEngine \<Rightarrow> (int option \<times> StorageEngine) run" where
  "storage_incr L tk key e = storage_step L tk 1 key e"

definition storage_decr :: "lib \<Rightarrow> tick \<Rightarrow> string \<Rightarrow> StorageEngine \<Rightarrow> (int option \<times> StorageEngine) run" where
  "storage_decr L tk key e = storage_step L tk (- 1) key e"

section \<open>Deadlines\<close>

definition storage_expire :: "lib \<Rightarrow> u64 \<Rightarrow> string \<Rightarrow> int \<Rightarrow> StorageEngine \<Rightarrow> bool \<times> StorageEngine" where
  "storage_expire L now key ms_offset e =
     (case umap_find (shard_of L e key) key of
        None \<Rightarrow> (False, e)
      | Some ent \<Rightarrow>
          if is_expired now ent then (False, count_expired (erase_entry L key ent e))
          else (True, update_entry L key (\<lambda>ent.
                  ent\<lparr>expire_at_ms := now + of_int ms_offset, last_access_ms := now\<rparr>) e))"

definition storage_expire_at :: "lib \<Rightarrow> u64 \<Rightarrow> string \<Rightarrow> u64 \<Rightarrow> StorageEngine \<Rightarrow> bool \<times> StorageEngine" where
  "storage_expire_at L now key absolute_ms e =
     (case umap_find (shard_of L e key) key of
        None \<Rightarrow> (False, e)
      | Some ent \<Rightarrow>
          if is_expired now ent then (False, count_expired (erase_entry L key ent e))
          else (True, update_entry L key (\<lambda>ent.
                  ent\<lparr>expire_at_ms := absolute_ms, last_access_ms := now\<rparr>) e))"

definition storage_pttl :: "lib \<Rightarrow> u64 \<Rightarrow> string \<Rightarrow> StorageEngine \<Rightarrow> int \<times> StorageEngine" where
  "storage_pttl L now key e =
     (case umap_find (shard_of L e key) key of
        None \<Rightarrow> (-2, e)
      | Some ent \<Rightarrow>
          if 0 < expire_at_ms ent then
            if expire_at_ms ent \<le> now then (-2, erase_entry L key ent e)
            else (sint (expire_at_ms ent - now), e)
          else (-1, e))"

definition storage_persist :: "lib \<Rightarrow> u64 \<Rightarrow> string \<Rightarrow> StorageEngine \<Rightarrow> bool \<times> StorageEngine" where
  "storage_persist L now key e =
     (case umap_find (shard_of L e key) key of
        None \<Rightarrow> (False, e)
      | Some ent \<Rightarrow>
          if is_expired now ent then (False, erase_entry L key ent e)
          else if expire_at_ms ent = 0 then (False, e)
          else (True, update_entry L key (\<lambda>ent. ent\<lparr>expire_at_ms := 0, last_access_ms := now\<rparr>) e))"

section \<open>The background sweeper\<close>

text \<open>One visit to a shard: at most twenty nodes from the beginning of the iteration order.\<close>

fun sweep_nodes ::
  "u64 \<Rightarrow> nat \<Rightarrow> (string \<times> DictEntry) list \<Rightarrow> u64 \<Rightarrow> u64 \<Rightarrow> (string \<times> DictEntry) list \<times> u64 \<times> u64" where
  "sweep_nodes now checked [] mem expired = ([], mem, expired)"
| "sweep_nodes now checked ((k, ent) # xs) mem expired =
     (if checked < 20 then
        if is_expired now ent
        then sweep_nodes now (checked + 1) xs (mem - entry_cost k (entry_value ent)) (expired + 1)
        else
          let (ys, mem', expired') = sweep_nodes now (checked + 1) xs mem expired
          in ((k, ent) # ys, mem', expired')
      else ((k, ent) # xs, mem, expired))"

definition sweep_shard :: "u64 \<Rightarrow> nat \<Rightarrow> StorageEngine \<Rightarrow> StorageEngine" where
  "sweep_shard now i e =
     (let d = shards e ! i;
          (ys, mem, expired) = sweep_nodes now 0 (nodes d) (total_memory_usage e) (expired_keys e)
      in e\<lparr>shards := (shards e)[i := d\<lparr>nodes := ys\<rparr>], total_memory_usage := mem, expired_keys := expired\<rparr>)"

text \<open>One round of the loop body after the sleep; \<open>owns_lock\<close> says which \<open>try_to_lock\<close> succeeded.\<close>

definition background_sweeper_round :: "(nat \<Rightarrow> bool) \<Rightarrow> u64 \<Rightarrow> StorageEngine \<Rightarrow> StorageEngine" where
  "background_sweeper_round owns_lock now e =
     (if running e
      then fold (\<lambda>i e. if owns_lock i then sweep_shard now i e else e) [0..<length (shards e)] e
      else e)"

end
