(* ===== verification/AOF.thy ===== *)
theory AOF
  imports Prelude
begin

text \<open>
  The append-only log: \<open>include/storage/AOFLogger.h\<close> and \<open>src/storage/AOFLogger.cpp\<close>.

  A logger is the path of its file, whether the stream is open, and the bytes of the file. The
  stream is opened in append mode and flushed after every write, so a write that returns has put
  its bytes at the end of the file and the put position is the size of the file. Writing is taken
  to succeed; the sources do not look at the state of the stream after a write.
\<close>

record AOFLogger =
  filepath :: string
  is_open :: bool
  file_content :: string

text \<open>The constructor; \<open>existing\<close> is what the file holds when it can be opened for appending (the empty
  string when it was just created).\<close>

definition aof_new :: "string \<Rightarrow> string option \<Rightarrow> AOFLogger run" where
  "aof_new path existing =
     (case existing of
        None \<Rightarrow> Faults Runtime_error
      | Some bytes \<Rightarrow> Returns \<lparr>filepath = path, is_open = True, file_content = bytes\<rparr>)"

definition aof_flush :: "AOFLogger \<Rightarrow> AOFLogger" where
  "aof_flush a = a"

definition aof_delete :: "AOFLogger \<Rightarrow> AOFLogger" where
  "aof_delete a = (if is_open a then (aof_flush a)\<lparr>is_open := False\<rparr> else a)"

definition aof_log :: "string \<Rightarrow> AOFLogger \<Rightarrow> AOFLogger" where
  "aof_log serialized_command a =
     (if \<not> is_open a then a else a\<lparr>file_content := file_content a @ serialized_command\<rparr>)"

definition aof_log_raw :: "string \<Rightarrow> AOFLogger \<Rightarrow> AOFLogger" where
  "aof_log_raw data a =
     (if \<not> is_open a then a else a\<lparr>file_content := file_content a @ data\<rparr>)"

definition get_filepath :: "AOFLogger \<Rightarrow> string" where
  "get_filepath a = filepath a"

definition get_file_size :: "AOFLogger \<Rightarrow> u64" where
  "get_file_size a = (if \<not> is_open a then 0 else of_nat (length (file_content a)))"

lemma aof_log_simps [simp]:
  "is_open (aof_log s a) = is_open a" "filepath (aof_log s a) = filepath a"
  "is_open (aof_log_raw s a) = is_open a" "filepath (aof_log_raw s a) = filepath a"
  by (simp_all add: aof_log_def aof_log_raw_def)

lemma file_content_log [simp]:
  "is_open a \<Longrightarrow> file_content (aof_log s a) = file_content a @ s"
  "is_open a \<Longrightarrow> file_content (aof_log_raw s a) = file_content a @ s"
  by (simp_all add: aof_log_def aof_log_raw_def)

lemma aof_log_raw_append: "aof_log_raw t (aof_log_raw s a) = aof_log_raw (s @ t) a"
  by (simp add: aof_log_raw_def)

end
