(* ===== verification/Dispatcher.thy ===== *)
theory Dispatcher
  imports RESP Engine AOF
begin

text \<open>
  The command dispatcher: \<open>include/server/CommandDispatcher.h\<close> and
  \<open>src/server/CommandDispatcher.cpp\<close>, with the two counters of \<open>src/server/Metrics.cpp\<close>.

  \<open>dispatch\<close> is the chain of comparisons of the sources; the branch of each command is a definition
  of its own. It works on a \<open>System\<close>: the storage engine, the log and the process-wide counters. The
  pointer to the log is the flag \<open>aof\<close> (\<open>False\<close> for \<open>nullptr\<close>). What the outside supplies to one
  dispatched command is a \<open>call\<close>: the clock reading and random draws of the storage operation, and
  the second clock reading that \<open>EXPIRE\<close> takes when it logs the absolute deadline.

  This theory holds the definitions; the properties are in \<open>Dispatcher_Theorems\<close>.
\<close>

record DispatchResult =
  response :: RESPValue
  close_connection :: bool
  is_psync :: bool
  psync_offset :: u64

record System =
  storage_engine :: StorageEngine
  aof_logger :: AOFLogger
  commands_processed :: u64
  connected_clients :: "32 word"

record call =
  engine_tick :: tick
  log_clock :: u64

type_synonym dispatched = "(DispatchResult \<times> System) run"

section \<open>Helpers\<close>

text \<open>\<open>std::toupper\<close> in the locale the program starts in.\<close>

definition toupper_char :: "char \<Rightarrow> char" where
  "toupper_char c =
     (if 97 \<le> (of_char c :: nat) \<and> (of_char c :: nat) \<le> 122 then char_of (of_char c - 32 :: nat) else c)"

definition to_upper :: "string \<Rightarrow> string" where
  "to_upper s = map toupper_char s"

definition is_mutating_command :: "string \<Rightarrow> bool" where
  "is_mutating_command cmd \<longleftrightarrow>
     cmd = ''SET'' \<or> cmd = ''DEL'' \<or> cmd = ''INCR'' \<or> cmd = ''DECR'' \<or>
     cmd = ''EXPIRE'' \<or> cmd = ''PEXPIRE'' \<or> cmd = ''PEXPIREAT'' \<or> cmd = ''PERSIST''"

definition answer :: "RESPValue \<Rightarrow> System \<Rightarrow> dispatched" where
  "answer v w = Returns (\<lparr>response = v, close_connection = False, is_psync = False, psync_offset = 0\<rparr>, w)"

definition arg :: "RESPValue \<Rightarrow> nat \<Rightarrow> string" where
  "arg request i = string_value (array_value request ! i)"

definition argc :: "RESPValue \<Rightarrow> nat" where
  "argc request = length (array_value request)"

text \<open>All arguments from the second on, as \<open>DEL\<close> and \<open>EXISTS\<close> collect them.\<close>

definition key_args :: "RESPValue \<Rightarrow> string list" where
  "key_args request = map (arg request) [1..<argc request]"

definition quoted :: "string \<Rightarrow> string" where
  "quoted s = [CHR 0x27] @ s @ [CHR 0x27]"

definition wrong_number :: "string \<Rightarrow> System \<Rightarrow> dispatched" where
  "wrong_number name w =
     answer (create_error (''ERR wrong number of arguments for '' @ quoted name @ '' command'')) w"

definition not_an_integer :: string where
  "not_an_integer = ''ERR value is not an integer or out of range''"

definition readonly_error :: string where
  "readonly_error = ''READONLY You can'' @ [CHR 0x27] @ ''t write against a read only replica''"

text \<open>Writing to the log when there is one and the command is not being replayed.\<close>

definition log_when :: "bool \<Rightarrow> RESPValue \<Rightarrow> System \<Rightarrow> System" where
  "log_when b v w = (if b then w\<lparr>aof_logger := aof_log (serialize v) (aof_logger w)\<rparr> else w)"

section \<open>Connection commands\<close>

definition cmd_ping :: "RESPValue \<Rightarrow> System \<Rightarrow> dispatched" where
  "cmd_ping request w =
     (if 2 < argc request then wrong_number ''ping'' w
      else if argc request = 2 then answer (create_bulk_string (arg request 1)) w
      else answer (create_simple_string ''PONG'') w)"

definition cmd_echo :: "RESPValue \<Rightarrow> System \<Rightarrow> dispatched" where
  "cmd_echo request w =
     (if argc request \<noteq> 2 then wrong_number ''echo'' w
      else answer (create_bulk_string (arg request 1)) w)"

definition cmd_quit :: "RESPValue \<Rightarrow> System \<Rightarrow> dispatched" where
  "cmd_quit request w =
     (if argc request \<noteq> 1 then wrong_number ''quit'' w
      else Returns (\<lparr>response = create_simple_string ''OK'', close_connection = True,
                     is_psync = False, psync_offset = 0\<rparr>, w))"

section \<open>Keys and values\<close>

definition cmd_set :: "lib \<Rightarrow> call \<Rightarrow> RESPValue \<Rightarrow> bool \<Rightarrow> bool \<Rightarrow> System \<Rightarrow> dispatched" where
  "cmd_set L cl request aof bypass_readonly w =
     (if argc request < 3 then wrong_number ''set'' w
      else
        let key = arg request 1; v = arg request 2;
            (ok, e) = storage_set L (engine_tick cl) key v (storage_engine w);
            w = w\<lparr>storage_engine := e\<rparr>
        in if \<not> ok
           then answer (create_error (''OOM command not allowed when used memory > '' @ quoted ''maxmemory'')) w
           else answer (create_simple_string ''OK'') (log_when (aof \<and> \<not> bypass_readonly) request w))"

definition cmd_get :: "lib \<Rightarrow> call \<Rightarrow> RESPValue \<Rightarrow> System \<Rightarrow> dispatched" where
  "cmd_get L cl request w =
     (if argc request \<noteq> 2 then wrong_number ''get'' w
      else
        let (val_opt, e) = storage_get L (now_ms (engine_tick cl)) (arg request 1) (storage_engine w);
            w = w\<lparr>storage_engine := e\<rparr>
        in case val_opt of
             Some v \<Rightarrow> answer (create_bulk_string v) w
           | None \<Rightarrow> answer create_null w)"

definition cmd_del :: "lib \<Rightarrow> RESPValue \<Rightarrow> bool \<Rightarrow> bool \<Rightarrow> System \<Rightarrow> dispatched" where
  "cmd_del L request aof bypass_readonly w =
     (if argc request < 2 then wrong_number ''del'' w
      else
        let (deleted, e) = storage_del L (key_args request) (storage_engine w);
            w = w\<lparr>storage_engine := e\<rparr>
        in answer (create_integer deleted)
             (log_when (aof \<and> \<not> bypass_readonly \<and> 0 < deleted) request w))"

definition cmd_exists :: "lib \<Rightarrow> call \<Rightarrow> RESPValue \<Rightarrow> System \<Rightarrow> dispatched" where
  "cmd_exists L cl request w =
     (if argc request < 2 then wrong_number ''exists'' w
      else
        let (cnt, e) = storage_exists L (now_ms (engine_tick cl)) (key_args request) (storage_engine w)
        in answer (create_integer cnt) (w\<lparr>storage_engine := e\<rparr>))"

text \<open>\<open>INCR\<close> and \<open>DECR\<close> differ in the operation they call and in the text of one message.\<close>

definition cmd_counter ::
  "(StorageEngine \<Rightarrow> (int option \<times> StorageEngine) run) \<Rightarrow> string \<Rightarrow> RESPValue \<Rightarrow> bool \<Rightarrow> bool \<Rightarrow>
   System \<Rightarrow> dispatched" where
  "cmd_counter op name request aof bypass_readonly w =
     (if argc request \<noteq> 2 then wrong_number name w
      else
        run_bind (op (storage_engine w)) (\<lambda>(res, e).
          let w = w\<lparr>storage_engine := e\<rparr>
          in case res of
               Some n \<Rightarrow> answer (create_integer n) (log_when (aof \<and> \<not> bypass_readonly) request w)
             | None \<Rightarrow> answer (create_error not_an_integer) w))"

definition cmd_incr :: "lib \<Rightarrow> call \<Rightarrow> RESPValue \<Rightarrow> bool \<Rightarrow> bool \<Rightarrow> System \<Rightarrow> dispatched" where
  "cmd_incr L cl request =
     cmd_counter (storage_incr L (engine_tick cl) (arg request 1)) ''incr'' request"

definition cmd_decr :: "lib \<Rightarrow> call \<Rightarrow> RESPValue \<Rightarrow> bool \<Rightarrow> bool \<Rightarrow> System \<Rightarrow> dispatched" where
  "cmd_decr L cl request =
     cmd_counter (storage_decr L (engine_tick cl) (arg request 1)) ''decr'' request"

section \<open>Deadlines\<close>

definition pexpireat_cmd :: "string \<Rightarrow> u64 \<Rightarrow> RESPValue" where
  "pexpireat_cmd key absolute_ms =
     RESPValue Array '''' 0
       [create_bulk_string ''PEXPIREAT'', create_bulk_string key,
        create_bulk_string (int_to_string (uint absolute_ms))]"

definition flag :: "bool \<Rightarrow> int" where
  "flag res = (if res then 1 else 0)"

definition cmd_expire :: "lib \<Rightarrow> call \<Rightarrow> string \<Rightarrow> RESPValue \<Rightarrow> bool \<Rightarrow> bool \<Rightarrow> System \<Rightarrow> dispatched" where
  "cmd_expire L cl cmd request aof bypass_readonly w =
     (if argc request \<noteq> 3 then wrong_number cmd w
      else
        let key = arg request 1; time_str = arg request 2
        in case from_chars_i64 time_str of
             Inl _ \<Rightarrow> answer (create_error not_an_integer) w
           | Inr (time_val, _) \<Rightarrow>
               let ms_offset = (if cmd = ''EXPIRE'' then time_val * 1000 else time_val)
               in if \<not> in_int64 ms_offset then Faults Signed_overflow
                  else
                    let (res, e) = storage_expire L (now_ms (engine_tick cl)) key ms_offset (storage_engine w);
                        w = w\<lparr>storage_engine := e\<rparr>;
                        absolute_ms = log_clock cl + of_int ms_offset
                    in answer (create_integer (flag res))
                         (log_when (aof \<and> \<not> bypass_readonly \<and> res) (pexpireat_cmd key absolute_ms) w))"

definition cmd_pexpireat :: "lib \<Rightarrow> call \<Rightarrow> RESPValue \<Rightarrow> bool \<Rightarrow> bool \<Rightarrow> System \<Rightarrow> dispatched" where
  "cmd_pexpireat L cl request aof bypass_readonly w =
     (if argc request \<noteq> 3 then wrong_number ''pexpireat'' w
      else
        let key = arg request 1; time_str = arg request 2
        in case from_chars_u64 time_str of
             Inl _ \<Rightarrow> answer (create_error not_an_integer) w
           | Inr (abs_ms, _) \<Rightarrow>
               let (res, e) = storage_expire_at L (now_ms (engine_tick cl)) key (of_int abs_ms) (storage_engine w);
                   w = w\<lparr>storage_engine := e\<rparr>
               in answer (create_integer (flag res)) (log_when (aof \<and> \<not> bypass_readonly \<and> res) request w))"

definition cmd_ttl :: "lib \<Rightarrow> call \<Rightarrow> string \<Rightarrow> RESPValue \<Rightarrow> System \<Rightarrow> dispatched" where
  "cmd_ttl L cl cmd request w =
     (if argc request \<noteq> 2 then wrong_number cmd w
      else
        let (ms_left, e) = storage_pttl L (now_ms (engine_tick cl)) (arg request 1) (storage_engine w);
            w = w\<lparr>storage_engine := e\<rparr>
        in if ms_left < 0 then answer (create_integer ms_left) w
           else answer (create_integer (if cmd = ''TTL'' then ms_left div 1000 else ms_left)) w)"

definition cmd_persist :: "lib \<Rightarrow> call \<Rightarrow> RESPValue \<Rightarrow> bool \<Rightarrow> bool \<Rightarrow> System \<Rightarrow> dispatched" where
  "cmd_persist L cl request aof bypass_readonly w =
     (if argc request \<noteq> 2 then wrong_number ''persist'' w
      else
        let (res, e) = storage_persist L (now_ms (engine_tick cl)) (arg request 1) (storage_engine w);
            w = w\<lparr>storage_engine := e\<rparr>
        in answer (create_integer (flag res)) (log_when (aof \<and> \<not> bypass_readonly \<and> res) request w))"

section \<open>Administration\<close>

definition info_line :: "string \<Rightarrow> int \<Rightarrow> string" where
  "info_line name n = name @ '':'' @ int_to_string n @ crlf"

definition info_section :: "string \<Rightarrow> string \<Rightarrow> string \<Rightarrow> string" where
  "info_section section name lines = (if section = ''ALL'' \<or> section = name then lines else '''')"

definition cmd_info :: "RESPValue \<Rightarrow> bool \<Rightarrow> bool \<Rightarrow> System \<Rightarrow> dispatched" where
  "cmd_info request aof is_read_only w =
     (if 2 < argc request then wrong_number ''info'' w
      else
        let section = (if argc request = 2 then to_upper (arg request 1) else ''all'');
            e = storage_engine w;
            size = uint (get_file_size (aof_logger w));
            info_str =
              info_section section ''SERVER'' (''# Server'' @ crlf @ ''redis_mode:standalone'' @ crlf) @
              info_section section ''CLIENTS''
                (''# Clients'' @ crlf @ info_line ''connected_clients'' (uint (connected_clients w))) @
              info_section section ''MEMORY''
                (''# Memory'' @ crlf @ info_line ''used_memory'' (uint (memory_usage e)) @
                 info_line ''maxmemory'' (uint (max_memory_bytes e))) @
              info_section section ''PERSISTENCE''
                (''# Persistence'' @ crlf @ ''aof_enabled:1'' @ crlf @
                 (if aof then info_line ''aof_current_size'' size else '''')) @
              info_section section ''STATS''
                (''# Stats'' @ crlf @ info_line ''total_commands_processed'' (uint (commands_processed w)) @
                 info_line ''keyspace_hits'' (uint (keyspace_hits e)) @
                 info_line ''keyspace_misses'' (uint (keyspace_misses e)) @
                 info_line ''evicted_keys'' (uint (evicted_keys e)) @
                 info_line ''expired_keys'' (uint (expired_keys e))) @
              info_section section ''REPLICATION''
                (''# Replication'' @ crlf @
                 ''role:'' @ (if is_read_only then ''slave'' else ''master'') @ crlf @
                 (if aof then info_line ''master_repl_offset'' size else ''''))
        in answer (create_bulk_string info_str) w)"

definition cmd_config :: "RESPValue \<Rightarrow> System \<Rightarrow> dispatched" where
  "cmd_config request w =
     (if argc request \<noteq> 4 \<or> to_upper (arg request 1) \<noteq> ''SET''
      then answer (create_error ''ERR unsupported config command'') w
      else if to_upper (arg request 2) = ''MAXMEMORY'' then
        (case from_chars_i64 (arg request 3) of
           Inr (val, _) \<Rightarrow>
             answer (create_simple_string ''OK'')
               (w\<lparr>storage_engine := set_max_memory (of_int val) (storage_engine w)\<rparr>)
         | Inl _ \<Rightarrow> answer (create_error ''ERR invalid maxmemory value'') w)
      else answer (create_error ''ERR unsupported config parameter'') w)"

definition cmd_psync :: "RESPValue \<Rightarrow> System \<Rightarrow> dispatched" where
  "cmd_psync request w =
     (if argc request \<noteq> 2 then wrong_number ''psync'' w
      else
        case from_chars_u64 (arg request 1) of
          Inl _ \<Rightarrow> answer (create_error ''ERR invalid offset'') w
        | Inr (offset, _) \<Rightarrow>
            Returns (\<lparr>response = create_simple_string ''CONTINUE'', close_connection = False,
                      is_psync = True, psync_offset = of_int offset\<rparr>, w))"

section \<open>The dispatcher\<close>

definition run_command ::
  "lib \<Rightarrow> call \<Rightarrow> string \<Rightarrow> RESPValue \<Rightarrow> bool \<Rightarrow> bool \<Rightarrow> bool \<Rightarrow> System \<Rightarrow> dispatched" where
  "run_command L cl cmd request aof is_read_only bypass_readonly w =
     (if cmd = ''PING'' then cmd_ping request w
      else if cmd = ''ECHO'' then cmd_echo request w
      else if cmd = ''QUIT'' then cmd_quit request w
      else if cmd = ''SET'' then cmd_set L cl request aof bypass_readonly w
      else if cmd = ''GET'' then cmd_get L cl request w
      else if cmd = ''DEL'' then cmd_del L request aof bypass_readonly w
      else if cmd = ''EXISTS'' then cmd_exists L cl request w
      else if cmd = ''INCR'' then cmd_incr L cl request aof bypass_readonly w
      else if cmd = ''DECR'' then cmd_decr L cl request aof bypass_readonly w
      else if cmd = ''EXPIRE'' \<or> cmd = ''PEXPIRE'' then cmd_expire L cl cmd request aof bypass_readonly w
      else if cmd = ''PEXPIREAT'' then cmd_pexpireat L cl request aof bypass_readonly w
      else if cmd = ''TTL'' \<or> cmd = ''PTTL'' then cmd_ttl L cl cmd request w
      else if cmd = ''PERSIST'' then cmd_persist L cl request aof bypass_readonly w
      else if cmd = ''INFO'' then cmd_info request aof is_read_only w
      else if cmd = ''CONFIG'' then cmd_config request w
      else if cmd = ''PSYNC'' then cmd_psync request w
      else answer (create_error (''ERR unknown command '' @ quoted cmd)) w)"

definition dispatch ::
  "lib \<Rightarrow> call \<Rightarrow> RESPValue \<Rightarrow> bool \<Rightarrow> bool \<Rightarrow> bool \<Rightarrow> System \<Rightarrow> dispatched" where
  "dispatch L cl request aof is_read_only bypass_readonly w =
     (let w = w\<lparr>commands_processed := commands_processed w + 1\<rparr>
      in if resp_type request \<noteq> Array \<or> array_value request = []
         then answer (create_error ''ERR invalid request type, expected array of bulk strings'') w
         else
           let cmd_val = array_value request ! 0
           in if resp_type cmd_val \<noteq> BulkString \<and> resp_type cmd_val \<noteq> SimpleString
              then answer (create_error ''ERR invalid command format'') w
              else
                let cmd = to_upper (string_value cmd_val)
                in if is_read_only \<and> \<not> bypass_readonly \<and> is_mutating_command cmd
                   then answer (create_error readonly_error) w
                   else run_command L cl cmd request aof is_read_only bypass_readonly w)"

end
