(* ===== verification/Connection.thy ===== *)
theory Connection
  imports Prelude
begin

text \<open>
  The socket wrapper: \<open>include/net/Connection.h\<close> and \<open>src/net/Connection.cpp\<close>.

  A connection is the descriptor it owns, -1 for none. What the operating system answers to \<open>read\<close> and
  \<open>write\<close> is an argument: the outcome of the one \<open>read\<close>, and a function from the number of the \<open>write\<close>
  call and the number of bytes offered to its result. \<open>closes\<close> lists the descriptors handed to \<open>close\<close>.
\<close>

section \<open>Definitions\<close>

record Connection =
  conn_fd :: int

definition connection_new :: "int \<Rightarrow> Connection" where
  "connection_new fd = \<lparr>conn_fd = fd\<rparr>"

definition conn_close :: "Connection \<Rightarrow> Connection \<times> int list" where
  "conn_close c = (if 0 \<le> conn_fd c then (c\<lparr>conn_fd := -1\<rparr>, [conn_fd c]) else (c, []))"

definition conn_delete :: "Connection \<Rightarrow> int list" where
  "conn_delete c = snd (conn_close c)"

text \<open>Move construction: the new connection and what is left of the other.\<close>

definition conn_move :: "Connection \<Rightarrow> Connection \<times> Connection" where
  "conn_move other = (\<lparr>conn_fd = conn_fd other\<rparr>, other\<lparr>conn_fd := -1\<rparr>)"

text \<open>Move assignment between two different objects, and of an object to itself.\<close>

definition conn_move_assign :: "Connection \<Rightarrow> Connection \<Rightarrow> Connection \<times> Connection \<times> int list" where
  "conn_move_assign this other =
     (let (this, closes) = conn_close this
      in (this\<lparr>conn_fd := conn_fd other\<rparr>, other\<lparr>conn_fd := -1\<rparr>, closes))"

definition conn_self_assign :: "Connection \<Rightarrow> Connection \<times> int list" where
  "conn_self_assign this = (this, [])"

text \<open>The return value of \<open>read_bytes\<close> and the bytes put into the buffer; \<open>os\<close> is \<open>None\<close> when \<open>read\<close> fails.\<close>

definition read_bytes :: "Connection \<Rightarrow> string option \<Rightarrow> int \<times> string" where
  "read_bytes c os =
     (if conn_fd c < 0 then (-1, [])
      else case os of None \<Rightarrow> (-1, []) | Some bytes \<Rightarrow> (int (length bytes), bytes))"

text \<open>The bytes that went out so far are the first \<open>total_written\<close>; \<open>i\<close> numbers the calls of \<open>write\<close>.\<close>

function write_loop :: "(nat \<Rightarrow> nat \<Rightarrow> int) \<Rightarrow> string \<Rightarrow> nat \<Rightarrow> nat \<Rightarrow> bool \<times> nat" where
  "write_loop os data i total_written =
     (if total_written < length data then
        let bytes_written = os i (length data - total_written)
        in if bytes_written \<le> 0 then (False, total_written)
           else write_loop os data (i + 1) (total_written + nat bytes_written)
      else (True, total_written))"
  by pat_completeness auto
termination
  by (relation "measure (\<lambda>(os, data, i, total_written). length data - total_written)") auto

declare write_loop.simps [simp del]

definition write_bytes :: "Connection \<Rightarrow> (nat \<Rightarrow> nat \<Rightarrow> int) \<Rightarrow> string \<Rightarrow> bool \<times> string" where
  "write_bytes c os data =
     (if conn_fd c < 0 then (False, [])
      else let (ok, n) = write_loop os data 0 0 in (ok, take n data))"

section \<open>Writing\<close>

text \<open>\<open>write\<close> reports at most as many bytes as it was offered.\<close>

definition os_writes :: "(nat \<Rightarrow> nat \<Rightarrow> int) \<Rightarrow> bool" where
  "os_writes os \<longleftrightarrow> (\<forall>i n. os i n \<le> int n)"

lemma write_loop_result:
  assumes "os_writes os" and "sent \<le> length data" and "write_loop os data i sent = (ok, n)"
  shows "sent \<le> n \<and> n \<le> length data \<and> (ok \<longleftrightarrow> n = length data)"
  using assms
proof (induction os data i sent rule: write_loop.induct)
  case (1 os data i sent)
  show ?case
  proof (cases "sent < length data \<and> 0 < os i (length data - sent)")
    case True
    let ?sent = "sent + nat (os i (length data - sent))"
    have "os i (length data - sent) \<le> int (length data - sent)"
      using "1.prems"(1) by (simp add: os_writes_def)
    then have "?sent \<le> length data" using True by linarith
    moreover have "write_loop os data (i + 1) ?sent = (ok, n)"
      using "1.prems"(3) True by (simp add: write_loop.simps [of os data i sent] Let_def)
    ultimately have "?sent \<le> n \<and> n \<le> length data \<and> (ok \<longleftrightarrow> n = length data)"
      using "1.IH" [OF _ refl] "1.prems"(1) True by simp
    then show ?thesis by simp
  next
    case False
    then show ?thesis
      using "1.prems" by (auto simp: write_loop.simps [of os data i sent] Let_def split: if_splits)
  qed
qed



section \<open>Ownership\<close>

text \<open>A descriptor is closed once: handing a connection on by moving it and destroying both objects
  closes the descriptor exactly once, and closing by hand before destruction does not close it
  again.\<close>

lemma descriptor_closed_once:
  assumes "0 \<le> fd"
  shows "(let (mine, left) = conn_move (connection_new fd) in conn_delete mine @ conn_delete left) = [fd] \<and>
     (let (c, closes) = conn_close (connection_new fd) in closes @ conn_delete c) = [fd] \<and>
     (let (this, left, closes) = conn_move_assign (connection_new fd0) (connection_new fd)
      in closes @ conn_delete this @ conn_delete left) = (if 0 \<le> fd0 then [fd0, fd] else [fd])"
  using assms
  by (simp add: conn_move_def conn_delete_def conn_close_def conn_move_assign_def connection_new_def)

end
