(* ===== verification/Server.thy ===== *)
theory Server
  imports Dispatcher Connection
begin

text \<open>
  The server: \<open>include/server/Server.h\<close>, \<open>src/server/Server.cpp\<close> and the arguments of \<open>src/main.cpp\<close>.

  The loops of the sources are functions of what the outside supplies to them, in order: the
  results of \<open>read\<close>, the success of each \<open>write\<close>, the contents of the log file at each look. \<open>calls n\<close> is
  the environment of the \<open>n\<close>-th command dispatched by the loop at hand. The loops that parse a buffer
  need not end (a value may be recognised without consuming anything), so they take fuel, and
  \<open>Diverges\<close> is the outcome when it is used up; \<open>depth\<close> is the stack available to the parser.

  This theory holds the definitions; the properties are in \<open>Server_Theorems\<close>, \<open>Durability\<close> and
  \<open>Replication\<close>.
\<close>

section \<open>Construction and start\<close>

record Server =
  port :: "16 word"
  server_fd :: int
  server_running :: bool
  server_system :: System
  replica_host :: string
  replica_port :: "16 word"
  is_replica :: bool

definition system_new :: "AOFLogger \<Rightarrow> System" where
  "system_new a =
     \<lparr>storage_engine = engine_new 16, aof_logger = a, commands_processed = 0, connected_clients = 0\<rparr>"

definition server_new :: "16 word \<Rightarrow> string \<Rightarrow> 16 word \<Rightarrow> string option \<Rightarrow> Server run" where
  "server_new p host rport existing =
     run_bind (aof_new ''appendonly.aof'' existing) (\<lambda>a.
       Returns \<lparr>port = p, server_fd = -1, server_running = False, server_system = system_new a,
         replica_host = host, replica_port = rport, is_replica = (host \<noteq> [] \<and> 0 < rport)\<rparr>)"

text \<open>\<open>stop\<close>, with the descriptors it closes.\<close>

definition server_stop :: "Server \<Rightarrow> Server \<times> int list" where
  "server_stop srv =
     (let srv = srv\<lparr>server_running := False\<rparr>
      in if server_fd srv \<noteq> -1 then (srv\<lparr>server_fd := -1\<rparr>, [server_fd srv]) else (srv, []))"

text \<open>The destructor, with the members it destroys.\<close>

definition server_delete :: "Server \<Rightarrow> Server \<times> int list" where
  "server_delete srv =
     (let (srv, closes) = server_stop srv; w = server_system srv
      in (srv\<lparr>server_system := w\<lparr>aof_logger := aof_delete (aof_logger w),
            storage_engine := engine_shutdown (storage_engine w)\<rparr>\<rparr>, closes))"

text \<open>Replaying the log: \<open>loaded_commands\<close> is an \<open>int\<close>.\<close>

definition int32_max :: int where
  "int32_max = 2 ^ 31 - 1"

definition replay_one ::
  "lib \<Rightarrow> (nat \<Rightarrow> call) \<Rightarrow> bool \<Rightarrow> int \<times> System \<Rightarrow> RESPValue \<Rightarrow> (int \<times> System) run" where
  "replay_one L calls replica st request =
     (let (loaded_commands, w) = st
      in run_bind (dispatch L (calls (nat loaded_commands)) request False replica True w) (\<lambda>(_, w').
           if loaded_commands = int32_max then Faults Signed_overflow
           else Returns (loaded_commands + 1, w')))"

fun load_loop ::
  "lib \<Rightarrow> nat \<Rightarrow> (nat \<Rightarrow> call) \<Rightarrow> bool \<Rightarrow> nat \<Rightarrow> nat \<Rightarrow> string \<Rightarrow> int \<times> System \<Rightarrow>
   (string \<times> int \<times> System) run" where
  "load_loop L depth calls replica 0 consumed aof_content st = Diverges"
| "load_loop L depth calls replica (Suc fuel) consumed aof_content st =
     (if aof_content = [] then Returns (aof_content, st)
      else
        run_bind (parse depth aof_content consumed) (\<lambda>(req_opt, consumed).
          case req_opt of
            None \<Rightarrow> Returns (aof_content, st)
          | Some request \<Rightarrow>
              run_bind (replay_one L calls replica st request) (\<lambda>st.
                load_loop L depth calls replica fuel consumed (drop consumed aof_content) st)))"

definition load_aof ::
  "lib \<Rightarrow> nat \<Rightarrow> (nat \<Rightarrow> call) \<Rightarrow> bool \<Rightarrow> nat \<Rightarrow> string option \<Rightarrow> System \<Rightarrow> System run" where
  "load_aof L depth calls replica fuel aof_stream w =
     (case aof_stream of
        None \<Rightarrow> Returns w
      | Some aof_content \<Rightarrow>
          map_run (\<lambda>(_, _, w'). w') (load_loop L depth calls replica fuel 0 aof_content (0, w)))"

text \<open>What the socket calls return.\<close>

record listen_results =
  socket_result :: int
  setsockopt_result :: int
  bind_result :: int
  listen_result :: int

definition open_listener :: "listen_results \<Rightarrow> Server \<Rightarrow> bool \<times> Server" where
  "open_listener os srv =
     (let srv = srv\<lparr>server_fd := socket_result os\<rparr>
      in if socket_result os = -1 then (False, srv)
         else if setsockopt_result os < 0 then (False, srv)
         else if bind_result os < 0 then (False, srv)
         else if listen_result os < 0 then (False, srv)
         else (True, srv\<lparr>server_running := True\<rparr>))"

text \<open>\<open>start\<close> up to the accept loop: whether it is reached, and the server. A replica starts its worker
  (\<open>run_replica_worker\<close> below) exactly when it is.\<close>

definition server_start ::
  "lib \<Rightarrow> nat \<Rightarrow> (nat \<Rightarrow> call) \<Rightarrow> nat \<Rightarrow> string option \<Rightarrow> listen_results \<Rightarrow> Server \<Rightarrow> (bool \<times> Server) run" where
  "server_start L depth calls fuel aof_stream os srv =
     (let srv = srv\<lparr>server_running := True\<rparr>
      in run_bind (load_aof L depth calls (is_replica srv) fuel aof_stream (server_system srv)) (\<lambda>w.
           Returns (open_listener os (srv\<lparr>server_system := w\<rparr>))))"

text \<open>One round of the accept loop, all of its rounds until \<open>running_\<close> is found false, given what \<open>accept\<close>
  returned in each, and the end of a client's thread.\<close>

definition accept_client :: "int \<Rightarrow> System \<Rightarrow> Connection option \<times> System" where
  "accept_client client_fd w =
     (if client_fd < 0 then (None, w)
      else (Some (connection_new client_fd), w\<lparr>connected_clients := connected_clients w + 1\<rparr>))"

fun accept_loop :: "int list \<Rightarrow> System \<Rightarrow> Connection list \<times> System" where
  "accept_loop [] w = ([], w)"
| "accept_loop (client_fd # fds) w =
     (let (c, w) = accept_client client_fd w; (cs, w) = accept_loop fds w
      in (case c of None \<Rightarrow> cs | Some conn \<Rightarrow> conn # cs, w))"

definition client_gone :: "System \<Rightarrow> System" where
  "client_gone w = w\<lparr>connected_clients := connected_clients w - 1\<rparr>"

section \<open>Serving a client\<close>

datatype session_status = Serving | Finished | Streaming u64

record Session =
  session_system :: System
  served :: nat
  replies :: "string list"
  status :: session_status

text \<open>One request: dispatch, answer, and what the result asks for. \<open>write_ok n\<close> tells whether the answer to
  the \<open>n\<close>-th request could be written.\<close>

definition serve ::
  "lib \<Rightarrow> (nat \<Rightarrow> call) \<Rightarrow> (nat \<Rightarrow> bool) \<Rightarrow> bool \<Rightarrow> Session \<Rightarrow> RESPValue \<Rightarrow> Session run" where
  "serve L calls write_ok replica s request =
     run_bind (dispatch L (calls (served s)) request True replica False (session_system s)) (\<lambda>(result, w).
       let serialized_resp = serialize (response result);
           ok = write_ok (served s);
           s = s\<lparr>session_system := w, served := served s + 1\<rparr>
       in if \<not> ok then Returns (s\<lparr>status := Finished\<rparr>)
          else
            let s = s\<lparr>replies := replies s @ [serialized_resp]\<rparr>
            in if is_psync result then Returns (s\<lparr>status := Streaming (psync_offset result)\<rparr>)
               else if close_connection result then Returns (s\<lparr>status := Finished\<rparr>)
               else Returns s)"

fun request_loop ::
  "lib \<Rightarrow> nat \<Rightarrow> (nat \<Rightarrow> call) \<Rightarrow> (nat \<Rightarrow> bool) \<Rightarrow> bool \<Rightarrow> nat \<Rightarrow> nat \<Rightarrow> string \<Rightarrow> Session \<Rightarrow>
   (string \<times> Session) run" where
  "request_loop L depth calls write_ok replica 0 consumed client_buffer s = Diverges"
| "request_loop L depth calls write_ok replica (Suc fuel) consumed client_buffer s =
     run_bind (parse depth client_buffer consumed) (\<lambda>(req_opt, consumed).
       case req_opt of
         None \<Rightarrow> Returns (client_buffer, s)
       | Some request \<Rightarrow>
           run_bind (serve L calls write_ok replica s request) (\<lambda>s.
             if status s = Serving
             then request_loop L depth calls write_ok replica fuel consumed (drop consumed client_buffer) s
             else Returns (drop consumed client_buffer, s)))"

text \<open>The rounds of the outer loop: bytes arrived, or \<open>read\<close> returned nothing, or \<open>running_\<close> was found false.\<close>

datatype event = Bytes string | Disconnected | Stopped

fun handle_client ::
  "lib \<Rightarrow> nat \<Rightarrow> (nat \<Rightarrow> call) \<Rightarrow> (nat \<Rightarrow> bool) \<Rightarrow> bool \<Rightarrow> nat \<Rightarrow> event list \<Rightarrow> string \<Rightarrow> Session \<Rightarrow>
   (string \<times> Session) run" where
  "handle_client L depth calls write_ok replica fuel [] client_buffer s = Returns (client_buffer, s)"
| "handle_client L depth calls write_ok replica fuel (ev # evs) client_buffer s =
     (case ev of
        Stopped \<Rightarrow> Returns (client_buffer, s\<lparr>status := Finished\<rparr>)
      | Disconnected \<Rightarrow> Returns (client_buffer, s\<lparr>status := Finished\<rparr>)
      | Bytes data \<Rightarrow>
          run_bind (request_loop L depth calls write_ok replica fuel 0 (client_buffer @ data) s)
            (\<lambda>(client_buffer, s).
              if status s = Serving
              then handle_client L depth calls write_ok replica fuel evs client_buffer s
              else Returns (client_buffer, s)))"

definition session_new :: "System \<Rightarrow> Session" where
  "session_new w = \<lparr>session_system = w, served = 0, replies = [], status = Serving\<rparr>"

section \<open>Streaming the log to a replica\<close>

text \<open>The input stream on the log file: its position and whether it is in a failed state. Seeking to a
  position that is negative as a signed number fails.\<close>

record aof_reader =
  reader_pos :: nat
  reader_failed :: bool

definition seekg :: "u64 \<Rightarrow> aof_reader" where
  "seekg offset =
     (if uint offset < 2 ^ 63 then \<lparr>reader_pos = unat offset, reader_failed = False\<rparr>
      else \<lparr>reader_pos = 0, reader_failed = True\<rparr>)"

text \<open>A read of up to 4096 bytes from a file that holds \<open>content\<close>; a short read leaves the stream failed,
  and a failed stream reads nothing.\<close>

definition reader_read :: "string \<Rightarrow> aof_reader \<Rightarrow> string \<times> aof_reader" where
  "reader_read content st =
     (if reader_failed st then ([], st)
      else
        let bytes = take 4096 (drop (reader_pos st) content)
        in (bytes, \<lparr>reader_pos = reader_pos st + length bytes, reader_failed = (length bytes < 4096)\<rparr>))"

text \<open>Each round sees the file as it is then and is told whether the bytes could be written. The result
  is what went out.\<close>

fun psync_loop :: "(string \<times> bool) list \<Rightarrow> aof_reader \<Rightarrow> string" where
  "psync_loop [] st = []"
| "psync_loop ((content, write_ok) # rounds) st =
     (let (bytes, st) = reader_read content st
      in if bytes \<noteq> [] then if \<not> write_ok then [] else bytes @ psync_loop rounds st
         else psync_loop rounds (st\<lparr>reader_failed := False\<rparr>))"

definition psync_stream :: "u64 \<Rightarrow> (string \<times> bool) list \<Rightarrow> string" where
  "psync_stream offset rounds = psync_loop rounds (seekg offset)"

section \<open>Following a primary\<close>

record Replica =
  rep_system :: System
  rep_buffer :: string
  in_stream :: bool
  applied :: nat
  connected :: bool

definition psync_request :: "u64 \<Rightarrow> string" where
  "psync_request current_offset =
     ''*2'' @ crlf @ ''$5'' @ crlf @ ''PSYNC'' @ crlf @ ''$'' @
     int_to_string (int (length (int_to_string (uint current_offset)))) @ crlf @
     int_to_string (uint current_offset) @ crlf"

text \<open>A new connection of the worker: what it sends, and the variables of the round. \<open>n\<close> commands have been
  applied so far.\<close>

definition replica_connect :: "nat \<Rightarrow> System \<Rightarrow> string \<times> Replica" where
  "replica_connect n w =
     (psync_request (get_file_size (aof_logger w)),
      \<lparr>rep_system = w, rep_buffer = [], in_stream = False, applied = n, connected = True\<rparr>)"

definition apply_one ::
  "lib \<Rightarrow> (nat \<Rightarrow> call) \<Rightarrow> bool \<Rightarrow> nat \<times> System \<Rightarrow> RESPValue \<Rightarrow> (nat \<times> System) run" where
  "apply_one L calls replica st request =
     (let (n, w) = st
      in map_run (\<lambda>(_, w'). (n + 1, w')) (dispatch L (calls n) request False replica True w))"

fun apply_loop ::
  "lib \<Rightarrow> nat \<Rightarrow> (nat \<Rightarrow> call) \<Rightarrow> bool \<Rightarrow> nat \<Rightarrow> nat \<Rightarrow> string \<Rightarrow> nat \<times> System \<Rightarrow>
   (string \<times> nat \<times> System) run" where
  "apply_loop L depth calls replica 0 consumed buffer st = Diverges"
| "apply_loop L depth calls replica (Suc fuel) consumed buffer st =
     run_bind (parse depth buffer consumed) (\<lambda>(req_opt, consumed).
       case req_opt of
         None \<Rightarrow> Returns (buffer, st)
       | Some request \<Rightarrow>
           run_bind (apply_one L calls replica st request) (\<lambda>st.
             apply_loop L depth calls replica fuel 0 (drop consumed buffer) st))"

text \<open>Bytes of the stream: they go to the log as they are, and the complete commands are applied.\<close>

definition replica_apply ::
  "lib \<Rightarrow> nat \<Rightarrow> (nat \<Rightarrow> call) \<Rightarrow> bool \<Rightarrow> nat \<Rightarrow> string \<Rightarrow> string \<Rightarrow> Replica \<Rightarrow> Replica run" where
  "replica_apply L depth calls replica fuel buffer data r =
     (let w = rep_system r; w = w\<lparr>aof_logger := aof_log_raw data (aof_logger w)\<rparr>
      in map_run (\<lambda>(rest, n, w). r\<lparr>rep_system := w, rep_buffer := rest, applied := n\<rparr>)
           (apply_loop L depth calls replica fuel 0 (buffer @ data) (applied r, w)))"

definition replica_receive ::
  "lib \<Rightarrow> nat \<Rightarrow> (nat \<Rightarrow> call) \<Rightarrow> bool \<Rightarrow> nat \<Rightarrow> string \<Rightarrow> Replica \<Rightarrow> Replica run" where
  "replica_receive L depth calls replica fuel data r =
     (if \<not> in_stream r then
        let client_buffer = rep_buffer r @ data
        in case find_crlf client_buffer of
             None \<Rightarrow> Returns (r\<lparr>rep_buffer := client_buffer\<rparr>)
           | Some pos \<Rightarrow>
               if take pos client_buffer = ''+CONTINUE'' then
                 let r = r\<lparr>in_stream := True\<rparr>; remainder = drop (pos + 2) client_buffer
                 in if remainder \<noteq> [] then replica_apply L depth calls replica fuel [] remainder r
                    else Returns (r\<lparr>rep_buffer := []\<rparr>)
               else Returns (r\<lparr>rep_buffer := client_buffer, connected := False\<rparr>)
      else replica_apply L depth calls replica fuel (rep_buffer r) data r)"

text \<open>The inner loop of the worker on the bytes of one connection.\<close>

fun replica_session ::
  "lib \<Rightarrow> nat \<Rightarrow> (nat \<Rightarrow> call) \<Rightarrow> bool \<Rightarrow> nat \<Rightarrow> event list \<Rightarrow> Replica \<Rightarrow> Replica run" where
  "replica_session L depth calls replica fuel [] r = Returns r"
| "replica_session L depth calls replica fuel (ev # evs) r =
     (case ev of
        Stopped \<Rightarrow> Returns (r\<lparr>connected := False\<rparr>)
      | Disconnected \<Rightarrow> Returns (r\<lparr>connected := False\<rparr>)
      | Bytes data \<Rightarrow>
          run_bind (replica_receive L depth calls replica fuel data r) (\<lambda>r.
            if connected r then replica_session L depth calls replica fuel evs r else Returns r))"

text \<open>\<open>inet_pton\<close> for \<open>AF_INET\<close>: four decimal numbers of at most 255, without leading zeros, between dots.\<close>

fun split_on :: "char \<Rightarrow> string \<Rightarrow> string list" where
  "split_on c [] = [[]]"
| "split_on c (x # xs) =
     (if x = c then [] # split_on c xs
      else case split_on c xs of [] \<Rightarrow> [[x]] | part # parts \<Rightarrow> (x # part) # parts)"

definition octet :: "string \<Rightarrow> bool" where
  "octet s \<longleftrightarrow> s \<noteq> [] \<and> list_all is_digit s \<and> length s \<le> 3 \<and> digits_val s \<le> 255 \<and>
     (hd s = CHR ''0'' \<longrightarrow> length s = 1)"

definition inet_pton :: "string \<Rightarrow> bool" where
  "inet_pton host \<longleftrightarrow> (let parts = split_on CHR ''.'' host in length parts = 4 \<and> list_all octet parts)"

text \<open>One round of the worker: the results of \<open>socket\<close> and \<open>connect\<close>, whether the request could be
  written, and what arrived on the connection. The buffer of the round is gone afterwards.\<close>

record attempt =
  socket_fd :: int
  connect_result :: int
  request_written :: bool
  arrived :: "event list"

definition worker_round ::
  "lib \<Rightarrow> nat \<Rightarrow> (nat \<Rightarrow> call) \<Rightarrow> bool \<Rightarrow> nat \<Rightarrow> string \<Rightarrow> nat \<times> System \<Rightarrow> attempt \<Rightarrow> (nat \<times> System) run" where
  "worker_round L depth calls replica fuel host st a =
     (if socket_fd a < 0 then Returns st
      else if \<not> inet_pton host then Returns st
      else if connect_result a < 0 then Returns st
      else
        let (n, w) = st; (psync_cmd, r) = replica_connect n w
        in if \<not> request_written a then Returns st
           else map_run (\<lambda>r. (applied r, rep_system r))
                  (replica_session L depth calls replica fuel (arrived a) r))"

definition run_replica_worker ::
  "lib \<Rightarrow> nat \<Rightarrow> (nat \<Rightarrow> call) \<Rightarrow> bool \<Rightarrow> nat \<Rightarrow> string \<Rightarrow> attempt list \<Rightarrow> nat \<times> System \<Rightarrow> (nat \<times> System) run" where
  "run_replica_worker L depth calls replica fuel host attempts st =
     run_fold (worker_round L depth calls replica fuel host) st attempts"

section \<open>The command line\<close>

definition is_space :: "char \<Rightarrow> bool" where
  "is_space c \<longleftrightarrow> c \<in> {CHR '' '', CHR 0x09, CHR 0x0A, CHR 0x0B, CHR 0x0C, CHR 0x0D}"

text \<open>\<open>std::stoi\<close>: leading white space, an optional sign, digits, anything behind them.\<close>

definition stoi :: "string \<Rightarrow> int run" where
  "stoi s =
     (let t = dropWhile is_space s;
          neg = (t \<noteq> [] \<and> hd t = CHR ''-'');
          u = (if t \<noteq> [] \<and> (hd t = CHR ''-'' \<or> hd t = CHR ''+'') then tl t else t);
          ds = takeWhile is_digit u;
          v = (if neg then - int (digits_val ds) else int (digits_val ds))
      in if ds = [] then Faults Invalid_argument_exn
         else if v < - (2 ^ 31) \<or> int32_max < v then Faults Out_of_range_exn
         else Returns v)"

record settings =
  arg_port :: "16 word"
  arg_replica_host :: string
  arg_replica_port :: "16 word"

definition default_settings :: settings where
  "default_settings = \<lparr>arg_port = 6379, arg_replica_host = [], arg_replica_port = 0\<rparr>"

function parse_args :: "string list \<Rightarrow> settings \<Rightarrow> settings run" where
  "parse_args [] cfg = Returns cfg"
| "parse_args (a # rest) cfg =
     (if a = ''--port'' \<and> 1 \<le> length rest then
        run_bind (stoi (rest ! 0)) (\<lambda>n. parse_args (drop 1 rest) (cfg\<lparr>arg_port := of_int n\<rparr>))
      else if a = ''--replicaof'' \<and> 2 \<le> length rest then
        (let cfg = cfg\<lparr>arg_replica_host := rest ! 0\<rparr>
         in run_bind (stoi (rest ! 1)) (\<lambda>n. parse_args (drop 2 rest) (cfg\<lparr>arg_replica_port := of_int n\<rparr>)))
      else parse_args rest cfg)"
  by pat_completeness auto
termination
  by (relation "measure (\<lambda>(args, cfg). length args)") auto

text \<open>The handler of \<open>SIGINT\<close> and \<open>SIGTERM\<close>, on the server \<open>global_server\<close> points to.\<close>

definition signal_handler :: "Server option \<Rightarrow> Server option \<times> int list" where
  "signal_handler global_server =
     (case global_server of
        None \<Rightarrow> (None, [])
      | Some srv \<Rightarrow> let (srv, closes) = server_stop srv in (Some srv, closes))"

text \<open>\<open>main\<close> up to \<open>start\<close>, on the arguments behind the name of the program.\<close>

definition main_server :: "string list \<Rightarrow> string option \<Rightarrow> Server run" where
  "main_server args existing =
     run_bind (parse_args args default_settings) (\<lambda>cfg.
       server_new (arg_port cfg) (arg_replica_host cfg) (arg_replica_port cfg) existing)"

end
