(* ===== verification/Framing.thy ===== *)
theory Framing
  imports RESP
begin

text \<open>
  Byte streams of frames, and the loop that the server runs over them in four places: parse a value
  at the front of the buffer, handle it, erase it, try again, until what is left is no complete value.

  \<open>wire vs\<close> are the bytes of a sequence of values, \<open>partial d t\<close> says that \<open>t\<close> is the beginning of a
  further one. \<open>frame_loop\<close> is the contract of the inner loop (how it treats a recognised and an
  unrecognised buffer) and \<open>chunk_loop\<close> that of a loop around it that receives the bytes piecewise.
  Proved once, for any such loop: it handles exactly the values of the stream, in order, whatever
  the pieces were. The contracts are interpreted on the loops of \<open>Server\<close>.
\<close>

section \<open>Streams of frames\<close>

definition frame_ok :: "nat \<Rightarrow> RESPValue \<Rightarrow> bool" where
  "frame_ok d v \<longleftrightarrow> resp_wf v \<and> resp_depth v \<le> d"

definition wire :: "RESPValue list \<Rightarrow> string" where
  "wire vs = concat (map serialize vs)"

definition partial :: "nat \<Rightarrow> string \<Rightarrow> bool" where
  "partial d t \<longleftrightarrow> (\<exists>v u. frame_ok d v \<and> fits (serialize v) \<and> u \<noteq> [] \<and> serialize v = t @ u)"

lemma wire_simps [simp]:
  "wire [] = []" "wire (v # vs) = serialize v @ wire vs" "wire (vs @ us) = wire vs @ wire us"
  by (simp_all add: wire_def)

lemma parse_frame:
  assumes "frame_ok d v" and "fits (serialize v @ rest)"
  shows "parse d (serialize v @ rest) c = Returns (Some v, length (serialize v))"
  using parse_internal_serialize [of v d _ "[]" rest] assms by (simp add: parse_Some_iff frame_ok_def)

lemma parse_partial:
  assumes "partial d t"
  shows "parse d t c = Returns (None, c)"
proof -
  obtain v u where v: "frame_ok d v" "fits (serialize v)" "u \<noteq> []" "serialize v = t @ u"
    using assms by (auto simp: partial_def)
  have "fits t" by (rule fits_mono [OF v(2)]) (simp add: v(4))
  then show ?thesis
    using parse_internal_prefix [of v d "length t" _ "[]"] v by (simp add: parse_None_iff frame_ok_def)
qed

lemma partial_prefix: "partial d (s @ t) \<Longrightarrow> partial d s"
  by (fastforce simp: partial_def)

lemma partial_Nil: "0 < d \<Longrightarrow> partial d []"
  unfolding partial_def
  by (rule exI [of _ create_null]) (auto simp: frame_ok_def create_null_def fits_def vector_max_size_def int64_defs)

text \<open>A prefix of a stream consists of some of its values and the beginning of the next.\<close>

lemma stream_prefix:
  assumes "xs @ ys = wire vs @ t" and "\<forall>v\<in>set vs. frame_ok d v" and "fits (wire vs @ t)" and "partial d t"
  obtains us ws p where "vs = us @ ws" "xs = wire us @ p" "p @ ys = wire ws @ t" "partial d p"
  using assms
proof (induction vs arbitrary: xs thesis)
  case Nil
  then have "partial d xs" using partial_prefix [of d xs ys] by simp
  then show ?case using Nil.prems(1) [of "[]" "[]" xs] Nil.prems(2) by simp
next
  case (Cons v vs)
  have "xs @ ys = serialize v @ (wire vs @ t)" using Cons.prems(2) by simp
  then obtain u where "xs = serialize v @ u \<and> u @ ys = wire vs @ t \<or>
      xs @ u = serialize v \<and> ys = u @ wire vs @ t"
    by (auto simp only: append_eq_append_conv2)
  then consider xs' where "xs = serialize v @ xs'" "xs' @ ys = wire vs @ t"
    | u where "xs @ u = serialize v" "u \<noteq> []"
    by (cases "u = []") auto
  then show ?case
  proof cases
    case (1 xs')
    show ?thesis
    proof (rule Cons.IH [OF _ 1(2)])
      show "fits (wire vs @ t)" by (rule fits_mono [OF Cons.prems(4)]) simp
      fix us ws p
      assume "vs = us @ ws" "xs' = wire us @ p" "p @ ys = wire ws @ t" "partial d p"
      then show thesis using Cons.prems(1) [of "v # us" ws p] 1(1) by simp
    qed (use Cons.prems in auto)
  next
    case (2 u)
    have "fits (serialize v)" by (rule fits_mono [OF Cons.prems(4)]) simp
    moreover have "serialize v = xs @ u" using 2(1) by simp
    moreover have "frame_ok d v" using Cons.prems(3) by simp
    ultimately have "partial d xs" unfolding partial_def using 2(2) by blast
    then show ?thesis using Cons.prems(1) [of "[]" "v # vs" xs] Cons.prems(2) by simp
  qed
qed

section \<open>Handling the values of a stream\<close>

text \<open>Handling values one by one while the handler stays active; the values left over are returned.\<close>

fun run_while ::
  "('s \<Rightarrow> bool) \<Rightarrow> ('s \<Rightarrow> RESPValue \<Rightarrow> 's run) \<Rightarrow> 's \<Rightarrow> RESPValue list \<Rightarrow> ('s \<times> RESPValue list) run" where
  "run_while active step s [] = Returns (s, [])"
| "run_while active step s (v # vs) =
     run_bind (step s v) (\<lambda>s'. if active s' then run_while active step s' vs else Returns (s', vs))"

lemma run_while_active:
  "run_while active step s vs = Returns (s', rest) \<Longrightarrow> active s' \<Longrightarrow> rest = []"
  by (induction vs arbitrary: s) (auto simp: run_bind_eq_Returns split: if_splits)

lemma run_while_append:
  "active s \<Longrightarrow> run_while active step s (us @ vs) =
     run_bind (run_while active step s us)
       (\<lambda>(s', rest). if active s' then run_while active step s' vs else Returns (s', rest @ vs))"
proof (induction us arbitrary: s)
  case (Cons u us)
  show ?case
  proof (cases "step s u")
    case (Returns s1)
    then show ?thesis using Cons.IH [of s1] by simp
  qed simp_all
qed simp

lemma run_while_always:
  "(\<And>s. active s) \<Longrightarrow> run_while active step s vs = map_run (\<lambda>s'. (s', [])) (run_fold step s vs)"
proof (induction vs arbitrary: s)
  case (Cons v vs)
  then show ?case by (cases "step s v") simp_all
qed simp

locale frame_loop =
  fixes depth :: nat
    and step :: "'s \<Rightarrow> RESPValue \<Rightarrow> 's run"
    and active :: "'s \<Rightarrow> bool"
    and loop :: "nat \<Rightarrow> nat \<Rightarrow> string \<Rightarrow> 's \<Rightarrow> (string \<times> 's) run"
  assumes loop_frame: "active s \<Longrightarrow> parse depth buffer c = Returns (Some v, n) \<Longrightarrow>
      \<exists>c'. loop (Suc fuel) c buffer s =
        run_bind (step s v) (\<lambda>s'. if active s' then loop fuel c' (drop n buffer) s'
                                    else Returns (drop n buffer, s'))"
    and loop_rest: "active s \<Longrightarrow> parse depth buffer c = Returns (None, n) \<Longrightarrow>
      loop (Suc fuel) c buffer s = Returns (buffer, s)"
begin

lemma loop_partial:
  assumes "active s" and "partial depth t" and "0 < fuel"
  shows "loop fuel c t s = Returns (t, s)"
  using loop_rest [OF assms(1) parse_partial [OF assms(2)]] assms(3) by (cases fuel) auto

text \<open>Any fuel above the number of values is enough.\<close>

lemma loop_frames:
  assumes "active s" and "\<forall>v\<in>set vs. frame_ok depth v" and "fits (wire vs @ t)" and "partial depth t"
    and "length vs < fuel"
  shows "loop fuel c (wire vs @ t) s =
     run_bind (run_while active step s vs) (\<lambda>(s', rest). Returns (wire rest @ t, s'))"
  using assms
proof (induction vs arbitrary: s fuel c)
  case Nil
  then show ?case using loop_partial [of s t fuel c] by simp
next
  case (Cons v vs)
  obtain fuel' where f: "fuel = Suc fuel'" using Cons.prems(5) by (cases fuel) auto
  let ?buffer = "serialize v @ (wire vs @ t)" and ?n = "length (serialize v)"
  have "parse depth ?buffer c = Returns (Some v, ?n)" using parse_frame Cons.prems(2,3) by simp
  from loop_frame [OF Cons.prems(1) this, of fuel'] obtain c' where
    "loop (Suc fuel') c ?buffer s = run_bind (step s v)
      (\<lambda>s'. if active s' then loop fuel' c' (drop ?n ?buffer) s' else Returns (drop ?n ?buffer, s'))" ..
  moreover have "drop ?n ?buffer = wire vs @ t" by simp
  ultimately have l: "loop fuel c (wire (v # vs) @ t) s = run_bind (step s v)
      (\<lambda>s'. if active s' then loop fuel' c' (wire vs @ t) s' else Returns (wire vs @ t, s'))"
    by (simp only: f wire_simps append_assoc)
  have fit: "fits (wire vs @ t)" by (rule fits_mono [OF Cons.prems(3)]) simp
  show ?case
  proof (cases "step s v")
    case (Returns s')
    show ?thesis
    proof (cases "active s'")
      case True
      have "loop fuel' c' (wire vs @ t) s' =
          run_bind (run_while active step s' vs) (\<lambda>(s', rest). Returns (wire rest @ t, s'))"
        by (rule Cons.IH [OF True _ fit Cons.prems(4)]) (use Cons.prems(2,5) f in auto)
      then show ?thesis unfolding l using Returns True by simp
    next
      case False
      then show ?thesis unfolding l using Returns by simp
    qed
  qed (use l in simp_all)
qed

end

locale chunk_loop = frame_loop +
  fixes limit :: nat
    and feed :: "string list \<Rightarrow> string \<Rightarrow> 's \<Rightarrow> (string \<times> 's) run"
  assumes feed_Nil: "feed [] buffer s = Returns (buffer, s)"
    and feed_Cons: "active s \<Longrightarrow> feed (d # ds) buffer s =
      run_bind (loop limit 0 (buffer @ d) s)
        (\<lambda>(buffer', s'). if active s' then feed ds buffer' s' else Returns (buffer', s'))"
begin

text \<open>However the stream was cut into pieces, the values are handled in order, each once.\<close>

lemma feed_from:
  assumes "active s" and "partial depth b" and "b @ concat ds = wire vs @ t"
    and "\<forall>v\<in>set vs. frame_ok depth v" and "fits (wire vs @ t)" and "partial depth t" and "length vs < limit"
  shows "run_bind (feed ds b s) (\<lambda>(b', s'). Returns (s', active s' \<longrightarrow> b' = t)) =
     run_bind (run_while active step s vs) (\<lambda>(s', rest). Returns (s', True))"
  using assms
proof (induction ds arbitrary: b vs s)
  case Nil
  show ?case
  proof (cases vs)
    case Nil
    then show ?thesis using Nil.prems by (simp add: feed_Nil)
  next
    case (Cons v us)
    then have "parse depth b 0 = Returns (Some v, length (serialize v))"
      using parse_frame [of depth v "wire us @ t" 0] Nil.prems by simp
    then show ?thesis using parse_partial [OF Nil.prems(2), of 0] by simp
  qed
next
  case (Cons d ds)
  have "(b @ d) @ concat ds = wire vs @ t" using Cons.prems(3) by simp
  then obtain us ws p where sp: "vs = us @ ws" "b @ d = wire us @ p" "p @ concat ds = wire ws @ t" "partial depth p"
    by (rule stream_prefix [OF _ Cons.prems(4-6)])
  have fits: "fits (wire us @ p)" "fits (wire ws @ t)"
    using Cons.prems(5) sp(1) arg_cong [OF sp(3), of length] by (auto simp: fits_def)
  have lp: "loop limit 0 (b @ d) s =
      run_bind (run_while active step s us) (\<lambda>(s', rest). Returns (wire rest @ p, s'))"
    unfolding sp(2) by (rule loop_frames) (use Cons.prems sp fits in auto)
  show ?case
  proof (cases "run_while active step s us")
    case (Returns x)
    obtain s1 rest where x: "x = (s1, rest)" by fastforce
    show ?thesis
    proof (cases "active s1")
      case True
      have "rest = []" using run_while_active [of active step s us s1 rest] Returns x True by simp
      then have "feed (d # ds) b s = feed ds p s1"
        using lp Returns x True by (simp add: feed_Cons [OF Cons.prems(1)])
      moreover have "run_while active step s vs = run_while active step s1 ws"
        using Returns x True sp(1) by (simp add: run_while_append [where active = active, OF Cons.prems(1)])
      moreover have "\<forall>v\<in>set ws. frame_ok depth v" and "length ws < limit"
        using Cons.prems(4,7) sp(1) by auto
      ultimately show ?thesis
        using Cons.IH [OF True sp(4,3) _ fits(2) Cons.prems(6)] by simp
    next
      case False
      then show ?thesis
        using lp Returns x sp(1)
        by (simp add: feed_Cons [OF Cons.prems(1)] run_while_append [where active = active, OF Cons.prems(1)])
    qed
  qed (simp_all add: lp feed_Cons [OF Cons.prems(1)] sp(1) run_while_append [where active = active, OF Cons.prems(1)])
qed

lemma feed_stream:
  assumes "active s" and "concat ds = wire vs @ t" and "\<forall>v\<in>set vs. frame_ok depth v"
    and "fits (wire vs @ t)" and "partial depth t" and "length vs < limit"
  shows "map_run snd (feed ds [] s) = map_run fst (run_while active step s vs)"
proof -
  have "partial depth []" using partial_prefix [of depth "[]" t] assms(5) by simp
  from feed_from [OF assms(1) this _ assms(3-6), of ds] assms(2)
  have "run_bind (feed ds [] s) (\<lambda>(b', s'). Returns (s', active s' \<longrightarrow> b' = t)) =
     run_bind (run_while active step s vs) (\<lambda>(s', rest). Returns (s', True))" by simp
  then show ?thesis
    by (cases "feed ds [] s"; cases "run_while active step s vs") (auto split: prod.splits)
qed

lemma feed_all:
  assumes "\<And>s. active s" and "partial depth b" and "b @ concat ds = wire vs @ t"
    and "\<forall>v\<in>set vs. frame_ok depth v" and "fits (wire vs @ t)" and "partial depth t" and "length vs < limit"
  shows "feed ds b s = map_run (\<lambda>s'. (t, s')) (run_fold step s vs)"
proof -
  have "run_bind (feed ds b s) (\<lambda>(b', s'). Returns (s', active s' \<longrightarrow> b' = t)) =
     run_bind (run_while active step s vs) (\<lambda>(s', rest). Returns (s', True))"
    by (rule feed_from [OF assms(1-7)])
  then show ?thesis
    by (cases "feed ds b s"; cases "run_fold step s vs")
      (auto simp: run_while_always [where active = active, OF assms(1)] assms(1) split: prod.splits)
qed

end

end
