(* ===== verification/Engine_Invariant.thy ===== *)
theory Engine_Invariant
  imports Engine
begin

text \<open>
  The well-formedness of the engine and its memory ledger.

  \<open>engine_invar\<close>: there is a shard, no table holds a key twice, and every key sits in the shard its
  hash selects. \<open>engine_lookup\<close> is the resulting map from keys to entries. \<open>engine_bytes\<close> adds up what the
  entries present are charged at, and \<open>drift\<close> is the difference between the counter
  \<open>total_memory_usage\<close> and that sum. The lemmas say what each way of writing to the engine does to
  the three, so that the operations follow by composition.
\<close>

section \<open>Definitions\<close>

definition engine_lookup :: "lib \<Rightarrow> StorageEngine \<Rightarrow> string \<Rightarrow> DictEntry option" where
  "engine_lookup L e key = umap_find (shard_of L e key) key"

definition shard_invar :: "lib \<Rightarrow> nat \<Rightarrow> nat \<Rightarrow> dict \<Rightarrow> bool" where
  "shard_invar L n i d \<longleftrightarrow>
     umap_invar d \<and> list_all (\<lambda>x. unat (hash_of L (fst x)) mod n = i) (nodes d)"

definition engine_invar :: "lib \<Rightarrow> StorageEngine \<Rightarrow> bool" where
  "engine_invar L e \<longleftrightarrow>
     shards e \<noteq> [] \<and>
     list_all (\<lambda>i. shard_invar L (length (shards e)) i (shards e ! i)) [0..<length (shards e)]"

definition node_cost :: "string \<times> DictEntry \<Rightarrow> u64" where
  "node_cost x = entry_cost (fst x) (entry_value (snd x))"

definition dict_bytes :: "dict \<Rightarrow> u64" where
  "dict_bytes d = sum_list (map node_cost (nodes d))"

definition engine_bytes :: "StorageEngine \<Rightarrow> u64" where
  "engine_bytes e = sum_list (map dict_bytes (shards e))"

definition drift :: "StorageEngine \<Rightarrow> u64" where
  "drift e = total_memory_usage e - engine_bytes e"

section \<open>Frames\<close>

text \<open>The counters do not touch the tables, the limit or the memory counter.\<close>

lemma frame_counts [frame_simps]:
  "shards (count_hit e) = shards e" "shards (count_miss e) = shards e"
  "shards (count_expired e) = shards e" "shards (charge n o' e) = shards e"
  "shards (set_max_memory b e) = shards e" "shards (engine_shutdown e) = shards e"
  "total_memory_usage (count_hit e) = total_memory_usage e"
  "total_memory_usage (count_miss e) = total_memory_usage e"
  "total_memory_usage (count_expired e) = total_memory_usage e"
  "total_memory_usage (charge n o' e) = total_memory_usage e + (n - o')"
  "total_memory_usage (set_max_memory b e) = total_memory_usage e"
  "total_memory_usage (engine_shutdown e) = total_memory_usage e"
  "max_memory_bytes (count_hit e) = max_memory_bytes e"
  "max_memory_bytes (count_miss e) = max_memory_bytes e"
  "max_memory_bytes (count_expired e) = max_memory_bytes e"
  "max_memory_bytes (charge n o' e) = max_memory_bytes e"
  by (simp_all add: count_hit_def count_miss_def count_expired_def charge_def set_max_memory_def
      engine_shutdown_def)

lemma frame_writes [frame_simps]:
  "length (shards (erase_entry L k ent e)) = length (shards e)"
  "length (shards (update_entry L k f e)) = length (shards e)"
  "length (shards (insert_entry L k ent e)) = length (shards e)"
  "total_memory_usage (erase_entry L k ent e) = total_memory_usage e - entry_cost k (entry_value ent)"
  "total_memory_usage (update_entry L k f e) = total_memory_usage e"
  "total_memory_usage (insert_entry L k ent e) = total_memory_usage e"
  "max_memory_bytes (erase_entry L k ent e) = max_memory_bytes e"
  "max_memory_bytes (update_entry L k f e) = max_memory_bytes e"
  "max_memory_bytes (insert_entry L k ent e) = max_memory_bytes e"
  by (simp_all add: erase_entry_def update_entry_def insert_entry_def)

text \<open>Only the tables matter for the lookup, the invariant and the bytes.\<close>

lemma engine_lookup_cong: "shards e = shards e' \<Longrightarrow> engine_lookup L e = engine_lookup L e'"
  by (simp add: engine_lookup_def shard_of_def get_shard_index_def fun_eq_iff)

lemma engine_invar_cong: "shards e = shards e' \<Longrightarrow> engine_invar L e = engine_invar L e'"
  by (simp add: engine_invar_def)

lemma engine_bytes_cong: "shards e = shards e' \<Longrightarrow> engine_bytes e = engine_bytes e'"
  by (simp add: engine_bytes_def)

lemma count_frame [engine_simps]:
  "engine_lookup L (count_hit e) = engine_lookup L e" "engine_lookup L (count_miss e) = engine_lookup L e"
  "engine_lookup L (count_expired e) = engine_lookup L e" "engine_lookup L (charge n o' e) = engine_lookup L e"
  "engine_lookup L (set_max_memory b e) = engine_lookup L e"
  "engine_invar L (count_hit e) = engine_invar L e" "engine_invar L (count_miss e) = engine_invar L e"
  "engine_invar L (count_expired e) = engine_invar L e" "engine_invar L (charge n o' e) = engine_invar L e"
  "engine_invar L (set_max_memory b e) = engine_invar L e"
  "drift (count_hit e) = drift e" "drift (count_miss e) = drift e" "drift (count_expired e) = drift e"
  "drift (charge n o' e) = drift e + (n - o')" "drift (set_max_memory b e) = drift e"
  by (simp_all add: engine_lookup_def shard_of_def get_shard_index_def engine_invar_def drift_def
      engine_bytes_def frame_simps fun_eq_iff)

section \<open>Replacing one shard\<close>

lemma engine_invarD:
  assumes "engine_invar L e"
  shows "shards e \<noteq> []" and "i < length (shards e) \<Longrightarrow> shard_invar L (length (shards e)) i (shards e ! i)"
  using assms by (auto simp: engine_invar_def list_all_iff)

lemma engine_invarI:
  assumes "shards e \<noteq> []"
    and "\<And>i. i < length (shards e) \<Longrightarrow> shard_invar L (length (shards e)) i (shards e ! i)"
  shows "engine_invar L e"
  using assms by (auto simp: engine_invar_def list_all_iff)

lemma get_shard_index_less: "shards e \<noteq> [] \<Longrightarrow> get_shard_index L e key < length (shards e)"
  by (simp add: get_shard_index_def)

lemma shard_of_invar:
  assumes "engine_invar L e"
  shows "shard_invar L (length (shards e)) (get_shard_index L e key) (shard_of L e key)"
  using engine_invarD [OF assms] get_shard_index_less by (simp add: shard_of_def)

lemma shard_of_umap_invar: "engine_invar L e \<Longrightarrow> umap_invar (shard_of L e key)"
  using shard_of_invar by (simp add: shard_invar_def)

lemma engine_invar_put:
  assumes "engine_invar L e" and "i < length (shards e)" and "shard_invar L (length (shards e)) i d"
    and "shards e' = (shards e)[i := d]"
  shows "engine_invar L e'"
proof (rule engine_invarI)
  show "shards e' \<noteq> []" using assms(2,4) by auto
  show "shard_invar L (length (shards e')) j (shards e' ! j)" if "j < length (shards e')" for j
    using that assms engine_invarD(2) [OF assms(1), of j] by (cases "j = i") auto
qed

lemma engine_lookup_put:
  assumes "i < length (shards e)" and "shards e' = (shards e)[i := d]"
  shows "engine_lookup L e' key =
     (if get_shard_index L e key = i then umap_find d key else engine_lookup L e key)"
  using assms by (auto simp: engine_lookup_def shard_of_def get_shard_index_def nth_list_update)

lemma engine_bytes_put:
  assumes "i < length (shards e)" and "shards e' = (shards e)[i := d]"
  shows "engine_bytes e' = engine_bytes e - dict_bytes (shards e ! i) + dict_bytes d"
  using assms by (simp add: engine_bytes_def sum_list_update_group)

text \<open>A shard that lost entries or had them rewritten in place still satisfies its invariant.\<close>

lemma shard_invar_erase: "shard_invar L n i d \<Longrightarrow> shard_invar L n i (umap_erase key d)"
  using um.invar_erase by (auto simp: shard_invar_def list_all_iff nodes_erase)

lemma shard_invar_keys:
  "shard_invar L n i d \<longleftrightarrow>
     distinct (map fst (nodes d)) \<and> (\<forall>k\<in>set (map fst (nodes d)). unat (hash_of L k) mod n = i)"
  by (auto simp: shard_invar_def umap_invar_def list_all_iff)

lemma shard_invar_modify: "shard_invar L n i d \<Longrightarrow> shard_invar L n i (umap_modify key f d)"
  unfolding shard_invar_keys keys_modify .

lemma shard_invar_emplace:
  assumes "shard_invar L n i d" and "umap_find d key = None" and "unat (hash_of L key) mod n = i"
  shows "shard_invar L n i (umap_emplace L key ent d)"
  using assms um.invar_emplace by (auto simp: shard_invar_def list_all_iff set_nodes_emplace)

section \<open>Bytes of a table\<close>

lemma dict_bytes_sum: "dict_bytes d = (\<Sum>x\<in>#mset (nodes d). node_cost x)"
  by (simp add: dict_bytes_def sum_mset_sum_list flip: mset_map)

lemma dict_bytes_erase:
  "umap_invar d \<Longrightarrow> umap_find d key = Some ent \<Longrightarrow>
   dict_bytes (umap_erase key d) = dict_bytes d - entry_cost key (entry_value ent)"
  unfolding dict_bytes_sum by (subst um.sum_erase) (auto simp: node_cost_def)

lemma dict_bytes_modify:
  "umap_invar d \<Longrightarrow> umap_find d key = Some ent \<Longrightarrow>
   dict_bytes (umap_modify key f d) =
     dict_bytes d - entry_cost key (entry_value ent) + entry_cost key (entry_value (f ent))"
  unfolding dict_bytes_sum by (subst um.sum_modify) (auto simp: node_cost_def)

lemma dict_bytes_emplace:
  "dict_bytes (umap_emplace L key ent d) = dict_bytes d + entry_cost key (entry_value ent)"
  unfolding dict_bytes_sum um.sum_emplace by (simp add: node_cost_def)

section \<open>The writes\<close>

lemma erase_entry_props:
  assumes "engine_invar L e" and "engine_lookup L e key = Some ent"
  shows engine_invar_erase_entry: "engine_invar L (erase_entry L key ent e)"
    and engine_lookup_erase_entry: "engine_lookup L (erase_entry L key ent e) = (engine_lookup L e)(key := None)"
    and drift_erase_entry: "drift (erase_entry L key ent e) = drift e"
proof -
  let ?i = "get_shard_index L e key"
  note i = get_shard_index_less [OF engine_invarD(1) [OF assms(1)], of L key]
  have s: "shards (erase_entry L key ent e) = (shards e)[?i := umap_erase key (shard_of L e key)]"
    by (simp add: erase_entry_def)
  note inv = shard_of_umap_invar [OF assms(1), of key]
  show "engine_invar L (erase_entry L key ent e)"
    using engine_invar_put [OF assms(1) i shard_invar_erase [OF shard_of_invar [OF assms(1)]] s] .
  show "engine_lookup L (erase_entry L key ent e) = (engine_lookup L e)(key := None)"
    using engine_lookup_put [OF i s] um.find_erase [OF inv]
    by (auto simp: fun_eq_iff engine_lookup_def shard_of_def)
  show "drift (erase_entry L key ent e) = drift e"
    using engine_bytes_put [OF i s] dict_bytes_erase [OF inv] assms(2)
    by (simp add: drift_def frame_simps engine_lookup_def flip: shard_of_def)
qed

lemma update_entry_props:
  assumes "engine_invar L e" and "engine_lookup L e key = Some ent"
  shows engine_invar_update_entry: "engine_invar L (update_entry L key f e)"
    and engine_lookup_update_entry: "engine_lookup L (update_entry L key f e) = (engine_lookup L e)(key \<mapsto> f ent)"
    and drift_update_entry: "drift (update_entry L key f e) =
      drift e + entry_cost key (entry_value ent) - entry_cost key (entry_value (f ent))"
proof -
  let ?i = "get_shard_index L e key"
  note i = get_shard_index_less [OF engine_invarD(1) [OF assms(1)], of L key]
  have s: "shards (update_entry L key f e) = (shards e)[?i := umap_modify key f (shard_of L e key)]"
    by (simp add: update_entry_def)
  note inv = shard_of_umap_invar [OF assms(1), of key]
  show "engine_invar L (update_entry L key f e)"
    using engine_invar_put [OF assms(1) i shard_invar_modify [OF shard_of_invar [OF assms(1)]] s] .
  show "engine_lookup L (update_entry L key f e) = (engine_lookup L e)(key \<mapsto> f ent)"
    using engine_lookup_put [OF i s] um.find_modify [OF inv, of key f] assms(2)
    by (auto simp: fun_eq_iff engine_lookup_def shard_of_def)
  show "drift (update_entry L key f e) =
      drift e + entry_cost key (entry_value ent) - entry_cost key (entry_value (f ent))"
    using engine_bytes_put [OF i s] dict_bytes_modify [OF inv] assms(2)
    by (simp add: drift_def frame_simps engine_lookup_def flip: shard_of_def)
qed

lemma insert_entry_props:
  assumes "engine_invar L e" and "engine_lookup L e key = None"
  shows engine_invar_insert_entry: "engine_invar L (insert_entry L key ent e)"
    and engine_lookup_insert_entry: "engine_lookup L (insert_entry L key ent e) = (engine_lookup L e)(key \<mapsto> ent)"
    and drift_insert_entry: "drift (insert_entry L key ent e) = drift e - entry_cost key (entry_value ent)"
proof -
  let ?i = "get_shard_index L e key"
  note i = get_shard_index_less [OF engine_invarD(1) [OF assms(1)], of L key]
  have s: "shards (insert_entry L key ent e) = (shards e)[?i := umap_emplace L key ent (shard_of L e key)]"
    by (simp add: insert_entry_def)
  note inv = shard_of_umap_invar [OF assms(1), of key]
  have none: "umap_find (shard_of L e key) key = None"
    using assms(2) by (simp add: engine_lookup_def)
  show "engine_invar L (insert_entry L key ent e)"
    using engine_invar_put [OF assms(1) i shard_invar_emplace [OF shard_of_invar [OF assms(1)] none] s]
    by (simp add: get_shard_index_def)
  show "engine_lookup L (insert_entry L key ent e) = (engine_lookup L e)(key \<mapsto> ent)"
    using engine_lookup_put [OF i s] um.find_emplace [OF inv none, of L ent]
    by (auto simp: fun_eq_iff engine_lookup_def shard_of_def)
  show "drift (insert_entry L key ent e) = drift e - entry_cost key (entry_value ent)"
    using engine_bytes_put [OF i s] dict_bytes_emplace [of L key ent "shard_of L e key"]
    by (simp add: drift_def frame_simps flip: shard_of_def)
qed

lemmas write_props = erase_entry_props update_entry_props insert_entry_props

section \<open>Eviction\<close>

text \<open>The loop removes the nodes of a set \<open>V\<close> of keys and nothing else, counts them, and moves the
  memory counter and the bytes freed by exactly what these nodes were charged at. It stops short of
  the bytes needed only when the table is empty (or has no bucket to sample from).\<close>

definition evicts :: "dict \<Rightarrow> string set \<Rightarrow> dict \<Rightarrow> bool" where
  "evicts d V d' \<longleftrightarrow>
     V \<subseteq> fst ` set (nodes d) \<and> nodes d' = filter (\<lambda>x. fst x \<notin> V) (nodes d) \<and>
     bucket_count d' = bucket_count d"

lemma evicts_refl: "evicts d {} d"
  by (simp add: evicts_def)

lemma evicts_step:
  assumes "(k, ent) \<in> set (nodes d)" and "evicts (umap_erase k d) V d'"
  shows "evicts d (insert k V) d' \<and> k \<notin> V"
  using assms by (force simp: evicts_def umap_simps)

lemma evicts_find: "evicts d V d' \<Longrightarrow> umap_find d' k = (if k \<in> V then None else umap_find d k)"
proof -
  have "map_of (filter (\<lambda>x. fst x \<notin> V) xs) k = (if k \<in> V then None else map_of xs k)" for xs :: "(string \<times> DictEntry) list"
    by (induction xs) auto
  then show "evicts d V d' \<Longrightarrow> ?thesis" by (simp add: evicts_def umap_find_def)
qed

lemma evicts_shard_invar: "evicts d V d' \<Longrightarrow> shard_invar L n i d \<Longrightarrow> shard_invar L n i d'"
  by (auto simp: evicts_def shard_invar_keys distinct_map_filter)

lemma evicts_finite: "evicts d V d' \<Longrightarrow> finite V"
  by (auto simp: evicts_def intro: finite_subset)

lemma evict_loop_props:
  assumes "umap_invar d" and "evict_loop L dr i needed freed d mem ev = (freed', d', mem', ev')"
  shows "\<exists>V. evicts d V d' \<and> ev' = ev + of_nat (card V) \<and>
     mem' - dict_bytes d' = mem - dict_bytes d \<and> freed' = freed + (dict_bytes d - dict_bytes d') \<and>
     (bucket_count d = 0 \<or> needed \<le> freed' \<or> nodes d' = [])"
  using assms
proof (induction L dr i needed freed d mem ev rule: evict_loop.induct)
  case (1 L dr i needed freed d mem ev)
  note unfold = evict_loop.simps [of L dr i needed freed d mem ev]
  show ?case
  proof (cases "freed < needed \<and> nodes d \<noteq> [] \<and> bucket_count d \<noteq> 0")
    case False
    then show ?thesis
      using "1.prems"(2) by (auto simp: unfold intro!: exI [of _ "{}"] evicts_refl)
  next
    case True
    obtain k ent where v: "choose_victim L dr i d = (k, ent)" by fastforce
    let ?c = "entry_cost k (entry_value ent)"
    have kin: "(k, ent) \<in> set (nodes d)" using choose_victim_in [of d L dr i] True v by simp
    have inv: "umap_invar (umap_erase k d)" using um.invar_erase "1.prems"(1) by blast
    have bytes: "dict_bytes (umap_erase k d) = dict_bytes d - ?c"
      using dict_bytes_erase [OF "1.prems"(1)] umap_find_iff [OF "1.prems"(1)] kin by simp
    have "evict_loop L dr (i + 5) needed (freed + ?c) (umap_erase k d) (mem - ?c) (ev + 1) = (freed', d', mem', ev')"
      using "1.prems"(2) True v by (simp add: unfold Let_def)
    from "1.IH" [OF True v [symmetric] refl refl inv this]
    obtain V where V: "evicts (umap_erase k d) V d'" "ev' = ev + 1 + of_nat (card V)"
      and rest: "mem' - dict_bytes d' = mem - ?c - dict_bytes (umap_erase k d)"
        "freed' = freed + ?c + (dict_bytes (umap_erase k d) - dict_bytes d')"
        "bucket_count (umap_erase k d) = 0 \<or> needed \<le> freed' \<or> nodes d' = []"
      by blast
    have "evicts d (insert k V) d'" and "k \<notin> V" using evicts_step [OF kin V(1)] by auto
    moreover have "card (insert k V) = Suc (card V)"
      using \<open>k \<notin> V\<close> evicts_finite [OF V(1)] by simp
    ultimately show ?thesis
      using V(2) rest bytes by (intro exI [of _ "insert k V"]) (simp add: umap_simps algebra_simps)
  qed
qed

text \<open>The same on the engine: \<open>e'\<close> is \<open>e\<close> with the keys of \<open>V\<close>, all of the one shard, evicted.\<close>

definition evicted_from :: "lib \<Rightarrow> nat \<Rightarrow> string set \<Rightarrow> StorageEngine \<Rightarrow> StorageEngine \<Rightarrow> bool" where
  "evicted_from L idx V e e' \<longleftrightarrow>
     engine_lookup L e' = (\<lambda>k. if k \<in> V then None else engine_lookup L e k) \<and>
     (\<forall>k\<in>V. engine_lookup L e k \<noteq> None \<and> get_shard_index L e k = idx) \<and>
     evicted_keys e' = evicted_keys e + of_nat (card V) \<and>
     length (shards e') = length (shards e) \<and> max_memory_bytes e' = max_memory_bytes e \<and>
     drift e' = drift e"

lemma evicted_from_refl: "evicted_from L idx {} e e"
  by (simp add: evicted_from_def)

lemma evict_from_shard_props:
  assumes "engine_invar L e" and "idx < length (shards e)"
    and "evict_from_shard L tk idx needed e = (freed, e')"
  shows "engine_invar L e'" and "\<exists>V. evicted_from L idx V e e'"
    and "bucket_count (shards e ! idx) = 0 \<or> needed \<le> freed \<or> nodes (shards e' ! idx) = []"
    and "freed = dict_bytes (shards e ! idx) - dict_bytes (shards e' ! idx)"
proof -
  let ?d = "shards e ! idx"
  obtain d' mem ev where r: "evict_loop L (draw tk) 0 needed 0 ?d (total_memory_usage e) (evicted_keys e) =
      (freed, d', mem, ev)"
    using assms(3) by (cases "evict_loop L (draw tk) 0 needed 0 ?d (total_memory_usage e) (evicted_keys e)")
      (auto simp: evict_from_shard_def)
  then have e': "e' = e\<lparr>shards := (shards e)[idx := d'], total_memory_usage := mem, evicted_keys := ev\<rparr>"
    using assms(3) by (simp add: evict_from_shard_def)
  then have s: "shards e' = (shards e)[idx := d']" by simp
  note si = engine_invarD(2) [OF assms(1,2)]
  then have "umap_invar ?d" by (simp add: shard_invar_def)
  from evict_loop_props [OF this r] obtain V where V: "evicts ?d V d'" "ev = evicted_keys e + of_nat (card V)"
    "mem - dict_bytes d' = total_memory_usage e - dict_bytes ?d" "freed = dict_bytes ?d - dict_bytes d'"
    "bucket_count ?d = 0 \<or> needed \<le> freed \<or> nodes d' = []" by auto
  show "engine_invar L e'" by (rule engine_invar_put [OF assms(1,2) evicts_shard_invar [OF V(1) si] s])
  have route: "get_shard_index L e k = idx \<and> engine_lookup L e k \<noteq> None" if "k \<in> V" for k
  proof -
    have "k \<in> fst ` set (nodes ?d)" using that V(1) by (auto simp: evicts_def)
    moreover from this have "get_shard_index L e k = idx"
      using si by (auto simp: shard_invar_def list_all_iff get_shard_index_def)
    ultimately show ?thesis
      by (auto simp: engine_lookup_def shard_of_def umap_find_None_iff image_iff)
  qed
  have "engine_lookup L e' = (\<lambda>k. if k \<in> V then None else engine_lookup L e k)"
    using engine_lookup_put [OF assms(2) s, of L] evicts_find [OF V(1)] route
    by (auto simp: fun_eq_iff engine_lookup_def shard_of_def)
  moreover have "mem = total_memory_usage e - dict_bytes ?d + dict_bytes d'"
    using V(3) by (metis diff_add_cancel)
  then have "drift e' = drift e"
    unfolding drift_def engine_bytes_put [OF assms(2) s] using e' by simp
  ultimately show "\<exists>V. evicted_from L idx V e e'"
    using route V(2) e' by (intro exI [of _ V]) (simp add: evicted_from_def)
  show "bucket_count (shards e ! idx) = 0 \<or> needed \<le> freed \<or> nodes (shards e' ! idx) = []"
    and "freed = dict_bytes (shards e ! idx) - dict_bytes (shards e' ! idx)"
    using V(4,5) s assms(2) by auto
qed

lemma make_room_props:
  assumes "engine_invar L e" and "idx < length (shards e)"
    and "make_room L tk idx new_cost old_cost e = (room, e')"
  shows "engine_invar L e'" and "\<exists>V. evicted_from L idx V e e'"
    and "room \<or> bucket_count (shards e ! idx) = 0 \<or> nodes (shards e' ! idx) = []"
proof -
  let ?needed = "total_memory_usage e + new_cost - (max_memory_bytes e + old_cost)"
  consider "room" "e' = e"
    | freed where "evict_from_shard L tk idx ?needed e = (freed, e')" "room \<longleftrightarrow> \<not> freed < ?needed"
    using assms(3) by (auto simp: make_room_def Let_def split: if_splits prod.splits)
  then have "engine_invar L e' \<and> (\<exists>V. evicted_from L idx V e e') \<and>
    (room \<or> bucket_count (shards e ! idx) = 0 \<or> nodes (shards e' ! idx) = [])"
  proof cases
    case 1
    then show ?thesis using assms(1) evicted_from_refl by blast
  next
    case (2 freed)
    then show ?thesis using evict_from_shard_props [OF assms(1,2) 2(1)] by (auto simp: not_less)
  qed
  then show "engine_invar L e'" and "\<exists>V. evicted_from L idx V e e'"
    and "room \<or> bucket_count (shards e ! idx) = 0 \<or> nodes (shards e' ! idx) = []"
    by blast+
qed

lemma make_room_unlimited:
  "max_memory_bytes e = 0 \<Longrightarrow> make_room L tk idx new_cost old_cost e = (True, e)"
  by (simp add: make_room_def)

section \<open>Storing a value\<close>

lemma put_entry_props:
  fixes ent0 f key L e
  assumes "engine_invar L e"
  defines "new \<equiv> (case engine_lookup L e key of None \<Rightarrow> ent0 | Some ent \<Rightarrow> f ent)"
  shows engine_invar_put_entry: "engine_invar L (put_entry L key ent0 f e)"
    and engine_lookup_put_entry: "engine_lookup L (put_entry L key ent0 f e) = (engine_lookup L e)(key \<mapsto> new)"
    and drift_put_entry: "drift (put_entry L key ent0 f e) =
      drift e + old_cost_of key (engine_lookup L e key) - entry_cost key (entry_value new)"
    and frame_put_entry: "length (shards (put_entry L key ent0 f e)) = length (shards e)"
      "max_memory_bytes (put_entry L key ent0 f e) = max_memory_bytes e"
      "evicted_keys (put_entry L key ent0 f e) = evicted_keys e"
  using insert_entry_props [OF assms(1), of key ent0] update_entry_props [OF assms(1), of key _ f]
  by (auto simp: put_entry_def new_def old_cost_of_def frame_simps insert_entry_def update_entry_def
      split: option.splits simp flip: engine_lookup_def)

text \<open>The entry that \<open>set\<close> leaves behind, given what it finds after making room.\<close>

definition set_entry :: "u64 \<Rightarrow> string \<Rightarrow> DictEntry option \<Rightarrow> DictEntry" where
  "set_entry now v it =
     \<lparr>entry_value = (case it of None \<Rightarrow> fresh v | Some ent \<Rightarrow> copy_assign (entry_value ent) v),
      expire_at_ms = 0, last_access_ms = now\<rparr>"

lemma chars_set_entry [simp]: "chars (entry_value (set_entry now v it)) = v"
  by (simp add: set_entry_def fresh_def copy_assign_def split: option.split)

lemma expire_set_entry [simp]: "expire_at_ms (set_entry now v it) = 0"
  by (simp add: set_entry_def)

text \<open>A completed write: room was made by evicting \<open>V\<close>, the counter was charged and \<open>new\<close> stored.\<close>

definition stores :: "lib \<Rightarrow> string \<Rightarrow> string \<Rightarrow> DictEntry \<Rightarrow> string set \<Rightarrow> StorageEngine \<Rightarrow> StorageEngine \<Rightarrow> bool" where
  "stores L key v new V e e' \<longleftrightarrow>
     engine_lookup L e' = (\<lambda>k. if k \<in> V then None else engine_lookup L e k)(key \<mapsto> new) \<and>
     drift e' = drift e + (entry_cost key (fresh v) - entry_cost key (entry_value new)) -
       (if key \<in> V then old_cost_of key (engine_lookup L e key) else 0)"

lemma charge_put_props:
  assumes "engine_invar L e1" and "evicted_from L idx V e e1"
    and "e' = put_entry L key ent0 f (charge (entry_cost key (fresh v)) (old_cost_of key (engine_lookup L e key)) e1)"
    and "new = (case engine_lookup L e1 key of None \<Rightarrow> ent0 | Some ent \<Rightarrow> f ent)"
  shows "engine_invar L e'" and "stores L key v new V e e'"
    and "length (shards e') = length (shards e)" and "max_memory_bytes e' = max_memory_bytes e"
    and "evicted_keys e' = evicted_keys e + of_nat (card V)"
proof -
  let ?e2 = "charge (entry_cost key (fresh v)) (old_cost_of key (engine_lookup L e key)) e1"
  have inv: "engine_invar L ?e2" using assms(1) by (simp add: engine_simps)
  note p = put_entry_props [OF inv, of key ent0 f]
  show "engine_invar L e'" using p(1) assms(3) by simp
  show "length (shards e') = length (shards e)" and "max_memory_bytes e' = max_memory_bytes e"
    and "evicted_keys e' = evicted_keys e + of_nat (card V)"
    using p(4-6) assms(2,3) by (auto simp: evicted_from_def frame_simps charge_def)
  have look: "engine_lookup L e1 = (\<lambda>k. if k \<in> V then None else engine_lookup L e k)"
    and "drift e1 = drift e" using assms(2) by (auto simp: evicted_from_def)
  then show "stores L key v new V e e'"
    using p(2,3) assms(3,4) by (auto simp: stores_def engine_simps old_cost_of_def)
qed

lemma storage_set_props:
  assumes inv: "engine_invar L e" and run: "storage_set L tk key v e = (ok, e')"
  obtains V where "engine_invar L e'" "length (shards e') = length (shards e)"
    "max_memory_bytes e' = max_memory_bytes e" "evicted_keys e' = evicted_keys e + of_nat (card V)"
    "\<forall>k\<in>V. engine_lookup L e k \<noteq> None \<and> get_shard_index L e k = get_shard_index L e key"
    "ok \<Longrightarrow> stores L key v
       (set_entry (now_ms tk) v (if key \<in> V then None else engine_lookup L e key)) V e e'"
    "\<not> ok \<Longrightarrow> evicted_from L (get_shard_index L e key) V e e' \<and>
       (bucket_count (shard_of L e key) = 0 \<or> nodes (shard_of L e' key) = [])"
proof -
  let ?i = "get_shard_index L e key" and ?new = "entry_cost key (fresh v)"
  let ?old = "old_cost_of key (engine_lookup L e key)"
  have i: "?i < length (shards e)" using get_shard_index_less engine_invarD(1) [OF inv] by blast
  obtain room e1 where mr: "make_room L tk ?i ?new ?old e = (room, e1)" by fastforce
  note m = make_room_props [OF inv i mr]
  then obtain V where V: "evicted_from L ?i V e e1" by blast
  have same: "get_shard_index L e1 key = ?i"
    using V by (simp add: evicted_from_def get_shard_index_def)
  show thesis
  proof (cases room)
    case False
    then have "\<not> ok" and "e' = e1"
      using run mr by (auto simp: storage_set_def Let_def simp flip: engine_lookup_def)
    then show thesis
      using that [of V] V m False same by (auto simp: evicted_from_def shard_of_def)
  next
    case True
    have ok: ok and e': "e' = put_entry L key (set_entry (now_ms tk) v None)
        (\<lambda>ent. set_entry (now_ms tk) v (Some ent)) (charge ?new ?old e1)"
      using run mr True by (auto simp: storage_set_def Let_def set_entry_def simp flip: engine_lookup_def)
    have "(case engine_lookup L e1 key of None \<Rightarrow> set_entry (now_ms tk) v None
        | Some ent \<Rightarrow> set_entry (now_ms tk) v (Some ent)) =
        set_entry (now_ms tk) v (if key \<in> V then None else engine_lookup L e key)"
      using V by (auto simp: evicted_from_def split: option.splits)
    from charge_put_props [OF m(1) V e' this [symmetric]] ok V show thesis
      using that [of V] by (auto simp: evicted_from_def)
  qed
qed

text \<open>The entry that a counter step leaves behind, and the step itself.\<close>

definition number_entry :: "u64 \<Rightarrow> u64 \<Rightarrow> string \<Rightarrow> DictEntry option \<Rightarrow> DictEntry" where
  "number_entry now t v it =
     \<lparr>entry_value = (case it of None \<Rightarrow> fresh v | Some ent \<Rightarrow> move_assign (entry_value ent) v),
      expire_at_ms = t, last_access_ms = now\<rparr>"

lemma chars_number_entry [simp]: "chars (entry_value (number_entry now t v it)) = v"
  by (simp add: number_entry_def fresh_def move_assign_def split: option.split)

lemma expire_number_entry [simp]: "expire_at_ms (number_entry now t v it) = t"
  by (simp add: number_entry_def)

lemma store_number_props:
  assumes inv: "engine_invar L e" and it: "it = engine_lookup L e key"
    and run: "store_number L tk key it t n e = Returns (r, e')"
  obtains V where "engine_invar L e'" "length (shards e') = length (shards e)"
    "max_memory_bytes e' = max_memory_bytes e" "evicted_keys e' = evicted_keys e + of_nat (card V)"
    "\<forall>k\<in>V. engine_lookup L e k \<noteq> None \<and> get_shard_index L e k = get_shard_index L e key"
    "in_int64 n" "r \<noteq> None \<Longrightarrow> r = Some n \<and> stores L key (int_to_string n)
       (number_entry (now_ms tk) t (int_to_string n) (if key \<in> V then None else engine_lookup L e key)) V e e'"
    "r = None \<Longrightarrow> evicted_from L (get_shard_index L e key) V e e' \<and>
       (bucket_count (shard_of L e key) = 0 \<or> nodes (shard_of L e' key) = [])"
proof -
  let ?i = "get_shard_index L e key" and ?v = "int_to_string n"
  let ?new = "entry_cost key (fresh ?v)" and ?old = "old_cost_of key (engine_lookup L e key)"
  have n: "in_int64 n" using run by (simp add: store_number_def split: if_splits)
  have i: "?i < length (shards e)" using get_shard_index_less engine_invarD(1) [OF inv] by blast
  obtain room e1 where mr: "make_room L tk ?i ?new ?old e = (room, e1)" by fastforce
  note m = make_room_props [OF inv i mr]
  then obtain V where V: "evicted_from L ?i V e e1" by blast
  have same: "get_shard_index L e1 key = ?i"
    using V by (simp add: evicted_from_def get_shard_index_def)
  show thesis
  proof (cases room)
    case False
    then have "r = None" and "e' = e1"
      using run mr n it by (auto simp: store_number_def Let_def)
    then show thesis
      using that [of V] V m False same n by (auto simp: evicted_from_def shard_of_def)
  next
    case True
    have r: "r = Some n" and e': "e' = put_entry L key (number_entry (now_ms tk) t ?v None)
        (\<lambda>ent. number_entry (now_ms tk) t ?v (Some ent)) (charge ?new ?old e1)"
      using run mr True n it by (auto simp: store_number_def Let_def number_entry_def)
    have "(case engine_lookup L e1 key of None \<Rightarrow> number_entry (now_ms tk) t ?v None
        | Some ent \<Rightarrow> number_entry (now_ms tk) t ?v (Some ent)) =
        number_entry (now_ms tk) t ?v (if key \<in> V then None else engine_lookup L e key)"
      using V by (auto simp: evicted_from_def split: option.splits)
    from charge_put_props [OF m(1) V e' this [symmetric]] r V n show thesis
      using that [of V] by (auto simp: evicted_from_def)
  qed
qed

section \<open>The sweeper\<close>

lemma sweep_nodes_eq:
  assumes "sweep_nodes now c xs mem ex = (ys, mem', ex')"
  shows "ys = filter (\<lambda>x. \<not> is_expired now (snd x)) (take (20 - c) xs) @ drop (20 - c) xs"
    and "mem' - sum_list (map node_cost ys) = mem - sum_list (map node_cost xs)"
    and "ex' = ex + of_nat (length xs) - of_nat (length ys)"
proof -
  have "ys = filter (\<lambda>x. \<not> is_expired now (snd x)) (take (20 - c) xs) @ drop (20 - c) xs \<and>
     mem' - sum_list (map node_cost ys) = mem - sum_list (map node_cost xs) \<and>
     ex' = ex + of_nat (length xs) - of_nat (length ys)"
    using assms
  proof (induction now c xs mem ex arbitrary: ys rule: sweep_nodes.induct)
    case (2 now c k ent xs mem ex)
    have take: "20 - c = Suc (20 - (c + 1))" if "c < 20" using that by simp
    consider (stop) "\<not> c < 20" | (dead) "c < 20" "is_expired now ent" | (alive) "c < 20" "\<not> is_expired now ent"
      by blast
    then show ?case
    proof cases
      case stop
      with 2 show ?thesis by simp
    next
      case dead
      have "sweep_nodes now (c + 1) xs (mem - entry_cost k (entry_value ent)) (ex + 1) = (ys, mem', ex')"
        using "2.prems" dead by simp
      note IH = "2.IH"(1) [OF dead this]
      show ?thesis
      proof (intro conjI)
        show "ys = filter (\<lambda>x. \<not> is_expired now (snd x)) (take (20 - c) ((k, ent) # xs)) @ drop (20 - c) ((k, ent) # xs)"
          using IH dead by (simp add: take)
      qed (use IH [THEN conjunct2] in \<open>simp_all add: node_cost_def algebra_simps\<close>)
    next
      case alive
      with "2.prems" obtain zs where zs: "sweep_nodes now (c + 1) xs mem ex = (zs, mem', ex')" "ys = (k, ent) # zs"
        by (auto simp: Let_def split: prod.splits)
      note IH = "2.IH"(2) [OF alive zs(1)]
      show ?thesis
      proof (intro conjI)
        show "ys = filter (\<lambda>x. \<not> is_expired now (snd x)) (take (20 - c) ((k, ent) # xs)) @ drop (20 - c) ((k, ent) # xs)"
          using IH alive zs(2) by (simp add: take)
      qed (use IH [THEN conjunct2] zs(2) in \<open>simp_all add: node_cost_def algebra_simps\<close>)
    qed
  qed simp
  then show "ys = filter (\<lambda>x. \<not> is_expired now (snd x)) (take (20 - c) xs) @ drop (20 - c) xs"
    and "mem' - sum_list (map node_cost ys) = mem - sum_list (map node_cost xs)"
    and "ex' = ex + of_nat (length xs) - of_nat (length ys)" by blast+
qed

text \<open>A sweep removes expired entries only, at most twenty, and keeps the ledger.\<close>

lemma sweep_find:
  assumes "distinct (map fst xs)"
    and "ys = filter (\<lambda>x. \<not> is_expired now (snd x)) (take n xs) @ drop n xs"
  shows "distinct (map fst ys)" and "set ys \<subseteq> set xs"
    and "map_of ys k = map_of xs k \<or> (map_of ys k = None \<and> (\<exists>ent. map_of xs k = Some ent \<and> is_expired now ent))"
proof -
  have split: "xs = take n xs @ drop n xs" by simp
  have "distinct (map fst (take n xs @ drop n xs))" using assms(1) by simp
  then show d: "distinct (map fst ys)"
    unfolding assms(2) by (auto simp: distinct_map_filter simp del: append_take_drop_id)
  show sub: "set ys \<subseteq> set xs"
    unfolding assms(2) using set_take_subset [of n xs] set_drop_subset [of n xs] by auto
  show "map_of ys k = map_of xs k \<or> (map_of ys k = None \<and> (\<exists>ent. map_of xs k = Some ent \<and> is_expired now ent))"
  proof (cases "map_of ys k")
    case (Some ent)
    then have "(k, ent) \<in> set xs" using sub map_of_SomeD by fastforce
    with Some assms(1) show ?thesis by simp
  next
    case None
    show ?thesis
    proof (cases "map_of xs k")
      case (Some ent)
      then have "(k, ent) \<in> set (take n xs) \<or> (k, ent) \<in> set (drop n xs)"
        using map_of_SomeD [OF Some] split by (metis Un_iff set_append)
      moreover have "(k, ent) \<notin> set ys" using None by (auto simp: map_of_eq_None_iff image_iff)
      ultimately show ?thesis using None Some unfolding assms(2) by auto
    qed (use None in simp)
  qed
qed

lemma sweep_shard_props:
  assumes "engine_invar L e" and "i < length (shards e)"
  shows "engine_invar L (sweep_shard now i e)" and "drift (sweep_shard now i e) = drift e"
    and "engine_lookup L (sweep_shard now i e) k = engine_lookup L e k \<or>
      (engine_lookup L (sweep_shard now i e) k = None \<and>
       (\<exists>ent. engine_lookup L e k = Some ent \<and> is_expired now ent))"
    and "length (shards (sweep_shard now i e)) = length (shards e)"
    and "max_memory_bytes (sweep_shard now i e) = max_memory_bytes e"
    and "running (sweep_shard now i e) = running e"
proof -
  let ?d = "shards e ! i" and ?e = "sweep_shard now i e"
  obtain ys mem ex where r: "sweep_nodes now 0 (nodes ?d) (total_memory_usage e) (expired_keys e) = (ys, mem, ex)"
    by (cases "sweep_nodes now 0 (nodes ?d) (total_memory_usage e) (expired_keys e)")
  note sw = sweep_nodes_eq [OF r]
  have s: "shards ?e = (shards e)[i := ?d\<lparr>nodes := ys\<rparr>]" and m: "total_memory_usage ?e = mem"
    and fr: "max_memory_bytes ?e = max_memory_bytes e" "running ?e = running e"
    by (simp_all add: sweep_shard_def r)
  note si = engine_invarD(2) [OF assms]
  have dist: "distinct (map fst (nodes ?d))" using si by (simp add: shard_invar_keys)
  note f = sweep_find [OF dist sw(1)]
  have "shard_invar L (length (shards e)) i (?d\<lparr>nodes := ys\<rparr>)"
    using si f(1,2) by (auto simp: shard_invar_keys)
  then show "engine_invar L ?e" by (rule engine_invar_put [OF assms _ s])
  show "engine_lookup L ?e k = engine_lookup L e k \<or>
      (engine_lookup L ?e k = None \<and> (\<exists>ent. engine_lookup L e k = Some ent \<and> is_expired now ent))"
    using engine_lookup_put [OF assms(2) s, of L k] f(3) [of k]
    by (auto simp: umap_find_def engine_lookup_def shard_of_def)
  have "mem = total_memory_usage e - dict_bytes ?d + dict_bytes (?d\<lparr>nodes := ys\<rparr>)"
    using sw(2) unfolding dict_bytes_def by (metis diff_add_cancel umap.simps(1) umap.select_convs(1) umap.surjective umap.update_convs(1))
  then show "drift ?e = drift e"
    unfolding drift_def engine_bytes_put [OF assms(2) s] m by simp
qed (simp_all add: sweep_shard_def Let_def split: prod.split)

end
