(* ===== verification/Engine_Spec.thy ===== *)
theory Engine_Spec
  imports Engine_Invariant
begin

text \<open>
  What the storage engine promises, and that it keeps the promise.

  The promise is a map from keys to a value and a deadline (\<open>kv\<close>, deadline 0 for none), in which a key
  disappears when the clock reaches its deadline (\<open>purge\<close>). \<open>view L e now\<close> is the map that an engine
  shows at a time. Every operation at time \<open>now\<close> is a functional refinement: its result is that of the
  abstract operation on the view, and the view afterwards is the abstract operation's map. Tables,
  shards, capacities, access times, lazy deletion and the sweeper do not show.
\<close>

section \<open>Abstract operations\<close>

type_synonym kv = "string \<rightharpoonup> string \<times> u64"

definition deadline_passed :: "u64 \<Rightarrow> u64 \<Rightarrow> bool" where
  "deadline_passed now t \<longleftrightarrow> 0 < t \<and> t \<le> now"

definition purge :: "u64 \<Rightarrow> kv \<Rightarrow> kv" where
  "purge now m k =
     (case m k of None \<Rightarrow> None | Some (v, t) \<Rightarrow> if deadline_passed now t then None else Some (v, t))"

definition spec_set :: "string \<Rightarrow> string \<Rightarrow> kv \<Rightarrow> kv" where
  "spec_set key v m = m(key \<mapsto> (v, 0))"

definition spec_del :: "string list \<Rightarrow> kv \<Rightarrow> kv" where
  "spec_del keys m = (\<lambda>k. if k \<in> set keys then None else m k)"

definition spec_exists :: "string list \<Rightarrow> kv \<Rightarrow> int" where
  "spec_exists keys m = int (length (filter (\<lambda>k. m k \<noteq> None) keys))"

definition spec_expire_at :: "u64 \<Rightarrow> string \<Rightarrow> u64 \<Rightarrow> kv \<Rightarrow> bool \<times> kv" where
  "spec_expire_at now key t m =
     (case m key of
        None \<Rightarrow> (False, m)
      | Some (v, _) \<Rightarrow> (True, purge now (m(key \<mapsto> (v, t)))))"

definition spec_pttl :: "u64 \<Rightarrow> string \<Rightarrow> kv \<Rightarrow> int" where
  "spec_pttl now key m =
     (case m key of
        None \<Rightarrow> -2
      | Some (_, t) \<Rightarrow> if t = 0 then -1 else sint (t - now))"

definition spec_persist :: "string \<Rightarrow> kv \<Rightarrow> bool \<times> kv" where
  "spec_persist key m =
     (case m key of
        None \<Rightarrow> (False, m)
      | Some (v, t) \<Rightarrow> if t = 0 then (False, m) else (True, m(key \<mapsto> (v, 0))))"

text \<open>A counter step: \<open>None\<close> for a value that is not a number, undefined outside the range of the type;
  an absent key counts from 0 without a deadline, a present one keeps its deadline.\<close>

definition spec_step :: "int \<Rightarrow> string \<Rightarrow> kv \<Rightarrow> (int option \<times> kv) run" where
  "spec_step delta key m =
     (case m key of
        None \<Rightarrow> if in_int64 delta then Returns (Some delta, m(key \<mapsto> (int_to_string delta, 0)))
                else Faults Signed_overflow
      | Some (v, t) \<Rightarrow>
          (case from_chars_i64 v of
             Inr (n, []) \<Rightarrow>
               if in_int64 (n + delta)
               then Returns (Some (n + delta), m(key \<mapsto> (int_to_string (n + delta), t)))
               else Faults Signed_overflow
           | _ \<Rightarrow> Returns (None, m)))"

section \<open>The view of an engine\<close>

definition entry_view :: "DictEntry \<Rightarrow> string \<times> u64" where
  "entry_view ent = (chars (entry_value ent), expire_at_ms ent)"

definition view :: "lib \<Rightarrow> StorageEngine \<Rightarrow> u64 \<Rightarrow> kv" where
  "view L e now = purge now (\<lambda>k. map_option entry_view (engine_lookup L e k))"

lemma is_expired_deadline: "is_expired now ent \<longleftrightarrow> deadline_passed now (expire_at_ms ent)"
  by (simp add: is_expired_def deadline_passed_def)

lemma view_eq:
  "view L e now k =
     (case engine_lookup L e k of
        None \<Rightarrow> None
      | Some ent \<Rightarrow> if is_expired now ent then None else Some (entry_view ent))"
  by (simp add: view_def purge_def entry_view_def is_expired_deadline split: option.split)

lemma deadline_passed_mono: "deadline_passed now t \<Longrightarrow> now \<le> now' \<Longrightarrow> deadline_passed now' t"
  by (auto simp: deadline_passed_def)

lemma deadline_zero [simp]: "\<not> deadline_passed now 0"
  by (simp add: deadline_passed_def)

lemma view_cong: "engine_lookup L e = engine_lookup L e' \<Longrightarrow> view L e now = view L e' now"
  by (simp add: view_def)

text \<open>The view after each kind of write.\<close>

lemma view_update_lookup:
  assumes "engine_lookup L e' = (engine_lookup L e)(key \<mapsto> ent)" and "\<not> is_expired now ent"
  shows "view L e' now = (view L e now)(key \<mapsto> entry_view ent)"
  using assms by (auto simp: view_eq fun_eq_iff)

lemma view_update_lookup_purge:
  assumes "engine_lookup L e' = (engine_lookup L e)(key \<mapsto> ent)"
  shows "view L e' now = purge now ((view L e now)(key \<mapsto> entry_view ent))"
  using assms
  by (auto simp: view_eq fun_eq_iff purge_def entry_view_def is_expired_deadline split: option.splits)

lemma view_erase_lookup:
  assumes "engine_lookup L e' = (engine_lookup L e)(key := None)"
  shows "view L e' now = (view L e now)(key := None)"
  using assms by (auto simp: view_eq fun_eq_iff)

lemma view_touch:
  assumes "engine_lookup L e' = (engine_lookup L e)(key \<mapsto> f ent)" and "engine_lookup L e key = Some ent"
    and "entry_view (f ent) = entry_view ent"
  shows "view L e' now = view L e now"
  using assms by (auto simp: view_eq fun_eq_iff entry_view_def is_expired_deadline)

lemma view_drop_expired:
  assumes "engine_lookup L e' = (engine_lookup L e)(key := None)" and "engine_lookup L e key = Some ent"
    and "is_expired now ent"
  shows "view L e' now = view L e now"
  using assms by (auto simp: view_eq fun_eq_iff)

section \<open>The operations one by one\<close>

text \<open>What each operation keeps (the well-formedness, the ledger) and what it does to the view.\<close>

definition keeps :: "lib \<Rightarrow> StorageEngine \<Rightarrow> StorageEngine \<Rightarrow> bool" where
  "keeps L e e' \<longleftrightarrow>
     (engine_invar L e \<longrightarrow> engine_invar L e') \<and> drift e' = drift e \<and>
     max_memory_bytes e' = max_memory_bytes e \<and> length (shards e') = length (shards e)"

lemma keeps_refl [simp]: "keeps L e e"
  by (simp add: keeps_def)

lemma keeps_trans: "keeps L e e' \<Longrightarrow> keeps L e' e'' \<Longrightarrow> keeps L e e''"
  by (auto simp: keeps_def)

lemma keeps_counts [simp]:
  "keeps L e (count_hit e') = keeps L e e'" "keeps L e (count_miss e') = keeps L e e'"
  "keeps L e (count_expired e') = keeps L e e'"
  by (simp_all add: keeps_def engine_simps frame_simps)

lemma keeps_erase_entry:
  "engine_invar L e \<Longrightarrow> engine_lookup L e key = Some ent \<Longrightarrow> keeps L e (erase_entry L key ent e)"
  using erase_entry_props [of L e key ent] by (simp add: keeps_def frame_simps)

lemma keeps_update_entry:
  "engine_invar L e \<Longrightarrow> engine_lookup L e key = Some ent \<Longrightarrow> entry_value (f ent) = entry_value ent \<Longrightarrow>
   keeps L e (update_entry L key f e)"
  using update_entry_props [of L e key ent f] by (simp add: keeps_def frame_simps)

lemma lookup_cases:
  obtains (absent) "engine_lookup L e key = None" "view L e now key = None"
  | (dead) ent where "engine_lookup L e key = Some ent" "is_expired now ent" "view L e now key = None"
  | (alive) ent where "engine_lookup L e key = Some ent" "\<not> is_expired now ent"
      "view L e now key = Some (entry_view ent)"
  by (cases "engine_lookup L e key") (auto simp: view_eq split: if_splits)

lemma drop_dead:
  assumes "engine_invar L e" and "engine_lookup L e key = Some ent" and "is_expired now ent"
  shows "keeps L e (erase_entry L key ent e)" and "view L (erase_entry L key ent e) now = view L e now"
  using keeps_erase_entry [OF assms(1,2)] view_drop_expired [OF _ assms(2,3)]
    erase_entry_props(2) [OF assms(1,2)] by blast+

lemma touch_alive:
  assumes "engine_invar L e" and "engine_lookup L e key = Some ent"
  shows "keeps L e (update_entry L key (\<lambda>ent. ent\<lparr>last_access_ms := t\<rparr>) e)"
    and "view L (update_entry L key (\<lambda>ent. ent\<lparr>last_access_ms := t\<rparr>) e) now = view L e now"
  using keeps_update_entry [OF assms] update_entry_props(2) [OF assms]
    view_touch [OF _ assms(2), where f = "\<lambda>ent. ent\<lparr>last_access_ms := t\<rparr>"]
  by (auto simp: entry_view_def)

lemma view_counts [engine_simps]:
  "view L (count_hit e) = view L e" "view L (count_miss e) = view L e"
  "view L (count_expired e) = view L e" "view L (charge n o' e) = view L e"
  by (simp_all add: view_def engine_simps fun_eq_iff)

lemma storage_get_props:
  assumes "engine_invar L e" and "storage_get L now key e = (r, e')"
  shows "keeps L e e' \<and> r = map_option fst (view L e now key) \<and> view L e' now = view L e now"
proof (cases rule: lookup_cases [of L e key now])
  case absent
  then show ?thesis
    using assms(2) by (auto simp: storage_get_def engine_simps simp flip: engine_lookup_def)
next
  case (dead ent)
  then show ?thesis
    using assms(2) drop_dead [OF assms(1) dead(1,2)]
    by (auto simp: storage_get_def engine_simps simp flip: engine_lookup_def)
next
  case (alive ent)
  then show ?thesis
    using assms(2) touch_alive [OF assms(1) alive(1)]
    by (auto simp: storage_get_def engine_simps entry_view_def simp flip: engine_lookup_def)
qed

lemma storage_del_props:
  assumes "engine_invar L e" and "storage_del L keys e = (n, e')"
  shows "keeps L e e' \<and>
     engine_lookup L e' = (\<lambda>k. if k \<in> set keys then None else engine_lookup L e k) \<and>
     n = int (card (set keys \<inter> dom (engine_lookup L e)))"
  using assms
proof (induction keys arbitrary: e n)
  case (Cons key keys)
  show ?case
  proof (cases "engine_lookup L e key")
    case None
    then have "keeps L e e' \<and> engine_lookup L e' = (\<lambda>k. if k \<in> set keys then None else engine_lookup L e k) \<and>
        n = int (card (set keys \<inter> dom (engine_lookup L e)))"
      using Cons.IH [OF Cons.prems(1)] Cons.prems(2) by (simp flip: engine_lookup_def)
    then show ?thesis using None by (auto simp: fun_eq_iff domIff)
  next
    case (Some ent)
    let ?e = "erase_entry L key ent e"
    obtain m where m: "storage_del L keys ?e = (m, e')" "n = m + 1"
      using Cons.prems(2) Some by (auto simp: Let_def split: prod.splits simp flip: engine_lookup_def)
    note er = erase_entry_props [OF Cons.prems(1) Some]
    have IH: "keeps L ?e e' \<and> engine_lookup L e' = (\<lambda>k. if k \<in> set keys then None else engine_lookup L ?e k) \<and>
        m = int (card (set keys \<inter> dom (engine_lookup L ?e)))"
      by (rule Cons.IH [OF er(1) m(1)])
    have "set (key # keys) \<inter> dom (engine_lookup L e) =
        insert key (set keys \<inter> dom (engine_lookup L ?e))" and "key \<notin> dom (engine_lookup L ?e)"
      using er(2) Some by auto
    then have "card (set (key # keys) \<inter> dom (engine_lookup L e)) =
        Suc (card (set keys \<inter> dom (engine_lookup L ?e)))" by simp
    then show ?thesis
      using IH m(2) er(2) keeps_trans [OF keeps_erase_entry [OF Cons.prems(1) Some]]
      by (auto simp: fun_eq_iff)
  qed
qed simp

lemma storage_exists_props:
  assumes "engine_invar L e" and "storage_exists L now keys e = (n, e')"
  shows "keeps L e e' \<and> n = spec_exists keys (view L e now) \<and> view L e' now = view L e now"
  using assms
proof (induction keys arbitrary: e n)
  case (Cons key keys)
  have step: "keeps L e e' \<and> m = spec_exists keys (view L e now) \<and> view L e' now = view L e now"
    if "storage_exists L now keys e1 = (m, e')" "keeps L e e1" "view L e1 now = view L e now" for e1 m
  proof -
    have "engine_invar L e1" using that(2) Cons.prems(1) by (simp add: keeps_def)
    from Cons.IH [OF this that(1)] that(2,3) show ?thesis by (auto intro: keeps_trans)
  qed
  show ?case
  proof (cases rule: lookup_cases [of L e key now])
    case absent
    then show ?thesis
      using step [of "count_miss e"] Cons.prems(2)
      by (simp add: engine_simps spec_exists_def flip: engine_lookup_def)
  next
    case (dead ent)
    then show ?thesis
      using step [of "count_miss (count_expired (erase_entry L key ent e))"] Cons.prems(2)
        drop_dead [OF Cons.prems(1) dead(1,2)]
      by (simp add: engine_simps spec_exists_def flip: engine_lookup_def)
  next
    case (alive ent)
    then show ?thesis
      using step [of "count_hit (update_entry L key (\<lambda>ent. ent\<lparr>last_access_ms := now\<rparr>) e)"] Cons.prems(2)
        touch_alive [OF Cons.prems(1) alive(1)]
      by (auto simp: engine_simps spec_exists_def Let_def split: prod.splits simp flip: engine_lookup_def)
  qed
qed (simp add: spec_exists_def)

lemma storage_expire_at_props:
  assumes "engine_invar L e" and "storage_expire_at L now key t e = (r, e')"
  shows "keeps L e e' \<and> (r, view L e' now) = spec_expire_at now key t (view L e now)"
proof (cases rule: lookup_cases [of L e key now])
  case absent
  then show ?thesis
    using assms(2) by (auto simp: storage_expire_at_def spec_expire_at_def simp flip: engine_lookup_def)
next
  case (dead ent)
  then show ?thesis
    using assms(2) drop_dead [OF assms(1) dead(1,2)]
    by (auto simp: storage_expire_at_def spec_expire_at_def engine_simps simp flip: engine_lookup_def)
next
  case (alive ent)
  let ?f = "\<lambda>ent. ent\<lparr>expire_at_ms := t, last_access_ms := now\<rparr>"
  have "r" and "e' = update_entry L key ?f e"
    using assms(2) alive by (auto simp: storage_expire_at_def simp flip: engine_lookup_def)
  then show ?thesis
    using alive keeps_update_entry [OF assms(1) alive(1), of ?f]
      view_update_lookup_purge [OF update_entry_props(2) [OF assms(1) alive(1), of ?f], of now]
    by (simp add: spec_expire_at_def entry_view_def)
qed

text \<open>\<open>expire\<close> is \<open>expire_at\<close> at the sum of the clock and the offset, wrap-around included.\<close>

lemma storage_expire_eq:
  "storage_expire L now key ms e = storage_expire_at L now key (now + of_int ms) e"
  by (simp add: storage_expire_def storage_expire_at_def)

lemma storage_pttl_props:
  assumes "engine_invar L e" and "storage_pttl L now key e = (r, e')"
  shows "keeps L e e' \<and> r = spec_pttl now key (view L e now) \<and> view L e' now = view L e now"
proof (cases rule: lookup_cases [of L e key now])
  case absent
  then show ?thesis
    using assms(2) by (auto simp: storage_pttl_def spec_pttl_def simp flip: engine_lookup_def)
next
  case (dead ent)
  then show ?thesis
    using assms(2) drop_dead [OF assms(1) dead(1,2)]
    by (auto simp: storage_pttl_def spec_pttl_def is_expired_def simp flip: engine_lookup_def)
next
  case (alive ent)
  then show ?thesis
    using assms(2)
    by (auto simp: storage_pttl_def spec_pttl_def entry_view_def is_expired_def word_gt_0
        simp flip: engine_lookup_def split: if_splits)
qed

lemma storage_persist_props:
  assumes "engine_invar L e" and "storage_persist L now key e = (r, e')"
  shows "keeps L e e' \<and> (r, view L e' now) = spec_persist key (view L e now)"
proof (cases rule: lookup_cases [of L e key now])
  case absent
  then show ?thesis
    using assms(2) by (auto simp: storage_persist_def spec_persist_def simp flip: engine_lookup_def)
next
  case (dead ent)
  then show ?thesis
    using assms(2) drop_dead [OF assms(1) dead(1,2)]
    by (auto simp: storage_persist_def spec_persist_def simp flip: engine_lookup_def)
next
  case (alive ent)
  let ?f = "\<lambda>ent. ent\<lparr>expire_at_ms := 0, last_access_ms := now\<rparr>"
  show ?thesis
  proof (cases "expire_at_ms ent = 0")
    case True
    then show ?thesis
      using assms(2) alive
      by (auto simp: storage_persist_def spec_persist_def entry_view_def simp flip: engine_lookup_def)
  next
    case False
    then have "r" and "e' = update_entry L key ?f e"
      using assms(2) alive by (auto simp: storage_persist_def simp flip: engine_lookup_def)
    then show ?thesis
      using alive False keeps_update_entry [OF assms(1) alive(1), of ?f]
        view_update_lookup [OF update_entry_props(2) [OF assms(1) alive(1), of ?f], of now]
      by (simp add: spec_persist_def entry_view_def is_expired_def)
  qed
qed

definition without :: "string set \<Rightarrow> kv \<Rightarrow> kv" where
  "without V m = (\<lambda>k. if k \<in> V then None else m k)"

lemma without_empty [simp]: "without {} m = m"
  by (simp add: without_def)

lemma view_stores:
  assumes "stores L key v new V e e'" and "\<not> is_expired now new"
  shows "view L e' now = (without V (view L e now))(key \<mapsto> entry_view new)"
  using assms by (auto simp: stores_def view_eq fun_eq_iff without_def)

lemma view_evicted_from: "evicted_from L idx V e e' \<Longrightarrow> view L e' now = without V (view L e now)"
  by (auto simp: evicted_from_def view_eq fun_eq_iff without_def)

lemma storage_set_unlimited:
  assumes "engine_invar L e" and "max_memory_bytes e = 0" and "storage_set L tk key v e = (ok, e')"
  shows "ok" and "engine_invar L e'"
    and "stores L key v (set_entry (now_ms tk) v (engine_lookup L e key)) {} e e'"
proof -
  let ?e2 = "charge (entry_cost key (fresh v)) (old_cost_of key (engine_lookup L e key)) e"
  show "ok"
    using assms(2,3) by (simp add: storage_set_def Let_def make_room_unlimited)
  have e': "e' = put_entry L key (set_entry (now_ms tk) v None) (\<lambda>ent. set_entry (now_ms tk) v (Some ent)) ?e2"
    using assms(2,3) by (simp add: storage_set_def Let_def make_room_unlimited set_entry_def flip: engine_lookup_def)
  have "set_entry (now_ms tk) v (engine_lookup L e key) =
      (case engine_lookup L e key of None \<Rightarrow> set_entry (now_ms tk) v None
      | Some ent \<Rightarrow> set_entry (now_ms tk) v (Some ent))"
    by (simp split: option.split)
  from charge_put_props(1,2) [OF assms(1) evicted_from_refl [of L 0 e] e' this]
  show "engine_invar L e'" and "stores L key v (set_entry (now_ms tk) v (engine_lookup L e key)) {} e e'" .
qed

lemma store_number_unlimited:
  assumes "engine_invar L e" and "it = engine_lookup L e key" and "max_memory_bytes e = 0" and "in_int64 n"
  shows "\<exists>e'. store_number L tk key it t n e = Returns (Some n, e') \<and> engine_invar L e' \<and>
     stores L key (int_to_string n) (number_entry (now_ms tk) t (int_to_string n) (engine_lookup L e key)) {} e e'"
proof -
  let ?v = "int_to_string n"
  let ?e' = "put_entry L key (number_entry (now_ms tk) t ?v None)
      (\<lambda>ent. number_entry (now_ms tk) t ?v (Some ent))
      (charge (entry_cost key (fresh ?v)) (old_cost_of key (engine_lookup L e key)) e)"
  have "store_number L tk key it t n e = Returns (Some n, ?e')"
    using assms(2-4) by (auto simp: store_number_def Let_def make_room_unlimited number_entry_def)
  moreover have "number_entry (now_ms tk) t ?v (engine_lookup L e key) =
      (case engine_lookup L e key of None \<Rightarrow> number_entry (now_ms tk) t ?v None
      | Some ent \<Rightarrow> number_entry (now_ms tk) t ?v (Some ent))"
    by (simp split: option.split)
  from charge_put_props(1,2) [OF assms(1) evicted_from_refl [of L 0 e] refl this]
  have "engine_invar L ?e'" and "stores L key ?v (number_entry (now_ms tk) t ?v (engine_lookup L e key)) {} e ?e'" .
  ultimately show ?thesis by blast
qed

text \<open>Storing a number whose deadline has not passed, as clients see it.\<close>

lemma store_number_view:
  assumes "engine_invar L e" and "max_memory_bytes e = 0" and "it = engine_lookup L e key"
    and "\<not> deadline_passed (now_ms tk) t"
  shows "map_run (\<lambda>(r, e'). (r, view L e' (now_ms tk))) (store_number L tk key it t n e) =
     (if in_int64 n then Returns (Some n, (view L e (now_ms tk))(key \<mapsto> (int_to_string n, t))) else Faults Signed_overflow)"
proof (cases "in_int64 n")
  case True
  from store_number_unlimited [OF assms(1,3,2) True, of tk t]
  obtain e' where e': "store_number L tk key it t n e = Returns (Some n, e')"
    and st: "stores L key (int_to_string n) (number_entry (now_ms tk) t (int_to_string n) (engine_lookup L e key)) {} e e'"
    by blast
  show ?thesis
    using True e' view_stores [OF st, of "now_ms tk"] assms(4) by (simp add: entry_view_def is_expired_deadline)
qed (simp add: store_number_def)

lemma storage_step_unlimited:
  assumes "engine_invar L e" and "max_memory_bytes e = 0"
  shows "map_run (\<lambda>(r, e'). (r, view L e' (now_ms tk))) (storage_step L tk delta key e) =
     spec_step delta key (view L e (now_ms tk))"
proof (cases rule: lookup_cases [of L e key "now_ms tk"])
  case absent
  then show ?thesis
    using store_number_view [OF assms absent(1) [symmetric], of tk 0 delta]
    by (simp add: storage_step_def spec_step_def flip: engine_lookup_def)
next
  case (dead ent)
  note er = erase_entry_props [OF assms(1) dead(1)]
  have "max_memory_bytes (erase_entry L key ent e) = 0" and "None = engine_lookup L (erase_entry L key ent e) key"
    using assms(2) er(2) by (simp_all add: frame_simps)
  from store_number_view [OF er(1) this, of tk 0 delta] show ?thesis
    using dead drop_dead(2) [OF assms(1) dead(1,2)] by (simp add: storage_step_def spec_step_def flip: engine_lookup_def)
next
  case (alive ent)
  note def = storage_step_def spec_step_def entry_view_def
  show ?thesis
  proof (cases "\<exists>n. from_chars_i64 (chars (entry_value ent)) = Inr (n, [])")
    case True
    then obtain n where n: "from_chars_i64 (chars (entry_value ent)) = Inr (n, [])" by blast
    have "\<not> deadline_passed (now_ms tk) (expire_at_ms ent)" using alive(2) by (simp add: is_expired_deadline)
    from store_number_view [OF assms alive(1) [symmetric] this, of "n + delta"] show ?thesis
      using alive n by (simp add: def flip: engine_lookup_def)
  qed (use alive in \<open>auto simp: def simp flip: engine_lookup_def split: sum.split list.split\<close>)
qed

lemma view_sweep_shard:
  assumes "engine_invar L e" and "i < length (shards e)"
  shows "keeps L e (sweep_shard now i e) \<and> view L (sweep_shard now i e) now = view L e now"
proof -
  note sw = sweep_shard_props [OF assms, of now]
  have "view L (sweep_shard now i e) now k = view L e now k" for k
    using sw(3) [of k] by (auto simp: view_eq)
  then show ?thesis using sw by (auto simp: keeps_def)
qed

lemma sweeper_round_props:
  assumes "engine_invar L e"
  shows "keeps L e (background_sweeper_round owns_lock now e) \<and>
     view L (background_sweeper_round owns_lock now e) now = view L e now"
proof -
  let ?f = "\<lambda>i e. if owns_lock i then sweep_shard now i e else e"
  have "keeps L e (fold ?f is e) \<and> view L (fold ?f is e) now = view L e now"
    if "engine_invar L e" and "\<forall>i\<in>set is. i < length (shards e)" for "is" e
    using that
  proof (induction "is" arbitrary: e)
    case (Cons i "is")
    then have i: "keeps L e (?f i e) \<and> view L (?f i e) now = view L e now"
      using view_sweep_shard by simp
    then have "engine_invar L (?f i e)" and "length (shards (?f i e)) = length (shards e)"
      using Cons.prems(1) by (auto simp: keeps_def)
    then show ?case using Cons.IH [of "?f i e"] Cons.prems(2) i by (auto intro: keeps_trans)
  qed simp
  from this [OF assms, of "[0..<length (shards e)]"] show ?thesis
    by (simp add: background_sweeper_round_def)
qed

end
