(* ===== verification/Engine_Theorems.thy ===== *)
theory Engine_Theorems
  imports Engine_Spec
begin

text \<open>
  The properties of the storage engine: the refinement of the abstract operations, eviction, the
  memory ledger, deadlines, the sweeper and the well-formedness of every reachable engine. The
  witnesses run the operations on small engines with the hash function and random draws of
  \<open>ex_lib\<close> and \<open>ex_tick\<close>.
\<close>

section \<open>Steps of an engine\<close>

text \<open>Any operation, with any clock and any random draws, in any order.\<close>

inductive engine_step :: "lib \<Rightarrow> StorageEngine \<Rightarrow> StorageEngine \<Rightarrow> bool" for L where
  step_set: "storage_set L tk key v e = (ok, e') \<Longrightarrow> engine_step L e e'"
| step_get: "storage_get L now key e = (r, e') \<Longrightarrow> engine_step L e e'"
| step_del: "storage_del L keys e = (n, e') \<Longrightarrow> engine_step L e e'"
| step_exists: "storage_exists L now keys e = (n, e') \<Longrightarrow> engine_step L e e'"
| step_incr: "storage_incr L tk key e = Returns (r, e') \<Longrightarrow> engine_step L e e'"
| step_decr: "storage_decr L tk key e = Returns (r, e') \<Longrightarrow> engine_step L e e'"
| step_expire: "storage_expire L now key ms e = (b, e') \<Longrightarrow> engine_step L e e'"
| step_expire_at: "storage_expire_at L now key t e = (b, e') \<Longrightarrow> engine_step L e e'"
| step_pttl: "storage_pttl L now key e = (i, e') \<Longrightarrow> engine_step L e e'"
| step_persist: "storage_persist L now key e = (b, e') \<Longrightarrow> engine_step L e e'"
| step_sweep: "engine_step L e (background_sweeper_round owns_lock now e)"
| step_limit: "engine_step L e (set_max_memory bytes e)"

inductive engine_reachable :: "lib \<Rightarrow> nat \<Rightarrow> StorageEngine \<Rightarrow> bool" for L n where
  reach_new: "engine_reachable L n (engine_new n)"
| reach_step: "engine_reachable L n e \<Longrightarrow> engine_step L e e' \<Longrightarrow> engine_reachable L n e'"

definition ex_lib :: lib where
  "ex_lib = \<lparr>hash_of = (\<lambda>k. of_nat (length k)), rehash_policy = (\<lambda>_ _. None)\<rparr>"

definition ex_tick :: "u64 \<Rightarrow> tick" where
  "ex_tick t = \<lparr>now_ms = t, draw = (\<lambda>i n. 0)\<rparr>"

text \<open>Two shards, one key with a deadline in each.\<close>

definition ex_engine :: StorageEngine where
  "ex_engine =
     snd (storage_expire ex_lib 1000 ''n'' 500
       (snd (storage_set ex_lib (ex_tick 1000) ''n'' ''41''
         (snd (storage_expire ex_lib 1000 ''ab'' 20
           (snd (storage_set ex_lib (ex_tick 1000) ''ab'' ''hello'' (engine_new 2))))))))"

section \<open>Well-formedness\<close>

lemma engine_invar_new: "0 < n \<Longrightarrow> engine_invar L (engine_new n)"
  by (rule engine_invarI) (auto simp: engine_new_def shard_invar_keys umap_empty_def)

lemma store_number_invar:
  assumes "engine_invar L e" and "it = engine_lookup L e key"
    and "store_number L tk key it t n e = Returns (r, e')"
  shows "engine_invar L e'"
  by (rule store_number_props [OF assms])

lemma storage_step_invar:
  assumes "engine_invar L e" and "storage_step L tk delta key e = Returns (r, e')"
  shows "engine_invar L e'"
proof (cases rule: lookup_cases [of L e key "now_ms tk"])
  case absent
  then have "store_number L tk key None 0 delta e = Returns (r, e')"
    using assms(2) by (simp add: storage_step_def flip: engine_lookup_def)
  then show ?thesis by (rule store_number_invar [OF assms(1) absent(1) [symmetric]])
next
  case (dead ent)
  note er = erase_entry_props [OF assms(1) dead(1)]
  have "None = engine_lookup L (erase_entry L key ent e) key" by (simp add: er(2))
  moreover have "store_number L tk key None 0 delta (erase_entry L key ent e) = Returns (r, e')"
    using dead assms(2) by (simp add: storage_step_def flip: engine_lookup_def)
  ultimately show ?thesis by (rule store_number_invar [OF er(1)])
next
  case (alive ent)
  then consider "e' = e" | n where "store_number L tk key (Some ent) (expire_at_ms ent) n e = Returns (r, e')"
    using assms(2) by (auto simp: storage_step_def simp flip: engine_lookup_def split: sum.splits prod.splits if_splits)
  then show ?thesis
    using assms(1) store_number_invar [OF assms(1) alive(1) [symmetric]] by cases auto
qed

lemma keeps_invar: "keeps L e e' \<Longrightarrow> engine_invar L e \<Longrightarrow> engine_invar L e'"
  by (simp add: keeps_def)

text \<open>The operations that leave the ledger alone.\<close>

lemmas op_keeps =
  storage_get_props [THEN conjunct1] storage_del_props [THEN conjunct1]
  storage_exists_props [THEN conjunct1] storage_expire_at_props [THEN conjunct1]
  storage_pttl_props [THEN conjunct1] storage_persist_props [THEN conjunct1]
  sweeper_round_props [THEN conjunct1]

lemma storage_set_invar:
  assumes "engine_invar L e" and "storage_set L tk key v e = (ok, e')"
  shows "engine_invar L e'"
  by (rule storage_set_props [OF assms])

lemma engine_step_invar:
  assumes "engine_step L e e'" and inv: "engine_invar L e"
  shows "engine_invar L e'"
  using assms(1)
proof cases
  case step_set
  with inv show ?thesis by (rule storage_set_invar)
next
  case step_get
  show ?thesis by (rule keeps_invar [OF op_keeps(1) [OF inv step_get] inv])
next
  case step_del
  show ?thesis by (rule keeps_invar [OF op_keeps(2) [OF inv step_del] inv])
next
  case step_exists
  show ?thesis by (rule keeps_invar [OF op_keeps(3) [OF inv step_exists] inv])
next
  case step_incr
  with inv show ?thesis unfolding storage_incr_def by (rule storage_step_invar)
next
  case step_decr
  with inv show ?thesis unfolding storage_decr_def by (rule storage_step_invar)
next
  case step_expire
  show ?thesis by (rule keeps_invar [OF op_keeps(4) [OF inv step_expire [unfolded storage_expire_eq]] inv])
next
  case step_expire_at
  show ?thesis by (rule keeps_invar [OF op_keeps(4) [OF inv step_expire_at] inv])
next
  case step_pttl
  show ?thesis by (rule keeps_invar [OF op_keeps(5) [OF inv step_pttl] inv])
next
  case step_persist
  show ?thesis by (rule keeps_invar [OF op_keeps(6) [OF inv step_persist] inv])
next
  case step_sweep
  show ?thesis unfolding step_sweep by (rule keeps_invar [OF op_keeps(7) [OF inv] inv])
next
  case step_limit
  with inv show ?thesis by (simp add: engine_simps)
qed

text \<open>C10. Well-formedness of every reachable engine: whatever operations were run, with whatever clock
  readings, random draws, memory limits and sweeps, no shard holds a key twice and every key is in
  the shard that its hash selects.\<close>

theorem engine_reachable_invar:
  assumes "0 < n" and "engine_reachable L n e"
  shows "engine_invar L e"
  using assms(2)
proof (induction rule: engine_reachable.induct)
  case reach_new
  show ?case using assms(1) by (rule engine_invar_new)
next
  case (reach_step e e')
  then show ?case by (blast intro: engine_step_invar)
qed

lemma ex_engine_reachable: "engine_reachable ex_lib 2 ex_engine"
proof -
  have "engine_step L e (snd (storage_set L tk k v e))" and "engine_step L e (snd (storage_expire L now k ms e))"
    for L e tk k v now ms
    by (rule step_set step_expire, rule prod.collapse [symmetric])+
  then show ?thesis
    unfolding ex_engine_def by (intro reach_step [OF reach_step [OF reach_step [OF reach_step [OF reach_new]]]])
qed

theorem engine_reachable_invar_witness: "engine_invar ex_lib ex_engine"
  by (rule engine_reachable_invar [OF _ ex_engine_reachable]) simp

section \<open>Refinement of the abstract operations\<close>

text \<open>Between operations time alone changes the view.\<close>

lemma view_later: "now \<le> t \<Longrightarrow> view L e t = purge t (view L e now)"
  by (auto simp: view_def purge_def fun_eq_iff entry_view_def split: option.splits if_splits
      dest: deadline_passed_mono)

text \<open>C24. \<open>set\<close> without a memory limit always succeeds and is the abstract assignment: at every time the
  view afterwards is the view before with the key bound to the value and no deadline.\<close>

theorem storage_set_refines:
  assumes "engine_invar L e" and "max_memory_bytes e = 0" and "storage_set L tk key v e = (ok, e')"
  shows "ok \<and> view L e' now = spec_set key v (view L e now)"
  using storage_set_unlimited [OF assms] view_stores [of L key v _ "{}" e e' now]
  by (simp add: spec_set_def entry_view_def is_expired_deadline)

theorem storage_set_refines_witness:
  "view ex_lib (snd (storage_set ex_lib (ex_tick 1010) ''ab'' ''x'' ex_engine)) 5000 =
     spec_set ''ab'' ''x'' (view ex_lib ex_engine 5000)"
proof -
  have "engine_invar ex_lib ex_engine" and "max_memory_bytes ex_engine = 0" by code_simp+
  from storage_set_refines [OF this prod.collapse [symmetric]] show ?thesis by blast
qed

text \<open>C25. \<open>get\<close> returns the value the view shows, and changes nothing that can be seen.\<close>

theorem storage_get_refines:
  assumes "engine_invar L e" and "storage_get L now key e = (r, e')"
  shows "r = map_option fst (view L e now key) \<and> view L e' now = view L e now"
  using storage_get_props [OF assms] by blast

theorem storage_get_refines_witness:
  "storage_get ex_lib 1019 ''ab'' ex_engine = (Some ''hello'', snd (storage_get ex_lib 1019 ''ab'' ex_engine)) \<and>
   Some ''hello'' = map_option fst (view ex_lib ex_engine 1019 ''ab'')"
proof -
  have "engine_invar ex_lib ex_engine"
    and r: "storage_get ex_lib 1019 ''ab'' ex_engine = (Some ''hello'', snd (storage_get ex_lib 1019 ''ab'' ex_engine))"
    by code_simp+
  from storage_get_refines [OF this] r show ?thesis by blast
qed

text \<open>C26. \<open>del\<close> removes exactly the keys named and returns how many of them the tables held, each counted
  once however often it is named.\<close>

theorem storage_del_refines:
  assumes "engine_invar L e" and "storage_del L keys e = (n, e')"
  shows "view L e' now = spec_del keys (view L e now) \<and> n = int (card (set keys \<inter> dom (engine_lookup L e)))"
  using storage_del_props [OF assms] by (auto simp: view_eq spec_del_def fun_eq_iff)

theorem storage_del_refines_witness:
  "view ex_lib (snd (storage_del ex_lib [''n'', ''zz'', ''n''] ex_engine)) 1001 =
     spec_del [''n'', ''zz'', ''n''] (view ex_lib ex_engine 1001) \<and>
   fst (storage_del ex_lib [''n'', ''zz'', ''n''] ex_engine) = 1"
proof -
  have "engine_invar ex_lib ex_engine" and "fst (storage_del ex_lib [''n'', ''zz'', ''n''] ex_engine) = 1"
    by code_simp+
  with storage_del_refines [OF this(1) prod.collapse [symmetric]] show ?thesis by blast
qed

text \<open>\<open>exists\<close> counts the named keys that the view holds, with multiplicity, and changes nothing that
  can be seen.\<close>

lemma storage_exists_refines:
  assumes "engine_invar L e" and "storage_exists L now keys e = (n, e')"
  shows "n = spec_exists keys (view L e now) \<and> view L e' now = view L e now"
  using storage_exists_props [OF assms] by blast

text \<open>\<open>expire_at\<close> and \<open>expire\<close> succeed exactly on keys in view, set the deadline (for \<open>expire\<close> the clock
  plus the offset in 64-bit arithmetic), and a deadline already passed takes the key out of view at
  once.\<close>

lemma storage_expire_refines:
  assumes "engine_invar L e"
    and "storage_expire_at L now key t e = (r, e')" and "storage_expire L now key ms e = (r2, e2')"
  shows "(r, view L e' now) = spec_expire_at now key t (view L e now) \<and>
     (r2, view L e2' now) = spec_expire_at now key (now + of_int ms) (view L e now)"
  using storage_expire_at_props [OF assms(1,2)]
    storage_expire_at_props [OF assms(1) assms(3) [unfolded storage_expire_eq]] by blast

text \<open>\<open>pttl\<close> returns -2 for a key not in view, -1 for one without a deadline, otherwise the
  milliseconds to the deadline, and changes nothing that can be seen.\<close>

lemma storage_pttl_refines:
  assumes "engine_invar L e" and "storage_pttl L now key e = (r, e')"
  shows "r = spec_pttl now key (view L e now) \<and> view L e' now = view L e now"
  using storage_pttl_props [OF assms] by blast

text \<open>\<open>persist\<close> removes the deadline of a key in view and reports whether there was one.\<close>

lemma storage_persist_refines:
  assumes "engine_invar L e" and "storage_persist L now key e = (r, e')"
  shows "(r, view L e' now) = spec_persist key (view L e now)"
  using storage_persist_props [OF assms] by blast

text \<open>C27. \<open>incr\<close> and \<open>decr\<close> without a memory limit are the abstract counter step: the result, the value
  stored, the deadline kept, the refusal of a value that is not a number, and the signed overflow at
  the end of the range all agree with it.\<close>

theorem storage_counter_refines:
  assumes "engine_invar L e" and "max_memory_bytes e = 0"
  shows "map_run (\<lambda>(r, e'). (r, view L e' (now_ms tk))) (storage_incr L tk key e) =
       spec_step 1 key (view L e (now_ms tk)) \<and>
     map_run (\<lambda>(r, e'). (r, view L e' (now_ms tk))) (storage_decr L tk key e) =
       spec_step (- 1) key (view L e (now_ms tk))"
  using storage_step_unlimited [OF assms] by (simp add: storage_incr_def storage_decr_def)

theorem storage_counter_refines_witness:
  "map_run (\<lambda>(r, e'). (r, view ex_lib e' 1100)) (storage_incr ex_lib (ex_tick 1100) ''n'' ex_engine) =
     spec_step 1 ''n'' (view ex_lib ex_engine 1100)"
proof -
  have "engine_invar ex_lib ex_engine" and "max_memory_bytes ex_engine = 0" by code_simp+
  from storage_counter_refines [OF this, of "ex_tick 1100"] show ?thesis by (simp add: ex_tick_def)
qed



section \<open>Eviction\<close>

text \<open>The access time that a sample has to beat.\<close>

definition sampled_time :: "(string \<times> DictEntry) option \<Rightarrow> u64" where
  "sampled_time best = (case best of None \<Rightarrow> -1 | Some (_, ent) \<Rightarrow> last_access_ms ent)"

lemma bucket_nodes_find:
  "umap_invar d \<Longrightarrow> bucket_nodes L d b = (k, ent) # rest \<Longrightarrow> umap_find d k = Some ent"
proof -
  assume "umap_invar d" and b: "bucket_nodes L d b = (k, ent) # rest"
  from b have "(k, ent) \<in> set (bucket_nodes L d b)" by simp
  then have "(k, ent) \<in> set (nodes d)" by (simp add: bucket_nodes_def)
  with \<open>umap_invar d\<close> show ?thesis by (simp add: umap_find_iff)
qed

lemma sample_buckets_oldest:
  assumes "umap_invar d"
  shows "sampled_time (sample_buckets L d bs (sampled_time best) best) \<le> sampled_time best \<and>
     (\<forall>b\<in>set bs. \<forall>k ent rest. bucket_nodes L d b = (k, ent) # rest \<longrightarrow>
        sampled_time (sample_buckets L d bs (sampled_time best) best) \<le> last_access_ms ent)"
proof (induction bs arbitrary: best)
  case (Cons b bs)
  show ?case
  proof (cases "bucket_nodes L d b")
    case Nil
    then show ?thesis using Cons.IH [of best] by simp
  next
    case (Cons x rest)
    obtain k ent where x: "x = (k, ent)" by fastforce
    have f: "umap_find d k = Some ent" using bucket_nodes_find [OF assms] Cons x by blast
    have st: "sampled_time (Some (k, ent)) = last_access_ms ent" by (simp add: sampled_time_def)
    show ?thesis
    proof (cases "last_access_ms ent < sampled_time best")
      case True
      then show ?thesis
        using Cons.IH [of "Some (k, ent)"] Cons x f by (auto simp: st)
    next
      case False
      then show ?thesis using Cons.IH [of best] Cons x f by (auto simp: not_less)
    qed
  qed
qed simp

text \<open>C31. Sampling picks the least recently used: the victim of a round was last accessed no later than
  the first node of any of the five sampled buckets.\<close>

theorem choose_victim_oldest:
  assumes "umap_invar d" and "j < 5" and "bucket_nodes L d (dr (i + j) (bucket_count d)) = (k, ent) # rest"
  shows "last_access_ms (snd (choose_victim L dr i d)) \<le> last_access_ms ent"
proof -
  let ?bs = "map (\<lambda>j. dr (i + j) (bucket_count d)) [0..<5]"
  have "dr (i + j) (bucket_count d) \<in> set ?bs" using assms(2) by auto
  then have "sampled_time (sample_buckets L d ?bs (sampled_time None) None) \<le> last_access_ms ent"
    using sample_buckets_oldest [OF assms(1)] assms(3) by blast
  then show ?thesis
    by (cases "sample_buckets L d ?bs (- 1) None")
      (auto simp: choose_victim_def sampled_time_def intro: order_trans [OF word_order.extremum])
qed

definition ex_dict :: dict where
  "ex_dict = umap_emplace ex_lib ''new'' \<lparr>entry_value = fresh ''1'', expire_at_ms = 0, last_access_ms = 9\<rparr>
     (umap_emplace ex_lib ''old'' \<lparr>entry_value = fresh ''2'', expire_at_ms = 0, last_access_ms = 3\<rparr>
       \<lparr>nodes = [], bucket_count = 2\<rparr>)"

theorem choose_victim_oldest_witness:
  "last_access_ms (snd (choose_victim ex_lib (\<lambda>i n. i mod n) 0 ex_dict)) \<le> 9"
proof -
  have "umap_invar ex_dict" and "(1::nat) < 5"
    and "bucket_nodes ex_lib ex_dict ((\<lambda>i n. i mod n) (0 + 1) (bucket_count ex_dict)) =
      (''new'', \<lparr>entry_value = fresh ''1'', expire_at_ms = 0, last_access_ms = 9\<rparr>) #
      [(''old'', \<lparr>entry_value = fresh ''2'', expire_at_ms = 0, last_access_ms = 3\<rparr>)]"
    by code_simp+
  from choose_victim_oldest [of ex_dict 1 ex_lib "\<lambda>i n. i mod n" 0, OF this] show ?thesis by simp
qed

text \<open>C30. Eviction frees what was asked for or empties the shard; it only removes entries of that shard,
  the number it returns is exactly the bytes these entries were charged at, the memory counter is
  moved by as much, and each removed entry is counted once.\<close>

theorem evict_from_shard_correct:
  assumes "engine_invar L e" and "idx < length (shards e)" and "0 < bucket_count (shards e ! idx)"
    and "evict_from_shard L tk idx needed e = (freed, e')"
  shows "(needed \<le> freed \<or> nodes (shards e' ! idx) = []) \<and>
     freed = dict_bytes (shards e ! idx) - dict_bytes (shards e' ! idx) \<and> drift e' = drift e \<and>
     (\<exists>V. (\<forall>k\<in>V. engine_lookup L e k \<noteq> None \<and> get_shard_index L e k = idx) \<and>
        engine_lookup L e' = (\<lambda>k. if k \<in> V then None else engine_lookup L e k) \<and>
        evicted_keys e' = evicted_keys e + of_nat (card V))"
proof -
  note ev = evict_from_shard_props [OF assms(1,2,4)]
  then obtain V where V: "evicted_from L idx V e e'" by blast
  then have "drift e' = drift e"
    and "\<exists>V. (\<forall>k\<in>V. engine_lookup L e k \<noteq> None \<and> get_shard_index L e k = idx) \<and>
        engine_lookup L e' = (\<lambda>k. if k \<in> V then None else engine_lookup L e k) \<and>
        evicted_keys e' = evicted_keys e + of_nat (card V)"
    by (auto simp: evicted_from_def)
  with ev(3,4) assms(3) show ?thesis by simp
qed

theorem evict_from_shard_correct_witness:
  "fst (evict_from_shard ex_lib (ex_tick 7) 0 50 ex_engine) =
     dict_bytes (shards ex_engine ! 0) - dict_bytes (shards (snd (evict_from_shard ex_lib (ex_tick 7) 0 50 ex_engine)) ! 0)"
proof -
  have "engine_invar ex_lib ex_engine" and "0 < length (shards ex_engine)" and "0 < bucket_count (shards ex_engine ! 0)"
    by code_simp+
  from evict_from_shard_correct [OF this prod.collapse [symmetric]] show ?thesis by blast
qed

text \<open>C29. \<open>set\<close> under a memory limit: when it succeeds, the key has the new value and no deadline; every
  other key either shows what it showed before or was evicted, and it can only have been evicted
  when it shares the shard of the key that was set.\<close>

theorem storage_set_under_limit:
  assumes "engine_invar L e" and "storage_set L tk key v e = (True, e')" and "k \<noteq> key"
  shows "view L e' now key = Some (v, 0) \<and>
     (view L e' now k = view L e now k \<or>
      (view L e' now k = None \<and> get_shard_index L e k = get_shard_index L e key))"
proof -
  obtain V where V: "\<forall>k\<in>V. engine_lookup L e k \<noteq> None \<and> get_shard_index L e k = get_shard_index L e key"
    and st: "stores L key v (set_entry (now_ms tk) v (if key \<in> V then None else engine_lookup L e key)) V e e'"
    by (rule storage_set_props [OF assms(1,2)]) simp
  have "view L e' now = (without V (view L e now))(key \<mapsto> (v, 0))"
    using view_stores [OF st, of now] by (simp add: entry_view_def is_expired_deadline)
  then show ?thesis using V assms(3) by (auto simp: without_def)
qed

theorem storage_set_under_limit_witness:
  "view ex_lib (snd (storage_set ex_lib (ex_tick 7) ''zz'' ''1'' (set_max_memory 230 ex_engine))) 1001 ''zz'' = Some (''1'', 0)"
proof -
  let ?e = "set_max_memory 230 ex_engine"
  have "engine_invar ex_lib ?e" and "storage_set ex_lib (ex_tick 7) ''zz'' ''1'' ?e =
      (True, snd (storage_set ex_lib (ex_tick 7) ''zz'' ''1'' ?e))" and "''n'' \<noteq> ''zz''"
    by code_simp+
  from storage_set_under_limit [OF this] show ?thesis by blast
qed

text \<open>C32. A refused \<open>set\<close> is not harmless: when it reports that memory does not suffice, the whole shard of
  the key has been emptied, the old value of the key included, while the other shards are
  untouched.\<close>

theorem storage_set_refused:
  assumes "engine_invar L e" and "0 < bucket_count (shard_of L e key)"
    and "storage_set L tk key v e = (False, e')"
  shows "view L e' now k = (if get_shard_index L e k = get_shard_index L e key then None else view L e now k)"
proof -
  obtain V where ev: "evicted_from L (get_shard_index L e key) V e e'"
    and empty: "nodes (shard_of L e' key) = []" and len: "length (shards e') = length (shards e)"
    by (rule storage_set_props [OF assms(1,3)]) (use assms(2) in auto)
  show ?thesis
  proof (cases "get_shard_index L e k = get_shard_index L e key")
    case True
    then have "shard_of L e' k = shard_of L e' key"
      using len by (simp add: shard_of_def get_shard_index_def)
    then show ?thesis using True empty by (simp add: view_eq engine_lookup_def umap_find_def)
  next
    case False
    then show ?thesis using ev view_evicted_from [OF ev, of now] by (auto simp: evicted_from_def without_def)
  qed
qed

theorem storage_set_refused_witness:
  "view ex_lib (snd (storage_set ex_lib (ex_tick 7) ''zz'' ''1'' (set_max_memory 1 ex_engine))) 1001 ''ab'' = None"
proof -
  let ?e = "set_max_memory 1 ex_engine"
  have "engine_invar ex_lib ?e" and "0 < bucket_count (shard_of ex_lib ?e ''zz'')"
    and "storage_set ex_lib (ex_tick 7) ''zz'' ''1'' ?e =
      (False, snd (storage_set ex_lib (ex_tick 7) ''zz'' ''1'' ?e))"
    and i: "get_shard_index ex_lib ?e ''ab'' = get_shard_index ex_lib ?e ''zz''"
    by code_simp+
  from storage_set_refused [OF this(1-3), of 1001 "''ab''"] i show ?thesis by simp
qed

section \<open>The memory ledger\<close>



text \<open>The ledger drifts: after a long value was stored under a new key, overwritten by a shorter one
  and deleted, the memory counter is lower than before by the capacity that the overwriting kept but
  did not charge for, although the tables are as they were.\<close>

lemma overwrite_then_delete_drifts:
  assumes "engine_invar L e" and "max_memory_bytes e = 0" and "engine_lookup L e key = None"
    and "15 < length v" and "length w \<le> length v"
    and "storage_set L tk key v e = (ok, e1)" and "storage_set L tk' key w e1 = (ok', e2)"
    and "storage_del L [key] e2 = (n, e3)"
  shows "engine_lookup L e3 = engine_lookup L e \<and>
     drift e3 = drift e - of_nat (length v) + of_nat (max 15 (length w))"
proof -
  note s1 = storage_set_unlimited [OF assms(1,2,6)]
  have l1: "engine_lookup L e1 = (engine_lookup L e)(key \<mapsto> set_entry (now_ms tk) v None)" and d1: "drift e1 = drift e"
    using s1(3) assms(3) by (auto simp: stores_def set_entry_def)
  have m1: "max_memory_bytes e1 = 0"
    by (rule storage_set_props [OF assms(1,6)]) (use assms(2) in simp)
  note s2 = storage_set_unlimited [OF s1(2) m1 assms(7)]
  note d = storage_del_props [OF s2(2) assms(8)]
  have "engine_lookup L e3 = engine_lookup L e"
    using d s2(3) l1 assms(3) by (auto simp: stores_def fun_eq_iff)
  moreover have "drift e3 = drift e1 + (entry_cost key (fresh w) -
      entry_cost key (entry_value (set_entry (now_ms tk') w (engine_lookup L e1 key))))"
    using d s2(3) by (simp add: keeps_def stores_def)
  ultimately show ?thesis
    using d1 l1 assms(4,5)
    by (simp add: set_entry_def fresh_def copy_assign_def entry_cost_def fresh_capacity_def)
qed

text \<open>\<open>get\<close> and \<open>exists\<close> account for every key asked about, once, as a hit when it is alive and as a miss
  otherwise; \<open>exists\<close> returns the number of its hits.\<close>

lemma storage_exists_counts:
  assumes "engine_invar L e" and "storage_exists L now keys e = (n, e')"
  shows "keyspace_hits e' = keyspace_hits e + of_int n \<and>
     keyspace_misses e' = keyspace_misses e + of_nat (length keys) - of_int n"
  using assms
proof (induction keys arbitrary: e n)
  case (Cons key keys)
  show ?case
  proof (cases rule: lookup_cases [of L e key now])
    case absent
    then have "engine_invar L (count_miss e)" and "storage_exists L now keys (count_miss e) = (n, e')"
      using Cons.prems by (simp_all add: engine_simps flip: engine_lookup_def)
    from Cons.IH [OF this] show ?thesis by (simp add: count_miss_def algebra_simps)
  next
    case (dead ent)
    let ?e = "count_miss (count_expired (erase_entry L key ent e))"
    have "engine_invar L ?e" and "storage_exists L now keys ?e = (n, e')"
      using Cons.prems dead erase_entry_props(1) [OF Cons.prems(1) dead(1)]
      by (simp_all add: engine_simps flip: engine_lookup_def)
    from Cons.IH [OF this] show ?thesis
      by (simp add: count_miss_def count_expired_def erase_entry_def algebra_simps)
  next
    case (alive ent)
    let ?e = "update_entry L key (\<lambda>ent. ent\<lparr>last_access_ms := now\<rparr>) e"
    obtain m where m: "storage_exists L now keys (count_hit ?e) = (m, e')" "n = m + 1"
      using Cons.prems(2) alive by (auto simp: Let_def simp flip: engine_lookup_def split: prod.splits)
    have "engine_invar L (count_hit ?e)"
      using update_entry_props(1) [OF Cons.prems(1) alive(1)] by (simp add: engine_simps)
    from Cons.IH [OF this m(1)] m(2) show ?thesis
      by (simp add: count_hit_def update_entry_def algebra_simps)
  qed
qed simp

text \<open>A deadline takes effect exactly on time: after a successful \<open>expire\<close> by \<open>ms\<close> milliseconds that does
  not wrap, \<open>get\<close> returns the value while the clock shows less than the deadline and nothing from the
  deadline on.\<close>

lemma expire_takes_effect:
  assumes "engine_invar L e" and "storage_expire L now key ms e = (True, e')"
    and "0 < ms" and "uint now + ms < 2 ^ 64" and "now \<le> t" and "storage_get L t key e' = (r, e'')"
  shows "r = (if t < now + of_int ms then map_option fst (view L e now key) else None)"
proof -
  have ea: "storage_expire_at L now key (now + of_int ms) e = (True, e')"
    using assms(2) by (simp add: storage_expire_eq)
  note ep = storage_expire_at_props [OF assms(1) ea]
  then have "engine_invar L e'" using assms(1) by (simp add: keeps_def)
  note r = storage_get_props [OF this assms(6)]
  have "ms < 2 ^ 64" using assms(4) uint_ge_0 [of now] by linarith
  then have "uint (now + of_int ms) = uint now + ms"
    using assms(3,4) uint_ge_0 [of now] by (simp add: uint_word_ariths uint_word_of_int)
  then have pos: "0 < now + of_int ms" using assms(3) by (simp add: word_less_def add_nonneg_pos)
  obtain v d where v: "view L e now key = Some (v, d)"
    using ep by (cases "view L e now key") (auto simp: spec_expire_at_def)
  have "view L e' t key = (if t < now + of_int ms then Some (v, now + of_int ms) else None)"
  proof -
    have "view L e' t key = purge t (purge now ((view L e now)(key \<mapsto> (v, now + of_int ms)))) key"
      using ep v view_later [OF assms(5), of L e'] by (simp add: spec_expire_at_def)
    then show ?thesis using pos assms(5) by (auto simp: purge_def deadline_passed_def not_less)
  qed
  then show ?thesis using r v by simp
qed

end
