(* ===== verification/Dispatcher_Theorems.thy ===== *)
theory Dispatcher_Theorems
  imports Dispatcher Engine_Theorems
begin

text \<open>
  The properties of the dispatcher, of any command on any branch: what it may append to the log
  (\<open>run_command_outcome\<close>, one lemma per command underneath), which requests run into undefined
  behaviour, that a replica refuses writes, and that every reply can be parsed back.
\<close>

section \<open>What every command does to the log and the counters\<close>

lemmas answer_defs = answer_def wrong_number_def log_when_def

lemmas command_defs =
  cmd_ping_def cmd_echo_def cmd_quit_def cmd_set_def cmd_get_def cmd_del_def cmd_exists_def
  cmd_incr_def cmd_decr_def cmd_counter_def cmd_expire_def cmd_pexpireat_def cmd_ttl_def
  cmd_persist_def cmd_info_def cmd_config_def cmd_psync_def

text \<open>The frames \<open>vs\<close> are what \<open>w'\<close> has logged beyond \<open>w\<close>; the process-wide counters are as they were.\<close>

definition logs :: "RESPValue list \<Rightarrow> System \<Rightarrow> System \<Rightarrow> bool" where
  "logs vs w w' \<longleftrightarrow>
     aof_logger w' = fold (\<lambda>v. aof_log (serialize v)) vs (aof_logger w) \<and>
     commands_processed w' = commands_processed w \<and> connected_clients w' = connected_clients w"

lemma logs_Nil [simp]: "logs [] w w" "logs [] w (w\<lparr>storage_engine := e\<rparr>)"
  by (simp_all add: logs_def)

lemma logs_log_when:
  "logs (if b then [v] else []) w (log_when b v (w\<lparr>storage_engine := e\<rparr>))"
  by (simp add: logs_def log_when_def)

text \<open>The outcome of a command that logs \<open>vs\<close> only when \<open>logging\<close> allows it.\<close>

fun outcome_ok :: "(RESPValue list \<Rightarrow> bool) \<Rightarrow> bool \<Rightarrow> System \<Rightarrow> dispatched \<Rightarrow> bool" where
  "outcome_ok P logging w Diverges = False"
| "outcome_ok P logging w (Faults f) = (f = Signed_overflow)"
| "outcome_ok P logging w (Returns (r, w')) = (\<exists>vs. logs vs w w' \<and> (vs = [] \<or> logging \<and> P vs))"

lemma outcome_answer [simp]: "outcome_ok P lg w (answer v w)"
  "outcome_ok P lg w (answer v (w\<lparr>storage_engine := e\<rparr>))" "outcome_ok P lg w (wrong_number s w)"
  by (auto simp: answer_defs intro: exI [of _ "[]"])

lemma outcome_log:
  "P [v] \<Longrightarrow> outcome_ok P (aof \<and> \<not> bp) w (answer u (log_when (aof \<and> \<not> bp) v (w\<lparr>storage_engine := e\<rparr>)))"
  "P [v] \<Longrightarrow> outcome_ok P (aof \<and> \<not> bp) w (answer u (log_when (aof \<and> \<not> bp \<and> res) v (w\<lparr>storage_engine := e\<rparr>)))"
  using logs_log_when [of "aof \<and> \<not> bp" v w e] logs_log_when [of "aof \<and> \<not> bp \<and> res" v w e]
  by (auto simp: answer_def split: if_splits)

lemma storage_step_total: "storage_step L tk d key e \<noteq> Diverges"
  "storage_step L tk d key e = Faults f \<Longrightarrow> f = Signed_overflow"
  by (auto simp: storage_step_def store_number_def Let_def split: option.splits sum.splits if_splits prod.splits)

lemma outcome_counter:
  assumes "op = storage_step L tk d key" and "P [request]"
  shows "outcome_ok P (aof \<and> \<not> bp) w (cmd_counter op name request aof bp w)"
proof (cases "op (storage_engine w)")
  case (Returns x)
  obtain res e where "x = (res, e)" by fastforce
  with Returns show ?thesis
    by (auto simp: cmd_counter_def Let_def intro!: outcome_log assms(2) split: option.split)
qed (use storage_step_total [of L tk d key "storage_engine w"] assms(1) in \<open>auto simp: cmd_counter_def\<close>)

lemma outcome_readers [simp]:
  "outcome_ok P lg w (cmd_ping request w)" "outcome_ok P lg w (cmd_echo request w)"
  "outcome_ok P lg w (cmd_quit request w)" "outcome_ok P lg w (cmd_get L cl request w)"
  "outcome_ok P lg w (cmd_exists L cl request w)" "outcome_ok P lg w (cmd_ttl L cl cmd request w)"
  "outcome_ok P lg w (cmd_info request aof ro w)" "outcome_ok P lg w (cmd_config request w)"
  "outcome_ok P lg w (cmd_psync request w)"
          apply (simp add: cmd_ping_def)
         apply (simp add: cmd_echo_def)
        apply (auto simp: cmd_quit_def intro: exI [of _ "[]"])[1]
       apply (simp add: cmd_get_def Let_def split: prod.split option.split)
      apply (simp add: cmd_exists_def Let_def split: prod.split)
     apply (simp add: cmd_ttl_def Let_def split: prod.split)
    apply (simp add: cmd_info_def Let_def)
   apply (simp add: cmd_config_def split: sum.split)
  apply (auto simp: cmd_psync_def split: sum.split intro: exI [of _ "[]"])
  done

lemma outcome_writers:
  assumes "P [request]"
  shows "outcome_ok P (aof \<and> \<not> bp) w (cmd_set L cl request aof bp w)"
    and "outcome_ok P (aof \<and> \<not> bp) w (cmd_del L request aof bp w)"
    and "outcome_ok P (aof \<and> \<not> bp) w (cmd_incr L cl request aof bp w)"
    and "outcome_ok P (aof \<and> \<not> bp) w (cmd_decr L cl request aof bp w)"
    and "outcome_ok P (aof \<and> \<not> bp) w (cmd_pexpireat L cl request aof bp w)"
    and "outcome_ok P (aof \<and> \<not> bp) w (cmd_persist L cl request aof bp w)"
proof -
  note log = outcome_log [where P = P and v = request, OF assms]
  show "outcome_ok P (aof \<and> \<not> bp) w (cmd_set L cl request aof bp w)"
    by (simp add: cmd_set_def Let_def log split: prod.split)
  show "outcome_ok P (aof \<and> \<not> bp) w (cmd_del L request aof bp w)"
    by (simp add: cmd_del_def Let_def log split: prod.split)
  show "outcome_ok P (aof \<and> \<not> bp) w (cmd_incr L cl request aof bp w)"
    unfolding cmd_incr_def
    by (rule outcome_counter [of _ L "engine_tick cl" 1 "arg request 1"])
      (simp_all add: storage_incr_def fun_eq_iff assms)
  show "outcome_ok P (aof \<and> \<not> bp) w (cmd_decr L cl request aof bp w)"
    unfolding cmd_decr_def
    by (rule outcome_counter [of _ L "engine_tick cl" "- 1" "arg request 1"])
      (simp_all add: storage_decr_def fun_eq_iff assms)
  show "outcome_ok P (aof \<and> \<not> bp) w (cmd_pexpireat L cl request aof bp w)"
    by (simp add: cmd_pexpireat_def Let_def log split: prod.split sum.split)
  show "outcome_ok P (aof \<and> \<not> bp) w (cmd_persist L cl request aof bp w)"
    by (simp add: cmd_persist_def Let_def log split: prod.split)
qed

lemma outcome_expire:
  assumes "\<And>t. P [pexpireat_cmd (arg request 1) t]"
  shows "outcome_ok P (aof \<and> \<not> bp) w (cmd_expire L cl cmd request aof bp w)"
  by (simp add: cmd_expire_def Let_def outcome_log(2) [where P = P, OF assms]
      del: One_nat_def split: prod.split sum.split)

text \<open>What may be logged for a request with this command name: the request itself, or the absolute form
  of a relative deadline.\<close>

definition loggable :: "string \<Rightarrow> RESPValue \<Rightarrow> RESPValue list \<Rightarrow> bool" where
  "loggable cmd request vs \<longleftrightarrow>
     is_mutating_command cmd \<and>
     (if cmd = ''EXPIRE'' \<or> cmd = ''PEXPIRE'' then \<exists>t. vs = [pexpireat_cmd (arg request 1) t]
      else vs = [request])"

lemma mutating_iff:
  "is_mutating_command cmd \<longleftrightarrow>
     (cmd = ''EXPIRE'' \<or> cmd = ''PEXPIRE'') \<or>
     cmd \<in> {''SET'', ''DEL'', ''INCR'', ''DECR'', ''PEXPIREAT'', ''PERSIST''}"
  by (simp only: is_mutating_command_def insert_iff empty_iff simp_thms disj_ac)

lemma run_command_outcome:
  "outcome_ok (loggable cmd request) (aof \<and> \<not> bp) w (run_command L cl cmd request aof ro bp w)"
proof (cases "cmd = ''EXPIRE'' \<or> cmd = ''PEXPIRE''")
  case True
  then have "run_command L cl cmd request aof ro bp w = cmd_expire L cl cmd request aof bp w"
    by (elim disjE) (simp_all add: run_command_def)
  moreover have "loggable cmd request [pexpireat_cmd (arg request 1) t]" for t
    unfolding loggable_def mutating_iff using True by auto
  ultimately show ?thesis by (simp only: outcome_expire)
next
  case relative: False
  show ?thesis
  proof (cases "cmd \<in> {''SET'', ''DEL'', ''INCR'', ''DECR'', ''PEXPIREAT'', ''PERSIST''}")
    case True
    have "loggable cmd request [request]"
      unfolding loggable_def mutating_iff using True relative by (simp only: simp_thms if_False)
    from outcome_writers [where P = "loggable cmd request", OF this] True show ?thesis
      by (elim insertE emptyE) (simp_all add: run_command_def)
  next
    case False
    then show ?thesis using relative by (simp add: run_command_def)
  qed
qed

section \<open>Dispatching\<close>

definition valid_request :: "RESPValue \<Rightarrow> bool" where
  "valid_request request \<longleftrightarrow>
     resp_type request = Array \<and> array_value request \<noteq> [] \<and>
     resp_type (array_value request ! 0) \<in> {BulkString, SimpleString}"

definition command_of :: "RESPValue \<Rightarrow> string" where
  "command_of request = to_upper (arg request 0)"

definition counted :: "System \<Rightarrow> System" where
  "counted w = w\<lparr>commands_processed := commands_processed w + 1\<rparr>"

lemma counted_simps [simp]:
  "storage_engine (counted w) = storage_engine w" "aof_logger (counted w) = aof_logger w"
  "connected_clients (counted w) = connected_clients w"
  "commands_processed (counted w) = commands_processed w + 1"
  by (simp_all add: counted_def)

text \<open>A request is refused before its command is looked at, or its command runs.\<close>

lemma dispatch_runs:
  assumes "valid_request request" and "\<not> (ro \<and> \<not> bp \<and> is_mutating_command (command_of request))"
  shows "dispatch L cl request aof ro bp w =
     run_command L cl (command_of request) request aof ro bp (counted w)"
  using assms by (auto simp: dispatch_def valid_request_def command_of_def arg_def counted_def Let_def)

lemma dispatch_cases:
  obtains (refused) v where "dispatch L cl request aof ro bp w = answer (create_error v) (counted w)"
      and "CHR 0x0D \<notin> set v"
  | (runs) "valid_request request" "\<not> (ro \<and> \<not> bp \<and> is_mutating_command (command_of request))"
      "dispatch L cl request aof ro bp w =
         run_command L cl (command_of request) request aof ro bp (counted w)"
proof (cases "valid_request request \<and> \<not> (ro \<and> \<not> bp \<and> is_mutating_command (command_of request))")
  case True
  then show thesis using dispatch_runs by (intro runs) auto
next
  case False
  show thesis
  proof (cases "resp_type request \<noteq> Array \<or> array_value request = []")
    case True
    then show thesis
      by (intro refused [of "''ERR invalid request type, expected array of bulk strings''"])
        (auto simp: dispatch_def counted_def)
  next
    case c2: False
    show thesis
    proof (cases "resp_type (array_value request ! 0) \<in> {BulkString, SimpleString}")
      case c3: False
      then show thesis using c2
        by (intro refused [of "''ERR invalid command format''"]) (auto simp: dispatch_def counted_def)
    next
      case c3: True
      then show thesis using False c2
        by (intro refused [of readonly_error])
          (auto simp: readonly_error_def dispatch_def counted_def valid_request_def command_of_def arg_def Let_def)
    qed
  qed
qed


definition bulk_array :: "string list \<Rightarrow> RESPValue" where
  "bulk_array ss = create_array (map create_bulk_string ss)"

definition ex_system :: System where
  "ex_system =
     \<lparr>storage_engine = ex_engine,
      aof_logger = \<lparr>filepath = ''appendonly.aof'', is_open = True, file_content = []\<rparr>,
      commands_processed = 0, connected_clients = 1\<rparr>"

definition ex_call :: "u64 \<Rightarrow> call" where
  "ex_call t = \<lparr>engine_tick = ex_tick t, log_clock = t\<rparr>"


lemma dispatch_logs_frame:
  assumes "dispatch L cl request aof ro bp w = Returns (r, w')" and "is_open (aof_logger w)"
    and "resp_wf request"
  shows "\<exists>vs. file_content (aof_logger w') = file_content (aof_logger w) @ concat (map serialize vs) \<and>
     length vs \<le> 1 \<and> (vs \<noteq> [] \<longrightarrow> aof \<and> \<not> bp \<and> \<not> ro) \<and>
     (\<forall>v\<in>set vs. valid_request v \<and> is_mutating_command (command_of v) \<and> resp_wf v \<and>
        resp_depth v \<le> max 2 (resp_depth request))"
proof (cases rule: dispatch_cases [of L cl request aof ro bp w])
  case (refused v)
  then show ?thesis using assms(1) by (auto simp: answer_def intro: exI [of _ "[]"])
next
  case runs
  have "outcome_ok (loggable (command_of request) request) (aof \<and> \<not> bp) (counted w) (Returns (r, w'))"
    using run_command_outcome runs(3) assms(1) by metis
  then obtain vs where vs: "logs vs (counted w) w'"
    and l: "vs = [] \<or> aof \<and> \<not> bp \<and> loggable (command_of request) request vs" by auto
  then have "length vs \<le> 1" by (auto simp: loggable_def split: if_splits)
  moreover from this vs have "file_content (aof_logger w') = file_content (aof_logger w) @ concat (map serialize vs)"
    using assms(2) by (cases vs) (auto simp: logs_def)
  moreover have "valid_request v \<and> is_mutating_command (command_of v) \<and> resp_wf v \<and>
      resp_depth v \<le> max 2 (resp_depth request)" if "v \<in> set vs" for v
  proof -
    have "valid_request (pexpireat_cmd k t) \<and> command_of (pexpireat_cmd k t) = ''PEXPIREAT'' \<and>
        resp_wf (pexpireat_cmd k t) \<and> resp_depth (pexpireat_cmd k t) = 2" for k t
      by (simp add: valid_request_def command_of_def arg_def pexpireat_cmd_def create_bulk_string_def
          to_upper_def toupper_char_def)
    then show ?thesis
      using l that runs(1) assms(3) by (auto simp: loggable_def is_mutating_command_def split: if_splits)
  qed
  ultimately show ?thesis
    using l runs(2) by (intro exI [of _ vs]) (auto simp: loggable_def)
qed

text \<open>C16. What a dispatched command writes to the log: nothing, or one frame behind what is there, and a
  frame only when a log is attached, the command is not being replayed and the server is no
  replica. The frame is a write command in the form of a request; it is well-formed and nests no
  deeper than the request (or two levels), so that it can be parsed back.\<close>

theorem dispatch_log:
  assumes "dispatch L cl request aof ro bp w = Returns (r, w')" and "is_open (aof_logger w)"
    and "resp_wf request"
  shows "\<exists>vs. file_content (aof_logger w') = file_content (aof_logger w) @ concat (map serialize vs) \<and>
     length vs \<le> 1 \<and> (vs \<noteq> [] \<longrightarrow> aof \<and> \<not> bp \<and> \<not> ro) \<and>
     (\<forall>v\<in>set vs. valid_request v \<and> is_mutating_command (command_of v) \<and> resp_wf v \<and>
        resp_depth v \<le> max 2 (resp_depth request))"
  using assms by (rule dispatch_logs_frame)

theorem dispatch_log_witness:
  "\<exists>vs r w'. dispatch ex_lib (ex_call 1001) (bulk_array [''Set'', ''n'', ''1'']) True False False ex_system = Returns (r, w') \<and>
     file_content (aof_logger w') = file_content (aof_logger ex_system) @ concat (map serialize vs) \<and> length vs \<le> 1"
proof -
  let ?d = "dispatch ex_lib (ex_call 1001) (bulk_array [''Set'', ''n'', ''1'']) True False False ex_system"
  have "returns ?d" by code_simp
  then obtain r w' where d: "?d = Returns (r, w')" by (auto elim: returnsE)
  have "is_open (aof_logger ex_system)" and "resp_wf (bulk_array [''Set'', ''n'', ''1''])"
    by code_simp+
  from dispatch_log [OF d this] show ?thesis
  proof (elim exE conjE)
    fix vs
    assume "file_content (aof_logger w') = file_content (aof_logger ex_system) @ concat (map serialize vs)"
      and "length vs \<le> 1"
    then show ?thesis by (intro exI conjI) (rule d)
  qed
qed

section \<open>Undefined behaviour\<close>

lemma store_number_fault: "store_number L tk key it t n e = Faults f \<longleftrightarrow> f = Signed_overflow \<and> \<not> in_int64 n"
  by (auto simp: store_number_def Let_def split: prod.splits)

lemma storage_step_fault:
  "storage_step L tk d key e = Faults f \<longleftrightarrow>
     f = Signed_overflow \<and>
     (case view L e (now_ms tk) key of
        None \<Rightarrow> \<not> in_int64 d
      | Some (v, _) \<Rightarrow> \<exists>n. from_chars_i64 v = Inr (n, []) \<and> \<not> in_int64 (n + d))"
proof (cases rule: lookup_cases [of L e key "now_ms tk"])
  case absent
  then show ?thesis by (simp add: storage_step_def store_number_fault flip: engine_lookup_def)
next
  case (dead ent)
  then show ?thesis by (simp add: storage_step_def store_number_fault flip: engine_lookup_def)
next
  case (alive ent)
  then show ?thesis
    by (auto simp: storage_step_def store_number_fault entry_view_def simp flip: engine_lookup_def
        split: sum.splits)
qed

lemma incr_fault:
  "storage_incr L tk key e = Faults f \<longleftrightarrow>
     f = Signed_overflow \<and>
     (\<exists>v t. view L e (now_ms tk) key = Some (v, t) \<and> from_chars_i64 v = Inr (int64_max, []))"
proof -
  have "from_chars_i64 v = Inr (n, []) \<Longrightarrow> \<not> in_int64 (n + 1) \<longleftrightarrow> n = int64_max" for v n
    using from_chars_i64_range [of v n "[]"] by (auto simp: int64_defs)
  moreover have "in_int64 1" by (simp add: int64_defs)
  ultimately show ?thesis
    by (auto simp: storage_incr_def storage_step_fault split: option.splits)
qed

lemma decr_fault:
  "storage_decr L tk key e = Faults f \<longleftrightarrow>
     f = Signed_overflow \<and>
     (\<exists>v t. view L e (now_ms tk) key = Some (v, t) \<and> from_chars_i64 v = Inr (int64_min, []))"
proof -
  have "from_chars_i64 v = Inr (n, []) \<Longrightarrow> \<not> in_int64 (n - 1) \<longleftrightarrow> n = int64_min" for v n
    using from_chars_i64_range [of v n "[]"] by (auto simp: int64_defs)
  moreover have "in_int64 (- 1)" by (simp add: int64_defs)
  ultimately show ?thesis
    by (auto simp: storage_decr_def storage_step_fault split: option.splits)
qed

lemma cmd_counter_fault:
  "cmd_counter op name request aof bp w = Faults f \<longleftrightarrow> argc request = 2 \<and> op (storage_engine w) = Faults f"
  by (cases "op (storage_engine w)") (auto simp: cmd_counter_def answer_defs Let_def split: option.splits)

lemma cmd_expire_fault:
  "cmd_expire L cl cmd request aof bp w = Faults f \<longleftrightarrow>
     argc request = 3 \<and> f = Signed_overflow \<and>
     (\<exists>s rest. from_chars_i64 (arg request 2) = Inr (s, rest) \<and> cmd = ''EXPIRE'' \<and> \<not> in_int64 (s * 1000))"
  by (auto simp: cmd_expire_def answer_defs Let_def split: sum.splits prod.splits dest: from_chars_i64_range)

lemma other_commands_no_fault:
  assumes "cmd \<notin> {''INCR'', ''DECR'', ''EXPIRE'', ''PEXPIRE''}"
  shows "run_command L cl cmd request aof ro bp w \<noteq> Faults f"
proof -
  have "cmd_set L cl request aof bp w \<noteq> Faults f" "cmd_get L cl request w \<noteq> Faults f"
    "cmd_del L request aof bp w \<noteq> Faults f" "cmd_exists L cl request w \<noteq> Faults f"
    "cmd_pexpireat L cl request aof bp w \<noteq> Faults f" "cmd_ttl L cl cmd request w \<noteq> Faults f"
    "cmd_persist L cl request aof bp w \<noteq> Faults f"
    by (auto simp: command_defs answer_defs Let_def split: prod.splits option.splits sum.splits)
  moreover have "cmd_ping request w \<noteq> Faults f" "cmd_echo request w \<noteq> Faults f"
    "cmd_quit request w \<noteq> Faults f" "cmd_info request aof ro w \<noteq> Faults f"
    "cmd_config request w \<noteq> Faults f" "cmd_psync request w \<noteq> Faults f"
    by (auto simp: command_defs answer_defs Let_def split: sum.splits)
  ultimately show ?thesis using assms by (simp add: run_command_def answer_def)
qed

text \<open>C19. The dispatcher always comes back, and the only way for it to go wrong is signed overflow, in three
  situations: \<open>INCR\<close> on the largest and \<open>DECR\<close> on the smallest 64-bit number, and \<open>EXPIRE\<close> with a
  number of seconds whose milliseconds do not fit.\<close>

theorem dispatch_faults:
  "dispatch L cl request aof ro bp w \<noteq> Diverges \<and>
   (dispatch L cl request aof ro bp w = Faults f \<longleftrightarrow>
      f = Signed_overflow \<and> valid_request request \<and> \<not> (ro \<and> \<not> bp) \<and>
      (let now = now_ms (engine_tick cl); m = view L (storage_engine w) now; cmd = command_of request in
       cmd = ''INCR'' \<and> argc request = 2 \<and>
         (\<exists>v t. m (arg request 1) = Some (v, t) \<and> from_chars_i64 v = Inr (int64_max, [])) \<or>
       cmd = ''DECR'' \<and> argc request = 2 \<and>
         (\<exists>v t. m (arg request 1) = Some (v, t) \<and> from_chars_i64 v = Inr (int64_min, [])) \<or>
       cmd = ''EXPIRE'' \<and> argc request = 3 \<and>
         (\<exists>s rest. from_chars_i64 (arg request 2) = Inr (s, rest) \<and> \<not> in_int64 (s * 1000))))"
  (is "_ \<and> (_ \<longleftrightarrow> ?rhs)")
proof
  show "dispatch L cl request aof ro bp w \<noteq> Diverges"
  proof (cases rule: dispatch_cases [of L cl request aof ro bp w])
    case runs
    then show ?thesis using run_command_outcome by (metis outcome_ok.simps(1))
  qed (simp add: answer_def)
  show "dispatch L cl request aof ro bp w = Faults f \<longleftrightarrow> ?rhs"
  proof (cases "valid_request request \<and> \<not> (ro \<and> \<not> bp \<and> is_mutating_command (command_of request))")
    case True
    then have d: "dispatch L cl request aof ro bp w =
        run_command L cl (command_of request) request aof ro bp (counted w)"
      using dispatch_runs by blast
    consider "command_of request \<in> {''INCR'', ''DECR'', ''EXPIRE''}" | "command_of request = ''PEXPIRE''"
      | "command_of request \<notin> {''INCR'', ''DECR'', ''EXPIRE'', ''PEXPIRE''}" by blast
    then show ?thesis
    proof cases
      case 1
      then show ?thesis
        using True unfolding d
        by (auto simp: run_command_def is_mutating_command_def cmd_incr_def cmd_decr_def cmd_counter_fault
            cmd_expire_fault incr_fault decr_fault Let_def)
    next
      case 2
      then show ?thesis unfolding d by (simp add: run_command_def cmd_expire_fault)
    next
      case 3
      then show ?thesis using other_commands_no_fault [OF 3] unfolding d by (auto simp: Let_def)
    qed
  next
    case False
    then show ?thesis
      by (auto simp: dispatch_def valid_request_def command_of_def arg_def answer_def Let_def is_mutating_command_def)
  qed
qed

section \<open>Replies\<close>

text \<open>The reply of an outcome is well-formed and not nested.\<close>

fun reply_ok :: "dispatched \<Rightarrow> bool" where
  "reply_ok (Returns (r, w)) = (resp_wf (response r) \<and> resp_depth (response r) = 1)"
| "reply_ok _ = True"

lemma reply_answer [simp]:
  "reply_ok (answer (create_integer n) w) = in_int64 n"
  "reply_ok (answer (create_bulk_string s) w)" "reply_ok (answer create_null w)"
  "reply_ok (answer (create_simple_string s) w) = (find_crlf s = None)"
  "reply_ok (answer (create_error s) w) = (find_crlf s = None)"
  by (simp_all add: answer_def create_defs)

lemma find_crlf_before: "CHR 0x0D \<notin> set s \<Longrightarrow> find_crlf (s @ t) = map_option ((+) (length s)) (find_crlf t)"
proof (induction s)
  case Nil
  show ?case by (cases "find_crlf t") auto
next
  case (Cons c s)
  have "Suc \<circ> (+) (length s) = (+) (Suc (length s))" by auto
  with Cons show ?case by (auto simp: option.map_comp comp_def)
qed

lemma find_crlf_quote: "find_crlf s = None \<Longrightarrow> find_crlf (s @ [CHR 0x27]) = None"
proof (induction s)
  case (Cons c s)
  then show ?case by (cases s) (auto split: if_splits)
qed simp

lemma reply_wrong_number [simp]: "CHR 0x0D \<notin> set name \<Longrightarrow> reply_ok (wrong_number name w)"
  by (simp add: wrong_number_def quoted_def find_crlf_no_cr)

lemma no_cr_messages [simp]:
  "find_crlf not_an_integer = None" "find_crlf (''OOM command not allowed when used memory > '' @ quoted ''maxmemory'') = None"
  by code_simp+

lemma toupper_cr: "toupper_char c = CHR 0x0D \<longleftrightarrow> c = CHR 0x0D" "toupper_char c = CHR 0x0A \<longleftrightarrow> c = CHR 0x0A"
proof -
  have "of_char (toupper_char c) = (13::nat) \<longleftrightarrow> of_char c = (13::nat)"
    and "of_char (toupper_char c) = (10::nat) \<longleftrightarrow> of_char c = (10::nat)"
    by (auto simp: toupper_char_def)
  moreover have "of_char CHR 0x0D = (13::nat)" and "of_char CHR 0x0A = (10::nat)" by simp_all
  ultimately show "toupper_char c = CHR 0x0D \<longleftrightarrow> c = CHR 0x0D" "toupper_char c = CHR 0x0A \<longleftrightarrow> c = CHR 0x0A"
    by (metis of_char_eq_iff)+
qed

lemma find_crlf_to_upper: "find_crlf (to_upper s) = find_crlf s"
  unfolding to_upper_def
proof (induction s)
  case (Cons c s)
  then show ?case by (cases s) (auto simp: toupper_cr)
qed simp

lemma storage_del_range: "storage_del L keys e = (n, e') \<Longrightarrow> 0 \<le> n \<and> n \<le> int (length keys)"
proof (induction keys arbitrary: e n)
  case (Cons key keys)
  show ?case
  proof (cases "umap_find (shard_of L e key) key")
    case None
    then show ?thesis using Cons.IH [of e n] Cons.prems by simp
  next
    case (Some ent)
    then show ?thesis
      using Cons.IH [of "erase_entry L key ent e"] Cons.prems by (auto simp: Let_def split: prod.splits)
  qed
qed simp

lemma storage_exists_range: "storage_exists L now keys e = (n, e') \<Longrightarrow> 0 \<le> n \<and> n \<le> int (length keys)"
proof (induction keys arbitrary: e n)
  case (Cons key keys)
  have IH: "storage_exists L now keys e1 = (m, e') \<Longrightarrow> 0 \<le> m \<and> m \<le> int (length keys)" for e1 m
    by (rule Cons.IH)
  show ?case
    using Cons.prems IH by (auto simp: Let_def split: option.splits if_splits prod.splits) fastforce+
qed simp

lemma storage_pttl_range: "storage_pttl L now key e = (n, e') \<Longrightarrow> in_int64 n"
proof -
  have "- (2 ^ 63) \<le> sint x \<and> sint x < 2 ^ 63" for x :: u64
    using sint_greater_eq [of x] sint_less [of x] by simp
  then have "in_int64 (sint x)" for x :: u64
    unfolding int64_defs by (metis zle_diff1_eq)
  then show "storage_pttl L now key e = (n, e') \<Longrightarrow> in_int64 n"
    by (auto simp: storage_pttl_def int64_defs split: option.splits if_splits)
qed

lemma store_number_range: "store_number L tk key it t v e = Returns (Some n, e') \<Longrightarrow> in_int64 n"
  by (auto simp: store_number_def Let_def split: if_splits prod.splits)

lemma storage_step_range: "storage_step L tk d key e = Returns (Some n, e') \<Longrightarrow> in_int64 n"
  by (auto simp: storage_step_def split: option.splits sum.splits if_splits dest: store_number_range)

lemma reply_counter:
  assumes "op = storage_step L tk d key" and "CHR 0x0D \<notin> set name"
  shows "reply_ok (cmd_counter op name request aof bp w)"
proof (cases "op (storage_engine w)")
  case (Returns x)
  obtain res e where x: "x = (res, e)" by fastforce
  show ?thesis
  proof (cases res)
    case (Some n)
    then have "in_int64 n" using storage_step_range Returns x assms(1) by blast
    then show ?thesis using Returns x Some assms(2) by (simp add: cmd_counter_def Let_def)
  qed (use Returns x assms(2) in \<open>simp add: cmd_counter_def Let_def\<close>)
qed (use assms(2) in \<open>auto simp: cmd_counter_def\<close>)

lemma reply_counts:
  assumes "int (argc request) \<le> int64_max"
  shows "reply_ok (cmd_del L request aof bp w)" and "reply_ok (cmd_exists L cl request w)"
proof -
  have "in_int64 n" if "0 \<le> n" "n \<le> int (length (key_args request))" for n
    using that assms by (auto simp: key_args_def int64_defs)
  then show "reply_ok (cmd_del L request aof bp w)" and "reply_ok (cmd_exists L cl request w)"
    by (auto simp: cmd_del_def cmd_exists_def Let_def split: prod.split
        dest!: storage_del_range storage_exists_range)
qed

lemma flag_range [simp]: "in_int64 (flag b)"
  by (simp add: flag_def int64_defs)

lemma reply_others [simp]:
  "reply_ok (cmd_ping request w)" "reply_ok (cmd_echo request w)"
  "reply_ok (cmd_set L cl request aof bp w)" "reply_ok (cmd_get L cl request w)"
  "reply_ok (cmd_pexpireat L cl request aof bp w)" "reply_ok (cmd_persist L cl request aof bp w)"
  "reply_ok (cmd_info request aof ro w)" "reply_ok (cmd_config request w)"
  "reply_ok (cmd_quit request w)" "reply_ok (cmd_psync request w)"
           apply (simp add: cmd_ping_def)
          apply (simp add: cmd_echo_def)
         apply (simp add: cmd_set_def Let_def quoted_def split: prod.split)
        apply (simp add: cmd_get_def Let_def split: prod.split option.split)
       apply (simp add: cmd_pexpireat_def Let_def split: prod.split sum.split)
      apply (simp add: cmd_persist_def Let_def split: prod.split)
     apply (simp add: cmd_info_def Let_def)
    apply (simp add: cmd_config_def split: sum.split)
   apply (simp add: cmd_quit_def create_simple_string_def)
  apply (simp add: cmd_psync_def create_simple_string_def split: sum.split)
  done

lemma reply_deadlines:
  assumes "CHR 0x0D \<notin> set cmd"
  shows "reply_ok (cmd_expire L cl cmd request aof bp w)" and "reply_ok (cmd_ttl L cl cmd request w)"
proof -
  show "reply_ok (cmd_expire L cl cmd request aof bp w)"
    using assms by (simp add: cmd_expire_def Let_def split: prod.split sum.split)
  have "in_int64 n \<Longrightarrow> \<not> n < 0 \<Longrightarrow> in_int64 (n div 1000)" for n by (auto simp: int64_defs)
  then show "reply_ok (cmd_ttl L cl cmd request w)"
    using assms by (auto simp: cmd_ttl_def Let_def split: prod.split dest: storage_pttl_range)
qed

lemma run_command_reply:
  assumes "find_crlf cmd = None" and "int (argc request) \<le> int64_max"
  shows "reply_ok (run_command L cl cmd request aof ro bp w)"
proof -
  have "reply_ok (cmd_incr L cl request aof bp w)" and "reply_ok (cmd_decr L cl request aof bp w)"
    unfolding cmd_incr_def cmd_decr_def
    by (rule reply_counter [of _ L "engine_tick cl" 1 "arg request 1"],
        simp add: storage_incr_def fun_eq_iff, simp,
        rule reply_counter [of _ L "engine_tick cl" "- 1" "arg request 1"],
        simp add: storage_decr_def fun_eq_iff, simp)
  moreover have "find_crlf (''ERR unknown command '' @ quoted cmd) = None"
    using find_crlf_before [of "''ERR unknown command '' @ [CHR 0x27]" "cmd @ [CHR 0x27]"]
      find_crlf_quote [OF assms(1)] by (simp add: quoted_def)
  ultimately show ?thesis
    using reply_counts [OF assms(2)] reply_deadlines by (simp add: run_command_def)
qed



text \<open>An unknown command is quoted into the error line as it came: a client that sends a line end
  inside the command name receives two replies to one request, the second one of its own making.\<close>

lemma unknown_command_splits_reply:
  "map_run (\<lambda>(r, w'). serialize (response r))
     (dispatch L cl (bulk_array [''FOO'' @ crlf @ '':42'' @ crlf]) aof ro bp w) =
     Returns (serialize (create_error (''ERR unknown command '' @ [CHR 0x27] @ ''FOO'')) @
       serialize (create_integer 42) @ [CHR 0x27] @ crlf)"
proof -
  let ?q = "bulk_array [''FOO'' @ crlf @ '':42'' @ crlf]"
  have cmd: "command_of ?q = ''FOO'' @ crlf @ '':42'' @ crlf" and "valid_request ?q"
    and "\<not> is_mutating_command (command_of ?q)" by code_simp+
  then have "dispatch L cl ?q aof ro bp w = run_command L cl (command_of ?q) ?q aof ro bp (counted w)"
    using dispatch_runs by blast
  also have "\<dots> = answer (create_error (''ERR unknown command '' @ quoted (command_of ?q))) (counted w)"
    unfolding cmd by (simp add: run_command_def crlf_def)
  finally have "map_run (\<lambda>(r, w'). serialize (response r)) (dispatch L cl ?q aof ro bp w) =
      Returns (serialize (create_error (''ERR unknown command '' @ quoted (command_of ?q))))"
    by (simp add: answer_def)
  moreover have "serialize (create_error (''ERR unknown command '' @ quoted (command_of ?q))) =
      serialize (create_error (''ERR unknown command '' @ [CHR 0x27] @ ''FOO'')) @
       serialize (create_integer 42) @ [CHR 0x27] @ crlf" by code_simp
  ultimately show ?thesis by (simp only:)
qed

end
