(* ===== verification/Server_Theorems.thy ===== *)
theory Server_Theorems
  imports Server Framing Dispatcher_Theorems
begin

text \<open>
  The loops of the server as instances of the contracts of \<open>Framing\<close>, and what follows: replaying a log,
  serving a client.
\<close>

section \<open>The loops meet their contracts\<close>

lemma parse_empty: "parse d [] c = (if d = 0 then Diverges else Returns (None, c))"
  by (cases d) (simp_all add: parse_def parse_internal.simps)

interpretation ll: frame_loop depth "replay_one L calls replica" "\<lambda>_. True" "load_loop L depth calls replica"
  for L depth calls replica
proof
  show "\<exists>c'. load_loop L depth calls replica (Suc fuel) c buffer s =
      run_bind (replay_one L calls replica s v) (\<lambda>s'. if True
        then load_loop L depth calls replica fuel c' (drop n buffer) s' else Returns (drop n buffer, s'))"
    if "parse depth buffer c = Returns (Some v, n)" for s buffer c v n fuel
    using that by (intro exI [of _ n]) (auto simp: parse_empty split: if_splits)
  show "load_loop L depth calls replica (Suc fuel) c buffer s = Returns (buffer, s)"
    if "parse depth buffer c = Returns (None, n)" for s buffer c n fuel
    using that by simp
qed

interpretation al: frame_loop depth "apply_one L calls replica" "\<lambda>_. True" "apply_loop L depth calls replica"
  for L depth calls replica
proof
  show "\<exists>c'. apply_loop L depth calls replica (Suc fuel) c buffer s =
      run_bind (apply_one L calls replica s v) (\<lambda>s'. if True
        then apply_loop L depth calls replica fuel c' (drop n buffer) s' else Returns (drop n buffer, s'))"
    if "parse depth buffer c = Returns (Some v, n)" for s buffer c v n fuel
    using that by (intro exI [of _ 0]) simp
  show "apply_loop L depth calls replica (Suc fuel) c buffer s = Returns (buffer, s)"
    if "parse depth buffer c = Returns (None, n)" for s buffer c n fuel
    using that by simp
qed

interpretation hc: chunk_loop depth "serve L calls write_ok replica" "\<lambda>s. status s = Serving"
    "request_loop L depth calls write_ok replica" fuel
    "\<lambda>ds. handle_client L depth calls write_ok replica fuel (map Bytes ds)"
  for L depth calls write_ok replica fuel
proof
  show "\<exists>c'. request_loop L depth calls write_ok replica (Suc fuel) c buffer s =
      run_bind (serve L calls write_ok replica s v) (\<lambda>s'. if status s' = Serving
        then request_loop L depth calls write_ok replica fuel c' (drop n buffer) s'
        else Returns (drop n buffer, s'))"
    if "parse depth buffer c = Returns (Some v, n)" for s buffer c v n fuel
    using that by (intro exI [of _ n]) simp
  show "request_loop L depth calls write_ok replica (Suc fuel) c buffer s = Returns (buffer, s)"
    if "parse depth buffer c = Returns (None, n)" for s buffer c n fuel
    using that by simp
qed simp_all

section \<open>Replaying the log\<close>

lemma load_frames:
  assumes "\<forall>v\<in>set vs. frame_ok depth v" and "fits (wire vs @ t)" and "partial depth t" and "length vs < fuel"
  shows "load_aof L depth calls replica fuel (Some (wire vs @ t)) w =
     map_run snd (run_fold (replay_one L calls replica) (0, w) vs)"
proof -
  have "load_loop L depth calls replica fuel 0 (wire vs @ t) (0, w) =
      run_bind (run_while (\<lambda>_. True) (replay_one L calls replica) (0, w) vs)
        (\<lambda>(s', rest). Returns (wire rest @ t, s'))"
    by (rule ll.loop_frames) (use assms in auto)
  then show ?thesis
    by (cases "run_fold (replay_one L calls replica) (0, w) vs")
      (auto simp: load_aof_def run_while_always)
qed

text \<open>C15. Replaying a log that holds complete frames and possibly the beginning of one more (a write that a
  crash cut short) executes the complete frames in order and ignores the rest; fuel above the number
  of frames is enough.\<close>

theorem load_aof_replays_frames:
  assumes "\<forall>v\<in>set vs. frame_ok depth v" and "fits (wire vs @ t)" and "partial depth t" and "length vs < fuel"
  shows "load_aof L depth calls replica fuel (Some (wire vs @ t)) w =
     map_run snd (run_fold (replay_one L calls replica) (0, w) vs)"
  by (rule load_frames [OF assms])

theorem load_aof_replays_frames_witness:
  "load_aof ex_lib 2 (\<lambda>_. ex_call 7) False 2 (Some (wire [bulk_array [''SET'', ''k'', ''v'']] @ ''*3'')) ex_system =
     map_run snd (run_fold (replay_one ex_lib (\<lambda>_. ex_call 7) False) (0, ex_system) [bulk_array [''SET'', ''k'', ''v'']])"
proof (rule load_aof_replays_frames)
  have "frame_ok 2 (bulk_array [''SET'', ''k'', ''v''])" and "fits (serialize (bulk_array [''SET'', ''k'', ''v'']))"
    and "serialize (bulk_array [''SET'', ''k'', ''v'']) = ''*3'' @ drop 2 (serialize (bulk_array [''SET'', ''k'', ''v'']))"
    and "drop 2 (serialize (bulk_array [''SET'', ''k'', ''v''])) \<noteq> []"
    by code_simp+
  then show "partial 2 ''*3''" unfolding partial_def by blast
  show "\<forall>v\<in>set [bulk_array [''SET'', ''k'', ''v'']]. frame_ok 2 v"
    and "fits (wire [bulk_array [''SET'', ''k'', ''v'']] @ ''*3'')"
    by code_simp+
qed simp

section \<open>Serving a client\<close>

text \<open>C9. What a client gets does not depend on how its bytes were cut into packets: the session ends in
  the state, with the replies, that handling its requests one after the other produces, up to the
  first request that ends the session.\<close>

theorem client_chunking_irrelevant:
  assumes "status s = Serving" and "concat ds = wire vs @ t" and "\<forall>v\<in>set vs. frame_ok depth v"
    and "fits (wire vs @ t)" and "partial depth t" and "length vs < fuel"
  shows "map_run snd (handle_client L depth calls write_ok replica fuel (map Bytes ds) [] s) =
     map_run fst (run_while (\<lambda>s. status s = Serving) (serve L calls write_ok replica) s vs)"
  by (rule hc.feed_stream [OF assms])

definition ex_session :: Session where
  "ex_session = session_new ex_system"

theorem client_chunking_irrelevant_witness:
  "map_run snd (handle_client ex_lib 2 (\<lambda>_. ex_call 7) (\<lambda>_. True) False 3
       (map Bytes [take 9 (wire [bulk_array [''PING''], bulk_array [''QUIT'']]), drop 9 (wire [bulk_array [''PING''], bulk_array [''QUIT'']])])
       [] ex_session) =
   map_run fst (run_while (\<lambda>s. status s = Serving) (serve ex_lib (\<lambda>_. ex_call 7) (\<lambda>_. True) False) ex_session
     [bulk_array [''PING''], bulk_array [''QUIT'']])"
proof (rule client_chunking_irrelevant)
  show "status ex_session = Serving" by (simp add: ex_session_def session_new_def)
  show "\<forall>v\<in>set [bulk_array [''PING''], bulk_array [''QUIT'']]. frame_ok 2 v" by code_simp
  show "fits (wire [bulk_array [''PING''], bulk_array [''QUIT'']] @ [])" by code_simp
  show "partial 2 []" by (rule partial_Nil) simp
  show "concat [take 9 (wire [bulk_array [''PING''], bulk_array [''QUIT'']]),
      drop 9 (wire [bulk_array [''PING''], bulk_array [''QUIT'']])] = wire [bulk_array [''PING''], bulk_array [''QUIT'']] @ []"
    by code_simp
qed simp

text \<open>C39. A client can make its thread spin: after the header of a bulk string of length -7 the loop over
  its buffer never leaves, whatever number of rounds it is given.\<close>

theorem client_can_spin:
  assumes "status s = Serving" and "\<forall>n. write_ok n"
  shows "request_loop L (Suc d) calls write_ok replica fuel c (''$-7'' @ crlf) s = Diverges"
  using assms(1)
proof (induction fuel arbitrary: c s)
  case (Suc fuel)
  have "fits (''$-7'' @ crlf @ [])" by code_simp
  then have p: "parse (Suc d) (''$-7'' @ crlf) c = Returns (Some (create_bulk_string []), 0)"
    using parse_negative_length_consumes_nothing [of "[]"] by simp
  have "\<exists>s'. serve L calls write_ok replica s (create_bulk_string []) = Returns s' \<and> status s' = Serving"
    using Suc.prems assms(2) by (simp add: serve_def dispatch_def create_bulk_string_def answer_def Let_def)
  then show ?case using Suc.IH p by auto
qed simp

theorem client_can_spin_witness:
  "request_loop ex_lib 1 (\<lambda>_. ex_call 7) (\<lambda>_. True) False 1000 0 (''$-7'' @ crlf) ex_session = Diverges"
proof -
  have "status ex_session = Serving" by (simp add: ex_session_def session_new_def)
  from client_can_spin [OF this, of "\<lambda>_. True" ex_lib 0] show ?thesis by simp
qed

end
