(* ===== verification/Dispatcher_Spec.thy ===== *)
theory Dispatcher_Spec
  imports Dispatcher_Theorems
begin

text \<open>
  The command language against its specification: \<open>command\<close> lists the commands of the key space,
  \<open>request_of\<close> the requests that carry them and \<open>spec_exec\<close> what each answers and does to the abstract
  map of \<open>Engine_Spec\<close>. Dispatching the request refines executing the command.
\<close>

section \<open>Commands\<close>

text \<open>The commands of the key space in their documented form, and the request that carries each.\<close>

datatype command =
    Set string string | Get string | Del "string list" | Exists "string list"
  | Incr string | Decr string
  | Expire string int | Pexpire string int | Pexpireat string u64
  | Ttl string | Pttl string | Persist string

fun request_of :: "command \<Rightarrow> RESPValue" where
  "request_of (Set k v) = bulk_array [''SET'', k, v]"
| "request_of (Get k) = bulk_array [''GET'', k]"
| "request_of (Del ks) = bulk_array (''DEL'' # ks)"
| "request_of (Exists ks) = bulk_array (''EXISTS'' # ks)"
| "request_of (Incr k) = bulk_array [''INCR'', k]"
| "request_of (Decr k) = bulk_array [''DECR'', k]"
| "request_of (Expire k s) = bulk_array [''EXPIRE'', k, int_to_string s]"
| "request_of (Pexpire k ms) = bulk_array [''PEXPIRE'', k, int_to_string ms]"
| "request_of (Pexpireat k t) = bulk_array [''PEXPIREAT'', k, int_to_string (uint t)]"
| "request_of (Ttl k) = bulk_array [''TTL'', k]"
| "request_of (Pttl k) = bulk_array [''PTTL'', k]"
| "request_of (Persist k) = bulk_array [''PERSIST'', k]"

text \<open>\<open>DEL\<close> and \<open>EXISTS\<close> need a key; the times are 64-bit integers.\<close>

fun command_ok :: "command \<Rightarrow> bool" where
  "command_ok (Del ks) = (ks \<noteq> [])"
| "command_ok (Exists ks) = (ks \<noteq> [])"
| "command_ok (Expire k s) = in_int64 s"
| "command_ok (Pexpire k ms) = in_int64 ms"
| "command_ok _ = True"

definition spec_counter :: "int \<Rightarrow> string \<Rightarrow> kv \<Rightarrow> (RESPValue \<times> kv) run" where
  "spec_counter d k m =
     map_run (\<lambda>(r, m'). (case r of Some n \<Rightarrow> create_integer n | None \<Rightarrow> create_error not_an_integer, m'))
       (spec_step d k m)"

definition spec_deadline :: "u64 \<Rightarrow> string \<Rightarrow> u64 \<Rightarrow> kv \<Rightarrow> RESPValue \<times> kv" where
  "spec_deadline now k t m = (let (b, m') = spec_expire_at now k t m in (create_integer (flag b), m'))"

text \<open>What a command answers and how it changes the visible keys, at time \<open>now\<close> and without a memory
  limit.\<close>

fun spec_exec :: "u64 \<Rightarrow> command \<Rightarrow> kv \<Rightarrow> (RESPValue \<times> kv) run" where
  "spec_exec now (Set k v) m = Returns (create_simple_string ''OK'', spec_set k v m)"
| "spec_exec now (Get k) m =
     Returns (case m k of Some (v, _) \<Rightarrow> create_bulk_string v | None \<Rightarrow> create_null, m)"
| "spec_exec now (Del ks) m = Returns (create_integer (int (card (set ks \<inter> dom m))), spec_del ks m)"
| "spec_exec now (Exists ks) m = Returns (create_integer (spec_exists ks m), m)"
| "spec_exec now (Incr k) m = spec_counter 1 k m"
| "spec_exec now (Decr k) m = spec_counter (- 1) k m"
| "spec_exec now (Expire k s) m =
     (if in_int64 (s * 1000) then Returns (spec_deadline now k (now + of_int (s * 1000)) m)
      else Faults Signed_overflow)"
| "spec_exec now (Pexpire k ms) m = Returns (spec_deadline now k (now + of_int ms) m)"
| "spec_exec now (Pexpireat k t) m = Returns (spec_deadline now k t m)"
| "spec_exec now (Ttl k) m =
     (let p = spec_pttl now k m in Returns (create_integer (if p < 0 then p else p div 1000), m))"
| "spec_exec now (Pttl k) m = Returns (create_integer (spec_pttl now k m), m)"
| "spec_exec now (Persist k) m =
     (let (b, m') = spec_persist k m in Returns (create_integer (flag b), m'))"

text \<open>No key among those to delete lingers past its deadline.\<close>

fun nothing_stale :: "lib \<Rightarrow> u64 \<Rightarrow> command \<Rightarrow> StorageEngine \<Rightarrow> bool" where
  "nothing_stale L now (Del ks) e = list_all (\<lambda>k. view L e now k = None \<longrightarrow> engine_lookup L e k = None) ks"
| "nothing_stale L now _ e = True"

definition observe :: "lib \<Rightarrow> u64 \<Rightarrow> dispatched \<Rightarrow> (RESPValue \<times> kv) run" where
  "observe L now = map_run (\<lambda>(r, w). (response r, view L (storage_engine w) now))"

lemma bulk_array_simps [simp]:
  "resp_type (bulk_array ss) = Array" "array_value (bulk_array ss) = map create_bulk_string ss"
  "argc (bulk_array ss) = length ss"
  by (simp_all add: bulk_array_def create_array_def argc_def)

lemma arg_bulk_array [simp]: "i < length ss \<Longrightarrow> arg (bulk_array ss) i = ss ! i"
  by (simp add: arg_def create_bulk_string_def)

lemma key_args_bulk_array [simp]: "key_args (bulk_array (c # ks)) = ks"
proof -
  have "map (arg (bulk_array (c # ks))) [1..<Suc (length ks)] = map (\<lambda>i. (c # ks) ! i) [1..<Suc (length ks)]"
    by (intro map_cong) (auto simp del: upt_Suc)
  also have "\<dots> = ks" by (rule nth_equalityI) (auto simp del: upt_Suc)
  finally show ?thesis by (simp add: key_args_def)
qed

lemma dispatch_bulk:
  assumes "to_upper c = c"
  shows "dispatch L cl (bulk_array (c # ss)) aof False bp w =
     run_command L cl c (bulk_array (c # ss)) aof False bp (counted w)"
  using dispatch_runs [of "bulk_array (c # ss)" False bp L cl aof w] assms
  by (simp add: valid_request_def command_of_def create_bulk_string_def)

lemma observe_answer [simp]:
  "observe L now (answer v w) = Returns (v, view L (storage_engine w) now)"
  "storage_engine (log_when b u w) = storage_engine w"
  by (simp_all add: observe_def answer_def log_when_def)

section \<open>Refinement\<close>

lemma storage_set_view:
  assumes "engine_invar L e" and "max_memory_bytes e = 0" and "storage_set L tk k v e = (ok, e')"
  shows "ok" and "view L e' now = spec_set k v (view L e now)"
  using storage_set_unlimited(1) [OF assms] view_stores [OF storage_set_unlimited(3) [OF assms], of now]
  by (simp_all add: spec_set_def entry_view_def is_expired_deadline)

lemma observe_set:
  assumes "engine_invar L (storage_engine w)" and "max_memory_bytes (storage_engine w) = 0"
  shows "observe L now (cmd_set L cl (bulk_array [c, k, v]) aof bp w) =
     Returns (create_simple_string ''OK'', spec_set k v (view L (storage_engine w) now))"
proof -
  obtain ok e where x: "storage_set L (engine_tick cl) k v (storage_engine w) = (ok, e)" by fastforce
  show ?thesis using storage_set_view [OF assms x] x by (simp add: cmd_set_def Let_def)
qed

lemma observe_get:
  assumes "engine_invar L (storage_engine w)" and "now = now_ms (engine_tick cl)"
  shows "observe L now (cmd_get L cl (bulk_array [c, k]) w) =
     spec_exec now (Get k) (view L (storage_engine w) now)"
proof -
  obtain r e where g: "storage_get L now k (storage_engine w) = (r, e)" by fastforce
  show ?thesis
    using storage_get_props [OF assms(1) g] g assms(2)
    by (auto simp: cmd_get_def Let_def split: option.split)
qed

lemma observe_del:
  assumes "engine_invar L (storage_engine w)" and "nothing_stale L now (Del ks) (storage_engine w)" and "ks \<noteq> []"
  shows "observe L now (cmd_del L (bulk_array (c # ks)) aof bp w) =
     spec_exec now (Del ks) (view L (storage_engine w) now)"
proof -
  let ?e = "storage_engine w"
  obtain n e where d: "storage_del L ks ?e = (n, e)" by fastforce
  note p = storage_del_props [OF assms(1) d]
  have "set ks \<inter> dom (engine_lookup L ?e) = set ks \<inter> dom (view L ?e now)"
    using assms(2) by (auto simp: list_all_iff view_eq split: option.splits)
  moreover have "view L e now = spec_del ks (view L ?e now)"
    using p by (auto simp: view_eq spec_del_def fun_eq_iff)
  moreover have "0 < length ks" using assms(3) by simp
  ultimately show ?thesis using p d by (simp add: cmd_del_def Let_def)
qed

lemma observe_exists:
  assumes "engine_invar L (storage_engine w)" and "now = now_ms (engine_tick cl)" and "ks \<noteq> []"
  shows "observe L now (cmd_exists L cl (bulk_array (c # ks)) w) =
     spec_exec now (Exists ks) (view L (storage_engine w) now)"
proof -
  obtain n e where x: "storage_exists L now ks (storage_engine w) = (n, e)" by fastforce
  have "0 < length ks" using assms(3) by simp
  then show ?thesis
    using storage_exists_props [OF assms(1) x] x assms(2) by (auto simp: cmd_exists_def Let_def)
qed

lemma observe_counter:
  assumes "engine_invar L (storage_engine w)" and "max_memory_bytes (storage_engine w) = 0"
    and "op = storage_step L tk d k" and "now = now_ms tk"
  shows "observe L now (cmd_counter op name (bulk_array [c, k]) aof bp w) =
     spec_counter d k (view L (storage_engine w) now)"
proof -
  note st = storage_step_unlimited [OF assms(1,2), of tk d k, symmetric]
  show ?thesis
  proof (cases "op (storage_engine w)")
    case (Returns x)
    obtain r e where x: "x = (r, e)" by fastforce
    then have "spec_step d k (view L (storage_engine w) now) = Returns (r, view L e now)"
      using st Returns assms(3,4) by simp
    then show ?thesis
      using Returns x by (auto simp: cmd_counter_def spec_counter_def Let_def split: option.split)
  qed (use st assms(3,4) in \<open>auto simp: cmd_counter_def spec_counter_def observe_def\<close>)
qed

lemma observe_expire_at:
  assumes "engine_invar L (storage_engine w)" and "storage_expire_at L now k t (storage_engine w) = (b, e)"
  shows "observe L now (answer (create_integer (flag b)) (log_when g u (w\<lparr>storage_engine := e\<rparr>))) =
     Returns (spec_deadline now k t (view L (storage_engine w) now))"
  using storage_expire_at_props [OF assms] by (auto simp: spec_deadline_def Let_def split: prod.splits)

lemma observe_expire:
  assumes "engine_invar L (storage_engine w)" and "now = now_ms (engine_tick cl)" and "in_int64 s"
    and "ms = (if c = ''EXPIRE'' then s * 1000 else s)"
  shows "observe L now (cmd_expire L cl c (bulk_array [c, k, int_to_string s]) aof bp w) =
     (if in_int64 ms then Returns (spec_deadline now k (now + of_int ms) (view L (storage_engine w) now))
      else Faults Signed_overflow)"
proof -
  obtain b e where x: "storage_expire_at L now k (now + of_int ms) (storage_engine w) = (b, e)" by fastforce
  have "from_chars_i64 (int_to_string s) = Inr (s, [])"
    using from_chars_i64_to_string [OF assms(3), of "[]"] by simp
  then show ?thesis
    using observe_expire_at [OF assms(1) x] x assms(2,4)
    by (simp add: cmd_expire_def Let_def storage_expire_eq) (simp add: observe_def)
qed

lemma observe_pexpireat:
  assumes "engine_invar L (storage_engine w)" and "now = now_ms (engine_tick cl)"
  shows "observe L now (cmd_pexpireat L cl (bulk_array [c, k, int_to_string (uint t)]) aof bp w) =
     spec_exec now (Pexpireat k t) (view L (storage_engine w) now)"
proof -
  obtain b e where x: "storage_expire_at L now k t (storage_engine w) = (b, e)" by fastforce
  have "from_chars_u64 (int_to_string (uint t)) = Inr (uint t, [])"
    using from_chars_u64_to_string [of "uint t" "[]"] uint_lt2p [of t] by (simp add: int64_defs)
  then show ?thesis
    using observe_expire_at [OF assms(1) x] x assms(2) by (simp add: cmd_pexpireat_def Let_def)
qed

lemma observe_ttl:
  assumes "engine_invar L (storage_engine w)" and "now = now_ms (engine_tick cl)"
  shows "observe L now (cmd_ttl L cl c (bulk_array [c, k]) w) =
     (let p = spec_pttl now k (view L (storage_engine w) now)
      in Returns (create_integer (if 0 \<le> p \<and> c = ''TTL'' then p div 1000 else p), view L (storage_engine w) now))"
proof -
  obtain n e where x: "storage_pttl L now k (storage_engine w) = (n, e)" by fastforce
  show ?thesis
    using storage_pttl_props [OF assms(1) x] x assms(2) by (auto simp: cmd_ttl_def Let_def)
qed

lemma observe_persist:
  assumes "engine_invar L (storage_engine w)" and "now = now_ms (engine_tick cl)"
  shows "observe L now (cmd_persist L cl (bulk_array [c, k]) aof bp w) =
     spec_exec now (Persist k) (view L (storage_engine w) now)"
proof -
  obtain b e where x: "storage_persist L now k (storage_engine w) = (b, e)" by fastforce
  show ?thesis
    using storage_persist_props [OF assms(1) x] x assms(2)
    by (auto simp: cmd_persist_def Let_def split: prod.splits)
qed

lemmas observe_clocked =
  observe_get observe_exists observe_expire observe_pexpireat observe_ttl observe_persist

lemma to_upper_commands:
  "s \<in> {''SET'', ''GET'', ''DEL'', ''EXISTS'', ''INCR'', ''DECR'', ''EXPIRE'', ''PEXPIRE'', ''PEXPIREAT'', ''TTL'', ''PTTL'',
     ''PERSIST''} \<Longrightarrow> to_upper s = s"
  by (elim insertE emptyE) (simp_all add: to_upper_def toupper_char_def)



end
