(* ===== verification/Horizon.thy ===== *)
theory Horizon
  imports Server_Theorems Dispatcher_Spec
begin

text \<open>
  Engines before a horizon. \<open>plain L T e m\<close>: the engine has no memory limit and holds exactly the map \<open>m\<close> of
  keys to values and deadlines, and none of the deadlines lies at or before the time \<open>T\<close>. While the
  clock has not passed \<open>T\<close>, the outcome of a command on such an engine is a function of the map
  (\<open>plain_effect\<close>), whatever the hash tables, the flags and the access times; and what the command logs
  has the same effect on the map as the command itself (\<open>logged_form\<close>).
\<close>

section \<open>Engines without a passed deadline\<close>

definition beyond :: "u64 \<Rightarrow> u64 \<Rightarrow> bool" where
  "beyond T t \<longleftrightarrow> t = 0 \<or> T < t"

definition plain :: "lib \<Rightarrow> u64 \<Rightarrow> StorageEngine \<Rightarrow> kv \<Rightarrow> bool" where
  "plain L T e m \<longleftrightarrow>
     engine_invar L e \<and> max_memory_bytes e = 0 \<and>
     (\<forall>k. map_option entry_view (engine_lookup L e k) = m k) \<and> (\<forall>k v t. m k = Some (v, t) \<longrightarrow> beyond T t)"

lemma beyond_zero [simp]: "beyond T 0"
  by (simp add: beyond_def)

lemma beyond_alive: "beyond T t \<Longrightarrow> now \<le> T \<Longrightarrow> \<not> deadline_passed now t"
  by (auto simp: beyond_def deadline_passed_def)

lemma plain_invar: "plain L T e m \<Longrightarrow> engine_invar L e" "plain L T e m \<Longrightarrow> max_memory_bytes e = 0"
  by (simp_all add: plain_def)

lemma plain_new: "0 < n \<Longrightarrow> plain L T (engine_new n) Map.empty"
proof -
  assume "0 < n"
  then have "engine_lookup L (engine_new n) k = None" for k
    using get_shard_index_less [of "engine_new n" L k]
    by (simp add: engine_lookup_def shard_of_def engine_new_def umap_empty_def umap_find_def)
  then show ?thesis
    using engine_invar_new [OF \<open>0 < n\<close>] by (simp add: plain_def) (simp add: engine_new_def)
qed

lemma plain_cases:
  assumes "plain L T e m"
  obtains (absent) "engine_lookup L e k = None" "m k = None"
  | (present) ent where "engine_lookup L e k = Some ent" "m k = Some (chars (entry_value ent), expire_at_ms ent)"
      "beyond T (expire_at_ms ent)" "\<And>now. now \<le> T \<Longrightarrow> \<not> is_expired now ent"
proof (cases "engine_lookup L e k")
  case None
  then show thesis using assms absent by (auto simp: plain_def dest: spec [of _ k])
next
  case (Some ent)
  then have m: "m k = Some (chars (entry_value ent), expire_at_ms ent)"
    using assms by (auto simp: plain_def entry_view_def dest: spec [of _ k])
  then have "beyond T (expire_at_ms ent)" using assms by (auto simp: plain_def)
  then show thesis using Some m present beyond_alive by (auto simp: is_expired_deadline)
qed

lemma plain_view: "plain L T e m \<Longrightarrow> view L e now = purge now m"
  by (simp add: view_def plain_def)

lemma plain_update:
  assumes "plain L T e m" and "engine_lookup L e' = (engine_lookup L e)(k \<mapsto> ent)" and "entry_view ent = (v, t)"
    and "beyond T t" and "engine_invar L e'" and "max_memory_bytes e' = max_memory_bytes e"
  shows "plain L T e' (m(k \<mapsto> (v, t)))"
  using assms by (simp add: plain_def)

lemma plain_entry:
  assumes "plain L T e m" and "engine_lookup L e k = Some ent" and "entry_value (f ent) = entry_value ent"
    and "beyond T (expire_at_ms (f ent))"
  shows "plain L T (update_entry L k f e) (m(k \<mapsto> (chars (entry_value ent), expire_at_ms (f ent))))"
proof -
  note up = update_entry_props [OF plain_invar(1) [OF assms(1)] assms(2), of f]
  show ?thesis
    by (rule plain_update [OF assms(1) up(2)]) (use up(1) assms in \<open>simp_all add: entry_view_def frame_simps\<close>)
qed

lemma plain_touch:
  assumes "plain L T e m" and "engine_lookup L e k = Some ent"
  shows "plain L T (update_entry L k (\<lambda>ent. ent\<lparr>last_access_ms := t\<rparr>) e) m"
proof -
  have "m k = Some (chars (entry_value ent), expire_at_ms ent)" and "beyond T (expire_at_ms ent)"
    by (rule plain_cases [OF assms(1), of k]; use assms(2) in simp)+
  then show ?thesis
    using plain_entry [OF assms, of "\<lambda>ent. ent\<lparr>last_access_ms := t\<rparr>"] by (simp add: map_upd_triv)
qed

lemma plain_counts [simp]:
  "plain L T (count_hit e) m = plain L T e m" "plain L T (count_miss e) m = plain L T e m"
  by (simp_all add: plain_def engine_simps frame_simps)

section \<open>The storage operations\<close>

lemma plain_set:
  assumes "plain L T e m" and "storage_set L tk k v e = (ok, e')"
  shows "ok" and "plain L T e' (m(k \<mapsto> (v, 0)))"
proof -
  note inv = plain_invar [OF assms(1)]
  note s = storage_set_unlimited [OF inv assms(2)]
  show ok by (rule s(1))
  have "max_memory_bytes e' = max_memory_bytes e" by (rule storage_set_props [OF inv(1) assms(2)])
  moreover have l: "engine_lookup L e' = (engine_lookup L e)(k \<mapsto> set_entry (now_ms tk) v (engine_lookup L e k))"
    using s(3) by (simp add: stores_def)
  ultimately show "plain L T e' (m(k \<mapsto> (v, 0)))"
    by (intro plain_update [OF assms(1) l]) (simp_all add: entry_view_def s(2))
qed

lemma plain_get:
  assumes "plain L T e m" and "now \<le> T" and "storage_get L now k e = (r, e')"
  shows "plain L T e' m"
  using assms(1)
proof (cases rule: plain_cases [where k = k])
  case absent
  then show ?thesis using assms(1,3) by (auto simp: storage_get_def simp flip: engine_lookup_def)
next
  case (present ent)
  then show ?thesis
    using assms(2,3) plain_touch [OF assms(1) present(1)] by (auto simp: storage_get_def simp flip: engine_lookup_def)
qed

lemma plain_exists:
  "plain L T e m \<Longrightarrow> now \<le> T \<Longrightarrow> storage_exists L now ks e = (n, e') \<Longrightarrow> plain L T e' m"
proof (induction ks arbitrary: e n)
  case (Cons k ks)
  from Cons.prems(1) show ?case
  proof (cases rule: plain_cases [where k = k])
    case absent
    then show ?thesis using Cons.IH [of "count_miss e" n] Cons.prems by (simp flip: engine_lookup_def)
  next
    case (present ent)
    then show ?thesis
      using Cons.IH [of "count_hit (update_entry L k (\<lambda>ent. ent\<lparr>last_access_ms := now\<rparr>) e)"] Cons.prems(2,3)
        plain_touch [OF Cons.prems(1) present(1), of now]
      by (auto simp: Let_def simp flip: engine_lookup_def split: prod.splits)
  qed
qed simp

lemma plain_del:
  assumes "plain L T e m" and "storage_del L ks e = (n, e')"
  shows "plain L T e' (m |` (- set ks))" and "0 < n \<longleftrightarrow> (\<exists>k\<in>set ks. m k \<noteq> None)"
proof -
  note d = storage_del_props [OF plain_invar(1) [OF assms(1)] assms(2)]
  show "plain L T e' (m |` (- set ks))"
    using assms(1) d by (auto simp: plain_def keeps_def restrict_map_def)
  have "engine_lookup L e k = None \<longleftrightarrow> m k = None" for k by (rule plain_cases [OF assms(1), of k]) auto
  then have "dom (engine_lookup L e) = dom m" by (simp add: dom_def)
  then have "0 < n \<longleftrightarrow> set ks \<inter> dom m \<noteq> {}" using d by (simp add: card_gt_0_iff)
  then show "0 < n \<longleftrightarrow> (\<exists>k\<in>set ks. m k \<noteq> None)" by (auto simp: domIff)
qed

lemma plain_pttl:
  assumes "plain L T e m" and "now \<le> T" and "storage_pttl L now k e = (n, e')"
  shows "plain L T e' m"
  using assms(1)
proof (cases rule: plain_cases [where k = k])
  case absent
  then show ?thesis using assms(1,3) by (simp add: storage_pttl_def flip: engine_lookup_def)
next
  case (present ent)
  then show ?thesis
    using assms by (auto simp: storage_pttl_def beyond_def simp flip: engine_lookup_def split: if_splits)
qed

text \<open>What a new deadline, or none, does to the map: \<open>None\<close> when nothing is written.\<close>

definition deadline_effect :: "string \<Rightarrow> u64 \<Rightarrow> kv \<Rightarrow> kv option" where
  "deadline_effect k t m = map_option (\<lambda>(v, _). m(k \<mapsto> (v, t))) (m k)"

definition persist_effect :: "string \<Rightarrow> kv \<Rightarrow> kv option" where
  "persist_effect k m =
     (case m k of Some (v, t) \<Rightarrow> if t = 0 then None else Some (m(k \<mapsto> (v, 0))) | None \<Rightarrow> None)"

lemma plain_expire_at:
  assumes "plain L T e m" and "now \<le> T" and "beyond T t" and "storage_expire_at L now k t e = (b, e')"
  shows "(b \<longleftrightarrow> deadline_effect k t m \<noteq> None) \<and>
     plain L T e' (case deadline_effect k t m of None \<Rightarrow> m | Some m' \<Rightarrow> m')"
  using assms(1)
proof (cases rule: plain_cases [where k = k])
  case absent
  then show ?thesis
    using assms(1,4) by (simp add: storage_expire_at_def deadline_effect_def flip: engine_lookup_def)
next
  case (present ent)
  then show ?thesis
    using assms(2-4) plain_entry [OF assms(1) present(1), of "\<lambda>ent. ent\<lparr>expire_at_ms := t, last_access_ms := now\<rparr>"]
    by (auto simp: storage_expire_at_def deadline_effect_def simp flip: engine_lookup_def)
qed

lemma plain_persist:
  assumes "plain L T e m" and "now \<le> T" and "storage_persist L now k e = (b, e')"
  shows "(b \<longleftrightarrow> persist_effect k m \<noteq> None) \<and>
     plain L T e' (case persist_effect k m of None \<Rightarrow> m | Some m' \<Rightarrow> m')"
  using assms(1)
proof (cases rule: plain_cases [where k = k])
  case absent
  then show ?thesis
    using assms(1,3) by (simp add: storage_persist_def persist_effect_def flip: engine_lookup_def)
next
  case (present ent)
  then show ?thesis
    using assms plain_entry [OF assms(1) present(1), of "\<lambda>ent. ent\<lparr>expire_at_ms := 0, last_access_ms := now\<rparr>"]
    by (auto simp: storage_persist_def persist_effect_def simp flip: engine_lookup_def split: if_splits)
qed

text \<open>A counter step on the map.\<close>

definition counter_effect :: "int \<Rightarrow> string \<Rightarrow> kv \<Rightarrow> kv option run" where
  "counter_effect d k m = map_run (\<lambda>(r, m'). map_option (\<lambda>_. m') r) (spec_step d k m)"

lemma plain_store_number:
  assumes "plain L T e m" and "in_int64 n" and "it = engine_lookup L e k" and "beyond T t"
  shows "\<exists>e'. store_number L tk k it t n e = Returns (Some n, e') \<and> plain L T e' (m(k \<mapsto> (int_to_string n, t)))"
proof -
  note inv = plain_invar [OF assms(1)]
  from store_number_unlimited [OF inv(1) assms(3) inv(2) assms(2), of tk t]
  obtain e' where e': "store_number L tk k it t n e = Returns (Some n, e')" "engine_invar L e'"
    and st: "stores L k (int_to_string n) (number_entry (now_ms tk) t (int_to_string n) (engine_lookup L e k)) {} e e'"
    by blast
  have "max_memory_bytes e' = max_memory_bytes e"
    by (rule store_number_props [OF inv(1) assms(3) e'(1)])
  moreover have l: "engine_lookup L e' = (engine_lookup L e)(k \<mapsto> number_entry (now_ms tk) t (int_to_string n) (engine_lookup L e k))"
    using st by (simp add: stores_def)
  ultimately have "plain L T e' (m(k \<mapsto> (int_to_string n, t)))"
    by (intro plain_update [OF assms(1) l]) (simp_all add: entry_view_def e'(2) assms(4))
  then show ?thesis using e'(1) by blast
qed

text \<open>A step that stores its result, faults or refuses, as the abstract step does.\<close>

lemma plain_storage_step:
  assumes "plain L T e m" and "now_ms tk \<le> T"
  shows "case spec_step d k m of
       Returns (Some n, m') \<Rightarrow> \<exists>e'. storage_step L tk d k e = Returns (Some n, e') \<and> plain L T e' m'
     | Returns (None, m') \<Rightarrow> storage_step L tk d k e = Returns (None, e) \<and> m' = m
     | Faults f \<Rightarrow> storage_step L tk d k e = Faults f
     | Diverges \<Rightarrow> False"
  using assms(1)
proof (cases rule: plain_cases [where k = k])
  case absent
  then have "storage_step L tk d k e = store_number L tk k None 0 d e"
    by (simp add: storage_step_def flip: engine_lookup_def)
  then show ?thesis
    using plain_store_number [OF assms(1), of d None k 0 tk] absent
    by (simp add: spec_step_def store_number_fault)
next
  case (present ent)
  note k = present(1-3) present(4) [OF assms(2)]
  show ?thesis
  proof (cases "\<exists>n. from_chars_i64 (chars (entry_value ent)) = Inr (n, [])")
    case True
    then obtain n where n: "from_chars_i64 (chars (entry_value ent)) = Inr (n, [])" by blast
    then have "storage_step L tk d k e = store_number L tk k (Some ent) (expire_at_ms ent) (n + d) e"
      using k by (simp add: storage_step_def flip: engine_lookup_def)
    then show ?thesis
      using plain_store_number [OF assms(1), of "n + d" "Some ent" k "expire_at_ms ent" tk] k n
      by (simp add: spec_step_def store_number_fault)
  next
    case False
    then show ?thesis
      using k by (auto simp: spec_step_def storage_step_def simp flip: engine_lookup_def split: sum.splits list.splits)
  qed
qed

section \<open>Commands\<close>

text \<open>The deadline that a command sets, at the time \<open>now\<close>.\<close>

definition relative :: "RESPValue \<Rightarrow> bool" where
  "relative request \<longleftrightarrow> command_of request = ''EXPIRE'' \<or> command_of request = ''PEXPIRE''"

definition expire_ms :: "RESPValue \<Rightarrow> int option" where
  "expire_ms request =
     (case from_chars_i64 (arg request 2) of
        Inl _ \<Rightarrow> None
      | Inr (n, _) \<Rightarrow> Some (if command_of request = ''EXPIRE'' then n * 1000 else n))"

definition deadline_of :: "u64 \<Rightarrow> RESPValue \<Rightarrow> u64 option" where
  "deadline_of now request =
     (if argc request \<noteq> 3 then None
      else if relative request then map_option (\<lambda>ms. now + of_int ms) (expire_ms request)
      else if command_of request = ''PEXPIREAT'' then
        (case from_chars_u64 (arg request 2) of Inl _ \<Rightarrow> None | Inr (n, _) \<Rightarrow> Some (of_int n))
      else None)"

text \<open>The map afterwards when the command writes (and is logged), \<open>None\<close> when it does not.\<close>

definition plain_effect :: "u64 \<Rightarrow> RESPValue \<Rightarrow> kv \<Rightarrow> kv option run" where
  "plain_effect now request m =
     (let cmd = command_of request; key = arg request 1
      in if \<not> valid_request request then Returns None
         else if cmd = ''SET'' then Returns (if 3 \<le> argc request then Some (m(key \<mapsto> (arg request 2, 0))) else None)
         else if cmd = ''DEL'' then
           Returns (if 2 \<le> argc request \<and> (\<exists>k\<in>set (key_args request). m k \<noteq> None)
             then Some (m |` (- set (key_args request))) else None)
         else if cmd = ''INCR'' then if argc request = 2 then counter_effect 1 key m else Returns None
         else if cmd = ''DECR'' then if argc request = 2 then counter_effect (- 1) key m else Returns None
         else if cmd = ''PERSIST'' then Returns (if argc request = 2 then persist_effect key m else None)
         else if relative request \<and> argc request = 3 \<and> (\<exists>ms\<in>set_option (expire_ms request). \<not> in_int64 ms)
           then Faults Signed_overflow
         else Returns (case deadline_of now request of None \<Rightarrow> None | Some t \<Rightarrow> deadline_effect key t m))"

text \<open>What is logged of a command that writes.\<close>

definition logged_form :: "call \<Rightarrow> RESPValue \<Rightarrow> RESPValue" where
  "logged_form cl request =
     (if relative request
      then case deadline_of (log_clock cl) request of Some t \<Rightarrow> pexpireat_cmd (arg request 1) t | None \<Rightarrow> request
      else request)"

text \<open>A command before the horizon: it does not set the memory limit, a deadline that it sets lies beyond the
  horizon, and a relative deadline is logged within the millisecond in which it was set.\<close>

definition timely :: "u64 \<Rightarrow> call \<Rightarrow> RESPValue \<Rightarrow> bool" where
  "timely T cl request \<longleftrightarrow>
     command_of request \<noteq> ''CONFIG'' \<and> now_ms (engine_tick cl) \<le> T \<and>
     (relative request \<longrightarrow> log_clock cl = now_ms (engine_tick cl)) \<and>
     (case deadline_of (now_ms (engine_tick cl)) request of None \<Rightarrow> True | Some t \<Rightarrow> beyond T t)"

text \<open>An outcome on a plain engine that held \<open>m\<close>: it faults as predicted, or the engine is plain again with
  the predicted map and the log has grown by the frame exactly when the map was written to.\<close>

fun plain_outcome :: "lib \<Rightarrow> u64 \<Rightarrow> RESPValue \<Rightarrow> bool \<Rightarrow> System \<Rightarrow> kv \<Rightarrow> kv option run \<Rightarrow> dispatched \<Rightarrow> bool" where
  "plain_outcome L T frame logging w m (Returns mo) out =
     (\<exists>r w'. out = Returns (r, w') \<and> plain L T (storage_engine w') (case mo of None \<Rightarrow> m | Some m' \<Rightarrow> m') \<and>
        logs (if logging \<and> mo \<noteq> None then [frame] else []) w w')"
| "plain_outcome L T frame logging w m (Faults f) out = (out = Faults f)"
| "plain_outcome L T frame logging w m Diverges out = False"

lemma plain_outcome_same [simp]:
  "plain_outcome L T frame lg w m (Returns None) (answer v w) = plain L T (storage_engine w) m"
  "plain_outcome L T frame lg w m (Returns None) (wrong_number s w) = plain L T (storage_engine w) m"
  "plain_outcome L T frame lg w m (Returns None) (answer v (w\<lparr>storage_engine := e\<rparr>)) = plain L T e m"
  by (simp_all add: answer_def wrong_number_def logs_def)

lemma plain_outcome_log:
  assumes "plain L T e (case mo of None \<Rightarrow> m | Some m' \<Rightarrow> m')" and "b \<longleftrightarrow> lg \<and> mo \<noteq> None"
  shows "plain_outcome L T frame lg w m (Returns mo) (answer v (log_when b frame (w\<lparr>storage_engine := e\<rparr>)))"
  using assms logs_log_when [of b frame w e] by (auto simp: answer_def log_when_def)

declare plain_outcome.simps [simp del]

lemma plain_outcome_set:
  assumes "plain L T (storage_engine w) m"
  shows "plain_outcome L T request (aof \<and> \<not> bp) w m
     (Returns (if 3 \<le> argc request then Some (m(arg request 1 \<mapsto> (arg request 2, 0))) else None))
     (cmd_set L cl request aof bp w)"
proof (cases "3 \<le> argc request")
  case True
  obtain ok e where s: "storage_set L (engine_tick cl) (arg request 1) (arg request 2) (storage_engine w) = (ok, e)"
    by fastforce
  note p = plain_set [OF assms s]
  then have "cmd_set L cl request aof bp w =
      answer (create_simple_string ''OK'') (log_when (aof \<and> \<not> bp) request (w\<lparr>storage_engine := e\<rparr>))"
    using True s by (simp add: cmd_set_def Let_def)
  then show ?thesis using True p(2) by (simp add: plain_outcome_log)
next
  case False
  then show ?thesis using assms by (simp add: cmd_set_def)
qed

lemma plain_outcome_del:
  assumes "plain L T (storage_engine w) m"
  shows "plain_outcome L T request (aof \<and> \<not> bp) w m
     (Returns (if 2 \<le> argc request \<and> (\<exists>k\<in>set (key_args request). m k \<noteq> None)
        then Some (m |` (- set (key_args request))) else None))
     (cmd_del L request aof bp w)"
proof (cases "2 \<le> argc request")
  case True
  obtain n e where d: "storage_del L (key_args request) (storage_engine w) = (n, e)" by fastforce
  note p = plain_del [OF assms d]
  have c: "cmd_del L request aof bp w =
      answer (create_integer n) (log_when (aof \<and> \<not> bp \<and> 0 < n) request (w\<lparr>storage_engine := e\<rparr>))"
    using True d by (simp add: cmd_del_def Let_def)
  have "m |` (- set (key_args request)) = m" if "\<not> 0 < n"
  proof -
    have "\<forall>k\<in>set (key_args request). m k = None" using p(2) that by blast
    then show ?thesis by (auto simp: restrict_map_def fun_eq_iff)
  qed
  then show ?thesis unfolding c using True p by (intro plain_outcome_log) auto
next
  case False
  then show ?thesis using assms by (simp add: cmd_del_def)
qed

lemma plain_outcome_counter:
  assumes "plain L T (storage_engine w) m" and "now_ms tk \<le> T" and "op = storage_step L tk d (arg request 1)"
  shows "plain_outcome L T request (aof \<and> \<not> bp) w m
     (if argc request = 2 then counter_effect d (arg request 1) m else Returns None)
     (cmd_counter op name request aof bp w)"
proof (cases "argc request = 2")
  case True
  note p = plain_storage_step [OF assms(1,2), where d = d and k = "arg request 1"]
  show ?thesis
  proof (cases "spec_step d (arg request 1) m")
    case (Returns x)
    obtain r m' where x: "x = (r, m')" by fastforce
    show ?thesis
    proof (cases r)
      case None
      then show ?thesis using p Returns x True assms by (simp add: cmd_counter_def counter_effect_def Let_def)
    next
      case (Some n)
      then obtain e where "storage_step L tk d (arg request 1) (storage_engine w) = Returns (Some n, e)" "plain L T e m'"
        using p Returns x by auto
      then show ?thesis
        using Returns Some x True assms(3) by (simp add: cmd_counter_def counter_effect_def Let_def plain_outcome_log)
    qed
  qed (use p True assms(3) in \<open>simp_all add: cmd_counter_def counter_effect_def plain_outcome.simps\<close>)
next
  case False
  then show ?thesis using assms by (simp add: cmd_counter_def)
qed

lemma plain_outcome_persist:
  assumes "plain L T (storage_engine w) m" and "now_ms (engine_tick cl) \<le> T"
  shows "plain_outcome L T request (aof \<and> \<not> bp) w m
     (Returns (if argc request = 2 then persist_effect (arg request 1) m else None))
     (cmd_persist L cl request aof bp w)"
proof (cases "argc request = 2")
  case True
  obtain b e where s: "storage_persist L (now_ms (engine_tick cl)) (arg request 1) (storage_engine w) = (b, e)" by fastforce
  then have "cmd_persist L cl request aof bp w =
      answer (create_integer (flag b)) (log_when (aof \<and> \<not> bp \<and> b) request (w\<lparr>storage_engine := e\<rparr>))"
    using True by (simp add: cmd_persist_def Let_def)
  then show ?thesis
    using True plain_persist [OF assms s] by (simp only: simp_thms if_True) (intro plain_outcome_log; simp)
next
  case False
  then show ?thesis using assms by (simp add: cmd_persist_def)
qed

text \<open>The commands that set a deadline.\<close>

lemma plain_outcome_deadline:
  assumes "plain L T (storage_engine w) m" and "now \<le> T" and "beyond T t"
    and "storage_expire_at L now key t (storage_engine w) = (b, e)"
  shows "plain_outcome L T frame (aof \<and> \<not> bp) w m (Returns (deadline_effect key t m))
     (answer (create_integer (flag b)) (log_when (aof \<and> \<not> bp \<and> b) frame (w\<lparr>storage_engine := e\<rparr>)))"
  using plain_expire_at [OF assms] by (intro plain_outcome_log) auto

lemma plain_outcome_pexpireat:
  assumes "plain L T (storage_engine w) m" and "timely T cl request" and "command_of request = ''PEXPIREAT''"
  shows "plain_outcome L T request (aof \<and> \<not> bp) w m
     (Returns (case deadline_of now request of None \<Rightarrow> None | Some t \<Rightarrow> deadline_effect (arg request 1) t m))
     (cmd_pexpireat L cl request aof bp w)"
proof (cases "argc request = 3 \<and> (\<exists>n rest. from_chars_u64 (arg request 2) = Inr (n, rest))")
  case True
  then obtain n rest where n: "from_chars_u64 (arg request 2) = Inr (n, rest)" by blast
  obtain b e where s: "storage_expire_at L (now_ms (engine_tick cl)) (arg request 1) (of_int n) (storage_engine w) = (b, e)"
    by fastforce
  have d: "deadline_of now' request = Some (of_int n)" for now'
    using True n assms(3) by (simp add: deadline_of_def relative_def)
  then have "now_ms (engine_tick cl) \<le> T" and "beyond T (of_int n)"
    using assms(2) by (simp_all add: timely_def)
  from plain_outcome_deadline [OF assms(1) this s, of request aof bp] show ?thesis
    using True n s d by (simp add: cmd_pexpireat_def Let_def)
next
  case False
  then show ?thesis
    using assms by (auto simp: cmd_pexpireat_def deadline_of_def relative_def Let_def split: sum.splits)
qed

lemma plain_outcome_expire:
  assumes "plain L T (storage_engine w) m" and "timely T cl request" and "relative request"
  shows "plain_outcome L T (logged_form cl request) (aof \<and> \<not> bp) w m
     (if argc request = 3 \<and> (\<exists>ms\<in>set_option (expire_ms request). \<not> in_int64 ms) then Faults Signed_overflow
      else Returns (case deadline_of (now_ms (engine_tick cl)) request of None \<Rightarrow> None
        | Some t \<Rightarrow> deadline_effect (arg request 1) t m))
     (cmd_expire L cl (command_of request) request aof bp w)"
proof (cases "argc request = 3 \<and> (\<exists>ms. expire_ms request = Some ms)")
  case True
  then obtain ms where ms: "expire_ms request = Some ms" by blast
  let ?now = "now_ms (engine_tick cl)"
  obtain b e where s: "storage_expire_at L ?now (arg request 1) (?now + of_int ms) (storage_engine w) = (b, e)" by fastforce
  have d: "deadline_of now request = Some (now + of_int ms)" for now
    using True ms assms(3) by (simp add: deadline_of_def)
  then have T: "?now \<le> T" "beyond T (?now + of_int ms)" and lc: "log_clock cl = ?now"
    using assms(2,3) by (simp_all add: timely_def)
  have frame: "logged_form cl request = pexpireat_cmd (arg request 1) (?now + of_int ms)"
    using assms(3) d lc by (simp add: logged_form_def)
  show ?thesis
  proof (cases "in_int64 ms")
    case in64: True
    have "cmd_expire L cl (command_of request) request aof bp w =
        answer (create_integer (flag b)) (log_when (aof \<and> \<not> bp \<and> b) (logged_form cl request) (w\<lparr>storage_engine := e\<rparr>))"
      using True ms in64 s lc frame
      by (auto simp: cmd_expire_def expire_ms_def Let_def storage_expire_eq split: sum.splits)
    then show ?thesis
      using plain_outcome_deadline [OF assms(1) T s] True ms in64 d by simp
  next
    case False
    then show ?thesis
      using True ms by (auto simp: cmd_expire_def expire_ms_def Let_def plain_outcome.simps split: sum.splits)
  qed
next
  case False
  then show ?thesis
    using assms by (auto simp: cmd_expire_def expire_ms_def deadline_of_def Let_def split: sum.splits)
qed

lemma plain_outcome_readers:
  assumes "plain L T (storage_engine w) m" and "now_ms (engine_tick cl) \<le> T"
  shows "plain_outcome L T frame lg w m (Returns None) (cmd_get L cl request w)"
    and "plain_outcome L T frame lg w m (Returns None) (cmd_exists L cl request w)"
    and "plain_outcome L T frame lg w m (Returns None) (cmd_ttl L cl cmd request w)"
  using assms
  by (auto simp: cmd_get_def cmd_exists_def cmd_ttl_def Let_def
      split: prod.split option.split
      intro: plain_get [OF assms] plain_exists [OF assms] plain_pttl [OF assms])

lemma plain_outcome_fixed:
  assumes "plain L T (storage_engine w) m"
  shows "plain_outcome L T frame lg w m (Returns None) (cmd_ping request w)"
    and "plain_outcome L T frame lg w m (Returns None) (cmd_echo request w)"
    and "plain_outcome L T frame lg w m (Returns None) (cmd_quit request w)"
    and "plain_outcome L T frame lg w m (Returns None) (cmd_info request aof ro w)"
    and "plain_outcome L T frame lg w m (Returns None) (cmd_psync request w)"
  using assms
  by (simp_all add: cmd_ping_def cmd_echo_def cmd_quit_def cmd_info_def cmd_psync_def Let_def
      plain_outcome.simps(1) [of _ _ _ _ _ _ None "Returns _"] split: sum.split)

text \<open>Every command, by the chain of the dispatcher.\<close>

lemma relative_cases:
  assumes "\<not> relative request" and "command_of request \<noteq> ''PEXPIREAT''"
  shows "deadline_of now request = None"
  using assms by (simp add: deadline_of_def)

lemma plain_effect_invalid: "\<not> valid_request request \<Longrightarrow> plain_effect now request m = Returns None"
  by (simp add: plain_effect_def)

lemma plain_effect_relative:
  assumes "relative request" and "valid_request request"
  shows "plain_effect now request m =
     (if argc request = 3 \<and> (\<exists>ms\<in>set_option (expire_ms request). \<not> in_int64 ms) then Faults Signed_overflow
      else Returns (case deadline_of now request of None \<Rightarrow> None | Some t \<Rightarrow> deadline_effect (arg request 1) t m))"
proof -
  have "command_of request \<noteq> ''SET''" "command_of request \<noteq> ''DEL''" "command_of request \<noteq> ''INCR''"
    "command_of request \<noteq> ''DECR''" "command_of request \<noteq> ''PERSIST''"
    using assms(1) unfolding relative_def by (elim disjE; simp)+
  then show ?thesis
    unfolding plain_effect_def Let_def using assms by (simp only: simp_thms if_False)
qed

lemma run_command_plain:
  assumes "plain L T (storage_engine w) m" and "valid_request request" and "timely T cl request"
  shows "plain_outcome L T (logged_form cl request) (aof \<and> \<not> bp) w m (plain_effect (now_ms (engine_tick cl)) request m)
     (run_command L cl (command_of request) request aof ro bp w)"
proof (cases "relative request")
  case True
  then have "run_command L cl (command_of request) request aof ro bp w = cmd_expire L cl (command_of request) request aof bp w"
    unfolding relative_def by (elim disjE) (simp_all add: run_command_def)
  then show ?thesis
    using plain_outcome_expire [OF assms(1,3) True] plain_effect_relative [OF True assms(2)] by (simp only:)
next
  case False
  then have frame: "logged_form cl request = request" by (simp add: logged_form_def)
  have now: "now_ms (engine_tick cl) \<le> T" and no_config: "command_of request \<noteq> ''CONFIG''"
    using assms(3) by (simp_all add: timely_def)
  note readers = plain_outcome_readers [OF assms(1) now] plain_outcome_fixed [OF assms(1)]
  note counter = plain_outcome_counter [OF assms(1) now]
  consider "command_of request = ''SET''" | "command_of request = ''DEL''" | "command_of request = ''INCR''"
    | "command_of request = ''DECR''" | "command_of request = ''PERSIST''" | "command_of request = ''PEXPIREAT''"
    | "command_of request \<notin> {''SET'', ''DEL'', ''INCR'', ''DECR'', ''PERSIST'', ''PEXPIREAT''}" by blast
  then have "plain_outcome L T request (aof \<and> \<not> bp) w m (plain_effect (now_ms (engine_tick cl)) request m)
      (run_command L cl (command_of request) request aof ro bp w)"
  proof cases
    case 1
    then show ?thesis
      using plain_outcome_set [OF assms(1), of request aof bp cl] assms(2) by (simp add: plain_effect_def run_command_def del: One_nat_def split del: if_split)
  next
    case 2
    then show ?thesis
      using plain_outcome_del [OF assms(1), of request aof bp] assms(2) by (simp add: plain_effect_def run_command_def del: One_nat_def split del: if_split)
  next
    case 3
    then show ?thesis
      using counter [of "storage_incr L (engine_tick cl) (arg request 1)" 1 request aof bp "''incr''"] assms(2)
      by (simp add: plain_effect_def run_command_def cmd_incr_def storage_incr_def fun_eq_iff del: One_nat_def split del: if_split)
  next
    case 4
    then show ?thesis
      using counter [of "storage_decr L (engine_tick cl) (arg request 1)" "- 1" request aof bp "''decr''"] assms(2)
      by (simp add: plain_effect_def run_command_def cmd_decr_def storage_decr_def fun_eq_iff del: One_nat_def split del: if_split)
  next
    case 5
    then show ?thesis
      using plain_outcome_persist [OF assms(1) now, of request aof bp] assms(2) by (simp add: plain_effect_def run_command_def del: One_nat_def split del: if_split)
  next
    case 6
    then show ?thesis
      using plain_outcome_pexpireat [OF assms(1,3) 6, of aof bp] assms(2) False
      by (simp add: plain_effect_def run_command_def del: One_nat_def split del: if_split)
  next
    case 7
    then have "plain_effect (now_ms (engine_tick cl)) request m = Returns None"
      using assms(2) False by (simp add: plain_effect_def relative_cases)
    then show ?thesis
      using 7 False no_config assms(1) readers by (simp add: run_command_def relative_def)
  qed
  then show ?thesis by (simp only: frame)
qed

lemma dispatch_plain:
  assumes "plain L T (storage_engine w) m" and "timely T cl request" and "\<not> (ro \<and> \<not> bp)"
  shows "plain_outcome L T (logged_form cl request) (aof \<and> \<not> bp) (counted w) m
     (plain_effect (now_ms (engine_tick cl)) request m) (dispatch L cl request aof ro bp w)"
proof (cases "valid_request request")
  case True
  then show ?thesis
    using run_command_plain [of L T "counted w" m request] assms dispatch_runs [OF True, of ro bp L cl aof w] by auto
next
  case False
  then have "plain_effect now request m = Returns None" for now by (rule plain_effect_invalid)
  moreover have "\<exists>v. dispatch L cl request aof ro bp w = answer v (counted w)"
    using False by (cases rule: dispatch_cases [of L cl request aof ro bp w]) auto
  ultimately show ?thesis using assms(1) by auto
qed

section \<open>What was logged\<close>

text \<open>A logged command: it sets no relative deadline, so the time at which it is replayed does not matter
  before the horizon.\<close>

definition replayable :: "u64 \<Rightarrow> RESPValue \<Rightarrow> bool" where
  "replayable T v \<longleftrightarrow>
     command_of v \<noteq> ''CONFIG'' \<and> \<not> relative v \<and>
     (case deadline_of 0 v of None \<Rightarrow> True | Some t \<Rightarrow> beyond T t)"

lemma deadline_of_absolute: "\<not> relative v \<Longrightarrow> deadline_of now v = deadline_of 0 v"
  by (simp add: deadline_of_def)

lemma plain_effect_absolute:
  assumes "\<not> relative v"
  shows "plain_effect now v = plain_effect 0 v"
  by (rule ext) (simp only: plain_effect_def deadline_of_absolute [OF assms, of now])

lemma replayable_timely:
  "replayable T v \<Longrightarrow> now_ms (engine_tick cl) \<le> T \<Longrightarrow> timely T cl v"
  using deadline_of_absolute [of v "now_ms (engine_tick cl)"] by (simp add: replayable_def timely_def)

lemma pexpireat_cmd_props:
  "valid_request (pexpireat_cmd k t)" "command_of (pexpireat_cmd k t) = ''PEXPIREAT''"
  "argc (pexpireat_cmd k t) = 3" "arg (pexpireat_cmd k t) 1 = k" "\<not> relative (pexpireat_cmd k t)"
  "deadline_of now (pexpireat_cmd k t) = Some t"
proof -
  show c: "command_of (pexpireat_cmd k t) = ''PEXPIREAT''" and a: "argc (pexpireat_cmd k t) = 3"
    by (simp_all add: command_of_def argc_def arg_def pexpireat_cmd_def create_bulk_string_def to_upper_def toupper_char_def)
  show "valid_request (pexpireat_cmd k t)" "arg (pexpireat_cmd k t) 1 = k"
    by (simp_all add: valid_request_def arg_def pexpireat_cmd_def create_bulk_string_def)
  show r: "\<not> relative (pexpireat_cmd k t)" using c by (simp add: relative_def)
  have "arg (pexpireat_cmd k t) 2 = int_to_string (uint t)"
    by (simp add: arg_def pexpireat_cmd_def create_bulk_string_def)
  moreover have "from_chars_u64 (int_to_string (uint t)) = Inr (uint t, [])"
    using from_chars_u64_to_string [of "uint t" "[]"] uint_lt2p [of t] by (simp add: int64_defs)
  ultimately show "deadline_of now (pexpireat_cmd k t) = Some t" using c a r by (simp add: deadline_of_def)
qed

text \<open>The logged form of a command that wrote can be replayed, with the same effect, at any time.\<close>

lemma logged_form_replays:
  assumes "timely T cl request" and "plain_effect (now_ms (engine_tick cl)) request m = Returns (Some m')"
  shows "replayable T (logged_form cl request)" and "plain_effect now (logged_form cl request) m = Returns (Some m')"
proof -
  let ?now = "now_ms (engine_tick cl)"
  have "replayable T (logged_form cl request) \<and> plain_effect now (logged_form cl request) m = Returns (Some m')"
  proof (cases "relative request")
    case True
    have v: "valid_request request"
      using assms(2) plain_effect_invalid [of request] by (cases "valid_request request") simp_all
    then obtain t where t: "deadline_of ?now request = Some t" "deadline_effect (arg request 1) t m = Some m'"
      using assms(2) unfolding plain_effect_relative [OF True v] by (auto split: if_splits option.splits)
    then have "logged_form cl request = pexpireat_cmd (arg request 1) t" and "beyond T t"
      using True assms(1) by (simp_all add: logged_form_def timely_def)
    then show ?thesis
      using t(2) pexpireat_cmd_props [where k = "arg request 1" and t = t] by (simp add: replayable_def plain_effect_def del: One_nat_def)
  next
    case False
    then show ?thesis
      using assms deadline_of_absolute [OF False, of ?now] plain_effect_absolute [OF False, of ?now]
        plain_effect_absolute [OF False, of now]
      by (simp add: logged_form_def replayable_def timely_def)
  qed
  then show "replayable T (logged_form cl request)" and "plain_effect now (logged_form cl request) m = Returns (Some m')"
    by simp_all
qed

lemma resp_depth_elems: "array_value v \<noteq> [] \<Longrightarrow> 2 \<le> resp_depth v"
proof (cases v)
  case (RESPValue ty s i arr)
  moreover assume "array_value v \<noteq> []"
  ultimately obtain x xs where "arr = x # xs" by (cases arr) auto
  moreover have "1 \<le> resp_depth x" by (cases x) simp
  ultimately show ?thesis using RESPValue by simp
qed

lemma logged_form_frame:
  assumes "frame_ok depth request" and "valid_request request"
  shows "frame_ok depth (logged_form cl request)"
proof -
  have "2 \<le> depth" using assms resp_depth_elems [of request] by (simp add: frame_ok_def valid_request_def)
  moreover have "resp_wf (pexpireat_cmd k t)" "resp_depth (pexpireat_cmd k t) = 2" for k t
    by (simp_all add: pexpireat_cmd_def create_bulk_string_def)
  ultimately show ?thesis
    using assms(1) by (auto simp: logged_form_def frame_ok_def split: option.split)
qed

end
