(* ===== verification/Durability.thy ===== *)
theory Durability
  imports Horizon
begin

text \<open>
  What survives a restart. The log of a run before a horizon (see \<open>Horizon\<close>) consists of the logged forms
  of the requests that wrote something, and replays to the map that the server had; every prefix of
  it replays to a map that the server had earlier. So does what is left of a log that was cut off.
\<close>

section \<open>A log and what it replays to\<close>

fun replays :: "RESPValue list \<Rightarrow> kv \<Rightarrow> kv option" where
  "replays [] m = Some m"
| "replays (v # vs) m = (case plain_effect 0 v m of Returns (Some m1) \<Rightarrow> replays vs m1 | _ \<Rightarrow> None)"

text \<open>Dispatching a logged command on an engine that holds the map it was logged for.\<close>

lemma dispatch_logged:
  assumes "plain L T (storage_engine w) m" and "plain_effect 0 v m = Returns (Some m')" and "replayable T v"
    and "now_ms (engine_tick cl) \<le> T"
  obtains r w' where "dispatch L cl v False replica True w = Returns (r, w')" "plain L T (storage_engine w') m'"
proof -
  have "plain_effect (now_ms (engine_tick cl)) v m = Returns (Some m')"
    using assms(2,3) plain_effect_absolute [of v "now_ms (engine_tick cl)"] by (simp add: replayable_def)
  with dispatch_plain [OF assms(1) replayable_timely [OF assms(3,4)], of replica True False]
  show thesis using that by (auto simp: plain_outcome.simps)
qed

lemma replay_plain:
  assumes "plain L T (storage_engine w) m" and "replays vs m = Some m'" and "\<forall>v\<in>set vs. replayable T v"
    and "\<forall>i. now_ms (engine_tick (calls i)) \<le> T" and "loaded + int (length vs) \<le> int32_max"
  shows "\<exists>w'. run_fold (replay_one L calls replica) (loaded, w) vs = Returns (loaded + int (length vs), w') \<and>
     plain L T (storage_engine w') m'"
  using assms
proof (induction vs arbitrary: loaded w m)
  case (Cons v vs)
  obtain m1 where m1: "plain_effect 0 v m = Returns (Some m1)" "replays vs m1 = Some m'"
    using Cons.prems(2) by (auto split: run.splits option.splits)
  have "replayable T v" using Cons.prems(3) by simp
  from dispatch_logged [OF Cons.prems(1) m1(1) this, of "calls (nat loaded)" replica] Cons.prems(4)
  obtain r w1 where "dispatch L (calls (nat loaded)) v False replica True w = Returns (r, w1)"
    and p: "plain L T (storage_engine w1) m1" by blast
  then have "replay_one L calls replica (loaded, w) v = Returns (loaded + 1, w1)"
    using Cons.prems(5) by (simp add: replay_one_def)
  then show ?case using Cons.IH [OF p m1(2), of "loaded + 1"] Cons.prems(3-5) by (simp add: add_ac)
qed simp

text \<open>The requests that clients of a primary send, in the order in which they are dispatched.\<close>

definition client_request :: "lib \<Rightarrow> (nat \<Rightarrow> call) \<Rightarrow> nat \<times> System \<Rightarrow> RESPValue \<Rightarrow> (nat \<times> System) run" where
  "client_request L calls st request =
     (let (n, w) = st
      in map_run (\<lambda>(_, w'). (n + 1, w')) (dispatch L (calls n) request True False False w))"

lemma client_request_plain:
  assumes "plain L T (storage_engine w) m" and "timely T (calls n) request" and "is_open (aof_logger w)"
    and "client_request L calls (n, w) request = Returns (n', w')"
  obtains "plain L T (storage_engine w') m" "is_open (aof_logger w')" "n' = n + 1"
      "file_content (aof_logger w') = file_content (aof_logger w)"
  | m' v where "v = logged_form (calls n) request" "valid_request request" "plain_effect 0 v m = Returns (Some m')"
      "replayable T v" "plain L T (storage_engine w') m'" "is_open (aof_logger w')" "n' = n + 1"
      "file_content (aof_logger w') = file_content (aof_logger w) @ serialize v"
proof -
  let ?eff = "plain_effect (now_ms (engine_tick (calls n))) request m"
  obtain r where d: "dispatch L (calls n) request True False False w = Returns (r, w')" and n': "n' = n + 1"
    using assms(4) by (cases "dispatch L (calls n) request True False False w") (auto simp: client_request_def)
  have po: "plain_outcome L T (logged_form (calls n) request) True (counted w) m ?eff (Returns (r, w'))"
    using dispatch_plain [OF assms(1,2), of False False True] d by simp
  then obtain mo where mo: "?eff = Returns mo" by (cases ?eff) (auto simp: plain_outcome.simps)
  with po have pl: "plain L T (storage_engine w') (case mo of None \<Rightarrow> m | Some m' \<Rightarrow> m')"
    and lo: "logs (if mo \<noteq> None then [logged_form (calls n) request] else []) (counted w) w'"
    by (auto simp: plain_outcome.simps split: if_splits)
  show thesis
  proof (cases mo)
    case None
    then show ?thesis using that(1) pl lo n' assms(3) by (auto simp: logs_def)
  next
    case (Some m')
    then have e: "?eff = Returns (Some m')" using mo by simp
    then have "valid_request request" using plain_effect_invalid [of request] by (cases "valid_request request") simp_all
    then show ?thesis
      using that(2) [OF refl _ logged_form_replays(2,1) [OF assms(2) e]] Some pl lo n' assms(3) by (auto simp: logs_def)
  qed
qed

text \<open>A log of a run: every prefix of it replays to the map that the engine held after some of the
  requests.\<close>

definition accounts_for ::
  "lib \<Rightarrow> u64 \<Rightarrow> (nat \<Rightarrow> call) \<Rightarrow> System \<Rightarrow> kv \<Rightarrow> RESPValue list \<Rightarrow> RESPValue list \<Rightarrow> bool" where
  "accounts_for L T calls w m rs vs \<longleftrightarrow>
     (\<forall>us ws. vs = us @ ws \<longrightarrow>
        (\<exists>rs1 rs2 n1 w1 m1. rs = rs1 @ rs2 \<and> run_fold (client_request L calls) (0, w) rs1 = Returns (n1, w1) \<and>
           plain L T (storage_engine w1) m1 \<and> replays us m = Some m1))"

lemma replays_snoc: "replays vs m = Some m1 \<Longrightarrow> plain_effect 0 v m1 = Returns (Some m2) \<Longrightarrow> replays (vs @ [v]) m = Some m2"
  by (induction vs arbitrary: m) (auto split: run.splits option.splits)

lemma accounts_for_more:
  assumes "accounts_for L T calls w m rs vs"
  shows "accounts_for L T calls w m (rs @ [r]) vs"
  unfolding accounts_for_def
proof (intro allI impI)
  fix us ws
  assume "vs = us @ ws"
  with assms obtain rs1 rs2 n1 w1 m1 where rs: "rs = rs1 @ rs2"
    and r: "run_fold (client_request L calls) (0, w) rs1 = Returns (n1, w1)" "plain L T (storage_engine w1) m1" "replays us m = Some m1"
    unfolding accounts_for_def by blast
  have "rs @ [r] = rs1 @ (rs2 @ [r])" by (simp add: rs)
  with r show "\<exists>rs1 rs2 n1 w1 m1. rs @ [r] = rs1 @ rs2 \<and> run_fold (client_request L calls) (0, w) rs1 = Returns (n1, w1) \<and>
      plain L T (storage_engine w1) m1 \<and> replays us m = Some m1" by blast
qed

lemma accounts_for_snoc:
  assumes "accounts_for L T calls w m rs vs"
    and "run_fold (client_request L calls) (0, w) (rs @ [r]) = Returns (n', w')" and "plain L T (storage_engine w') m'"
    and "replays (vs @ [v]) m = Some m'"
  shows "accounts_for L T calls w m (rs @ [r]) (vs @ [v])"
  unfolding accounts_for_def
proof (intro allI impI)
  fix us ws
  assume eq: "vs @ [v] = us @ ws"
  show "\<exists>rs1 rs2 n1 w1 m1. rs @ [r] = rs1 @ rs2 \<and> run_fold (client_request L calls) (0, w) rs1 = Returns (n1, w1) \<and>
      plain L T (storage_engine w1) m1 \<and> replays us m = Some m1"
  proof (cases ws rule: rev_cases)
    case Nil
    then show ?thesis using eq assms(2-4) by auto
  next
    case (snoc ws' x)
    then have "vs = us @ ws'" using eq by simp
    then show ?thesis using accounts_for_more [OF assms(1), of r] unfolding accounts_for_def by blast
  qed
qed

lemma client_requests_log:
  assumes "plain L T (storage_engine w) m" and "is_open (aof_logger w)"
    and "run_fold (client_request L calls) (0, w) rs = Returns (n', w')"
    and "\<forall>i<length rs. timely T (calls i) (rs ! i)" and "\<forall>r\<in>set rs. frame_ok depth r"
  shows "n' = length rs \<and> is_open (aof_logger w') \<and>
     (\<exists>vs m'. file_content (aof_logger w') = file_content (aof_logger w) @ wire vs \<and> length vs \<le> length rs \<and>
        (\<forall>v\<in>set vs. replayable T v \<and> frame_ok depth v) \<and> plain L T (storage_engine w') m' \<and>
        replays vs m = Some m' \<and> accounts_for L T calls w m rs vs)"
  using assms(3-)
proof (induction rs arbitrary: n' w' rule: rev_induct)
  case Nil
  then show ?case
    using assms(1,2) by (auto simp: accounts_for_def intro!: exI [of _ "[]"])
next
  case (snoc r rs)
  obtain n1 w1 where run: "run_fold (client_request L calls) (0, w) rs = Returns (n1, w1)"
    and s: "client_request L calls (n1, w1) r = Returns (n', w')"
    using snoc.prems(1) by (auto simp: run_fold_append run_bind_eq_Returns)
  have ti: "\<forall>i<length rs. timely T (calls i) (rs ! i)"
    using snoc.prems(2) by (auto simp: nth_append dest: less_SucI)
  have "timely T (calls (length rs)) r"
    using snoc.prems(2) [rule_format, of "length rs"] by simp
  moreover have fr: "\<forall>r\<in>set rs. frame_ok depth r" "frame_ok depth r" using snoc.prems(3) by simp_all
  ultimately obtain vs m1 where n1: "n1 = length rs" and o: "is_open (aof_logger w1)"
    and f: "file_content (aof_logger w1) = file_content (aof_logger w) @ wire vs" "length vs \<le> length rs"
    and vs: "\<forall>v\<in>set vs. replayable T v \<and> frame_ok depth v" "replays vs m = Some m1" "accounts_for L T calls w m rs vs"
    and p: "plain L T (storage_engine w1) m1" and t: "timely T (calls n1) r"
    using snoc.IH [OF run ti fr(1)] by (elim conjE exE) simp
  note more = accounts_for_more [OF vs(3), of r]
  from p t o s show ?case
  proof (cases rule: client_request_plain)
    case 1
    then show ?thesis using n1 f vs(1,2) more by (intro conjI exI [of _ vs] exI [of _ m1]) auto
  next
    case (2 m2 v)
    have re: "replays (vs @ [v]) m = Some m2" by (rule replays_snoc [OF vs(2) 2(3)])
    have "accounts_for L T calls w m (rs @ [r]) (vs @ [v])"
      by (rule accounts_for_snoc [OF vs(3) snoc.prems(1) 2(5) re])
    then show ?thesis
      using n1 2 f vs(1) re logged_form_frame [OF fr(2) 2(2), of "calls n1"]
      by (intro conjI exI [of _ "vs @ [v]"] exI [of _ m2]) auto
  qed
qed

section \<open>Restart and crash\<close>

lemma plain_system_new: "plain L T (storage_engine (system_new a)) Map.empty"
  by (simp add: system_new_def plain_new)

lemma system_new_log [simp]: "aof_logger (system_new a) = a"
  by (simp add: system_new_def)

text \<open>Loading the bytes of a log, with the beginning of a further command behind it.\<close>

lemma load_log:
  assumes "replays vs Map.empty = Some m" and "\<forall>v\<in>set vs. replayable T v \<and> frame_ok depth v"
    and "\<forall>i. now_ms (engine_tick (calls i)) \<le> T" and "int (length vs) \<le> int32_max"
    and "fits (wire vs @ t)" and "partial depth t" and "length vs < fuel"
  shows "\<exists>w'. load_aof L depth calls replica fuel (Some (wire vs @ t)) (system_new a) = Returns w' \<and>
     plain L T (storage_engine w') m"
proof -
  have "\<forall>v\<in>set vs. replayable T v" and ok: "\<forall>v\<in>set vs. frame_ok depth v" and "0 + int (length vs) \<le> int32_max"
    using assms(2,4) by auto
  from replay_plain [OF plain_system_new assms(1) this(1) assms(3) this(3), of L replica a] obtain w' where
    "run_fold (replay_one L calls replica) (0, system_new a) vs = Returns (int (length vs), w')"
    and "plain L T (storage_engine w') m" by auto
  then show ?thesis using load_frames [OF ok assms(5-7), of L calls replica "system_new a"] by simp
qed

definition ex_aof :: AOFLogger where
  "ex_aof = \<lparr>filepath = ''appendonly.aof'', is_open = True, file_content = []\<rparr>"

definition ex_requests :: "RESPValue list" where
  "ex_requests = [bulk_array [''SET'', ''k'', ''5''], bulk_array [''EXPIRE'', ''k'', ''1''], bulk_array [''INCR'', ''k'']]"

lemma ex_requests_run:
  obtains n w where "run_fold (client_request ex_lib (\<lambda>_. ex_call 7)) (0, system_new ex_aof) ex_requests = Returns (n, w)"
    "fits (file_content (aof_logger w))"
proof -
  let ?run = "run_fold (client_request ex_lib (\<lambda>_. ex_call 7)) (0, system_new ex_aof) ex_requests"
  have "map_run (\<lambda>(n, w). fits (file_content (aof_logger w))) ?run = Returns True" by code_simp
  then show thesis using that by (cases ?run) auto
qed

lemma ex_requests_ok:
  "\<forall>i<length ex_requests. timely 1000 (ex_call 7) (ex_requests ! i)" "\<forall>r\<in>set ex_requests. frame_ok 2 r"
  "(0::nat) < 2" "length ex_requests < 4" "int (length ex_requests) \<le> int32_max"
  "is_open ex_aof" "file_content ex_aof = []" "\<forall>i :: nat. now_ms (engine_tick (ex_call 99)) \<le> 1000"
proof -
  have "\<forall>i\<in>set [0..<length ex_requests]. timely 1000 (ex_call 7) (ex_requests ! i)" by code_simp
  then show "\<forall>i<length ex_requests. timely 1000 (ex_call 7) (ex_requests ! i)" by simp
  have "now_ms (engine_tick (ex_call 99)) \<le> 1000" by code_simp
  then show "\<forall>i :: nat. now_ms (engine_tick (ex_call 99)) \<le> 1000" by simp
qed code_simp+





section \<open>Deadlines and the log\<close>

definition ex_deadline_requests :: "RESPValue list" where
  "ex_deadline_requests =
     [bulk_array [''SET'', ''k'', ''5''], bulk_array [''PEXPIREAT'', ''k'', ''2000''],
      bulk_array [''INCR'', ''k''], bulk_array [''PERSIST'', ''k'']]"


end
