(* ===== verification/Replication.thy ===== *)
theory Replication
  imports Durability
begin

text \<open>
  Replication: the handshake, the stream that a primary sends, what a replica does with it, and the
  two together.
\<close>

section \<open>The primary's side\<close>

text \<open>The bytes with which a replica asks to follow are the request a client library would send for
  \<open>PSYNC\<close> with that offset, and the primary that dispatches the request agrees to stream its log from
  exactly that offset on.\<close>

lemma psync_handshake:
  "psync_request offset = serialize (bulk_array [''PSYNC'', int_to_string (uint offset)]) \<and>
   dispatch L cl (bulk_array [''PSYNC'', int_to_string (uint offset)]) aof False bp w =
     Returns (\<lparr>response = create_simple_string ''CONTINUE'', close_connection = False, is_psync = True,
       psync_offset = offset\<rparr>, counted w)"
proof
  have "int_to_string 2 = ''2''" and "int_to_string 5 = ''5''" by code_simp+
  then show "psync_request offset = serialize (bulk_array [''PSYNC'', int_to_string (uint offset)])"
    by (simp add: psync_request_def bulk_array_def create_array_def create_bulk_string_def)
  have "to_upper ''PSYNC'' = ''PSYNC''" by code_simp
  moreover have "from_chars_u64 (int_to_string (uint offset)) = Inr (uint offset, [])"
    using from_chars_u64_to_string [of "uint offset" "[]"] uint_lt2p [of offset] by (simp add: int64_defs)
  ultimately show "dispatch L cl (bulk_array [''PSYNC'', int_to_string (uint offset)]) aof False bp w =
     Returns (\<lparr>response = create_simple_string ''CONTINUE'', close_connection = False, is_psync = True,
       psync_offset = offset\<rparr>, counted w)"
    by (simp add: dispatch_bulk run_command_def cmd_psync_def)
qed

lemma take_drop_step: "take k (drop p xs) @ drop (k + p) xs = drop p xs"
  using append_take_drop_id [of k "drop p xs"] by simp

lemma psync_loop_prefix:
  assumes "\<forall>(content, ok)\<in>set rounds. \<exists>more. final = content @ more"
  shows "\<exists>rest. drop (reader_pos st) final = psync_loop rounds st @ rest"
  using assms
proof (induction rounds arbitrary: st)
  case (Cons x rounds)
  obtain content ok more where x: "x = (content, ok)" "final = content @ more" using Cons.prems by (cases x) auto
  let ?bytes = "fst (reader_read content st)" and ?st = "snd (reader_read content st)"
  have IH: "\<exists>rest. drop (reader_pos st') final = psync_loop rounds st' @ rest" for st'
    using Cons.IH Cons.prems by simp
  show ?case
  proof (cases "?bytes = []")
    case True
    then have "reader_pos ?st = reader_pos st" by (auto simp: reader_read_def Let_def)
    then show ?thesis
      using IH [of "?st\<lparr>reader_failed := False\<rparr>"] x True by (simp add: case_prod_unfold Let_def)
  next
    case False
    then have b: "?bytes = take 4096 (drop (reader_pos st) content)" "reader_pos ?st = reader_pos st + length ?bytes"
      by (auto simp: reader_read_def Let_def split: if_splits)
    let ?rest = "drop (reader_pos st) content"
    have "reader_pos st < length content" using False b(1) by auto
    then have d: "drop (reader_pos st) final = ?rest @ more" by (simp add: x(2))
    have "?rest = ?bytes @ drop (length ?bytes) ?rest" unfolding b(1) by (simp add: min_def take_drop_step)
    then have "?rest @ more = ?bytes @ drop (length ?bytes) (?rest @ more)"
      by (metis append_assoc append_eq_conv_conj)
    then have "drop (reader_pos st) final = ?bytes @ drop (reader_pos ?st) final"
      unfolding b(2) d [symmetric] by (simp add: add.commute)
    then show ?thesis using IH [of ?st] x False by (auto simp: case_prod_unfold Let_def)
  qed
qed simp

lemma psync_loop_done:
  "length content \<le> reader_pos st \<Longrightarrow> psync_loop (replicate n (content, True)) st = []"
proof (induction n arbitrary: st)
  case (Suc n)
  then show ?case by (simp add: reader_read_def Let_def case_prod_unfold)
qed simp

lemma psync_loop_complete:
  assumes "\<not> reader_failed st" and "length (drop (reader_pos st) content) \<le> n"
  shows "psync_loop (replicate n (content, True)) st = drop (reader_pos st) content"
  using assms
proof (induction n arbitrary: st)
  case (Suc n)
  let ?rest = "drop (reader_pos st) content"
  show ?case
  proof (cases "4096 \<le> length ?rest")
    case True
    let ?st = "\<lparr>reader_pos = reader_pos st + 4096, reader_failed = False\<rparr>"
    have "psync_loop (replicate n (content, True)) ?st = drop 4096 ?rest"
      using Suc.IH [of ?st] Suc.prems True by (simp add: add.commute)
    moreover have "take 4096 ?rest \<noteq> []" using True by auto
    ultimately show ?thesis
      using Suc.prems(1) True by (simp add: reader_read_def Let_def min_def take_drop_step)
  next
    case False
    then have "take 4096 ?rest = ?rest" by simp
    then show ?thesis
      using Suc.prems(1) by (auto simp: reader_read_def Let_def case_prod_unfold psync_loop_done)
  qed
qed simp

text \<open>C14. The stream is the log: whatever the file held at each look (always a prefix of what it holds in
  the end) and wherever a write failed, the bytes that went out are the bytes of the log from the
  offset on, without gap or repetition; and with as many looks as there are bytes, all of them.\<close>

theorem psync_stream_exact:
  assumes "uint offset < 2 ^ 63"
    and "\<forall>(content, ok)\<in>set rounds. \<exists>more. final = content @ more" and "length final \<le> n"
  shows "(\<exists>rest. drop (unat offset) final = psync_stream offset rounds @ rest) \<and>
     psync_stream offset (replicate n (final, True)) = drop (unat offset) final"
  using psync_loop_prefix [OF assms(2), of "seekg offset"]
    psync_loop_complete [of "seekg offset" final n] assms(1,3)
  by (simp add: psync_stream_def seekg_def)

theorem psync_stream_exact_witness:
  "psync_stream 2 (replicate 6 (''abcdef'', True)) = drop 2 ''abcdef'' \<and>
   (\<exists>rest. drop 2 ''abcdef'' = psync_stream 2 [(''abc'', True), (''abcd'', True), (''abcde'', True)] @ rest)"
proof -
  have "uint (2 :: u64) < 2 ^ 63" by simp
  moreover have "\<forall>(content, ok)\<in>set [(''abc'', True), (''abcd'', True), (''abcde'', True)]. \<exists>more. ''abcdef'' = content @ more"
    by simp
  moreover have "length ''abcdef'' \<le> 6" by simp
  ultimately have "(\<exists>rest. drop (unat (2 :: u64)) ''abcdef'' = psync_stream 2 [(''abc'', True), (''abcd'', True), (''abcde'', True)] @ rest) \<and>
     psync_stream 2 (replicate 6 (''abcdef'', True)) = drop (unat (2 :: u64)) ''abcdef''"
    by (rule psync_stream_exact)
  then show ?thesis by simp
qed

section \<open>The replica's side\<close>

text \<open>Commands that are applied without a log do not see the log.\<close>

definition with_log :: "AOFLogger \<Rightarrow> System \<Rightarrow> System" where
  "with_log a w = w\<lparr>aof_logger := a\<rparr>"

lemma with_log_simps [simp]:
  "storage_engine (with_log a w) = storage_engine w" "aof_logger (with_log a w) = a"
  "with_log a (with_log b w) = with_log a w" "with_log (aof_logger w) w = w"
  "counted (with_log a w) = with_log a (counted w)"
  "with_log a w\<lparr>storage_engine := e\<rparr> = with_log a (w\<lparr>storage_engine := e\<rparr>)"
  "commands_processed (with_log a w) = commands_processed w"
  "connected_clients (with_log a w) = connected_clients w"
  by (simp_all add: with_log_def counted_def)

abbreviation relog :: "AOFLogger \<Rightarrow> dispatched \<Rightarrow> dispatched" where
  "relog a \<equiv> map_run (\<lambda>(r, w). (r, with_log a w))"

lemma relog_simps [simp]:
  "relog a (answer v w) = answer v (with_log a w)" "relog a (wrong_number s w) = wrong_number s (with_log a w)"
  "log_when False v w = w"
  by (simp_all add: answer_defs)

lemma run_command_relog:
  "run_command L cl cmd request False ro bp (with_log a w) = relog a (run_command L cl cmd request False ro bp w)"
proof -
  have "cmd_counter op name request False bp (with_log a w) = relog a (cmd_counter op name request False bp w)" for op name
    by (cases "op (storage_engine w)") (auto simp: cmd_counter_def Let_def split: option.split)
  then have 1: "cmd_incr L cl request False bp (with_log a w) = relog a (cmd_incr L cl request False bp w)"
    "cmd_decr L cl request False bp (with_log a w) = relog a (cmd_decr L cl request False bp w)"
    by (simp_all add: cmd_incr_def cmd_decr_def)
  have 2: "cmd_set L cl request False bp (with_log a w) = relog a (cmd_set L cl request False bp w)"
    "cmd_get L cl request (with_log a w) = relog a (cmd_get L cl request w)"
    "cmd_del L request False bp (with_log a w) = relog a (cmd_del L request False bp w)"
    "cmd_exists L cl request (with_log a w) = relog a (cmd_exists L cl request w)"
    "cmd_expire L cl cmd request False bp (with_log a w) = relog a (cmd_expire L cl cmd request False bp w)"
    "cmd_pexpireat L cl request False bp (with_log a w) = relog a (cmd_pexpireat L cl request False bp w)"
    "cmd_ttl L cl cmd request (with_log a w) = relog a (cmd_ttl L cl cmd request w)"
    "cmd_persist L cl request False bp (with_log a w) = relog a (cmd_persist L cl request False bp w)"
    by (simp_all add: cmd_set_def cmd_get_def cmd_del_def cmd_exists_def cmd_expire_def cmd_pexpireat_def
        cmd_ttl_def cmd_persist_def Let_def split: prod.split sum.split option.split)
  have 3: "cmd_ping request (with_log a w) = relog a (cmd_ping request w)"
    "cmd_echo request (with_log a w) = relog a (cmd_echo request w)"
    "cmd_quit request (with_log a w) = relog a (cmd_quit request w)"
    "cmd_info request False ro (with_log a w) = relog a (cmd_info request False ro w)"
    "cmd_config request (with_log a w) = relog a (cmd_config request w)"
    "cmd_psync request (with_log a w) = relog a (cmd_psync request w)"
    by (simp_all add: cmd_ping_def cmd_echo_def cmd_quit_def cmd_info_def cmd_config_def cmd_psync_def Let_def
        split: sum.split)
  show ?thesis unfolding run_command_def if_distrib [of "relog a"] 1 2 3 relog_simps ..
qed

lemma dispatch_relog:
  "dispatch L cl request False ro bp (with_log a w) = relog a (dispatch L cl request False ro bp w)"
proof -
  have c: "(with_log a w)\<lparr>commands_processed := commands_processed (with_log a w) + 1\<rparr> =
      with_log a (w\<lparr>commands_processed := commands_processed w + 1\<rparr>)" by (simp add: with_log_def)
  show ?thesis unfolding dispatch_def Let_def c if_distrib [of "relog a"] run_command_relog relog_simps ..
qed

lemma apply_one_relog:
  "apply_one L calls replica (n, with_log a w) v = map_run (\<lambda>(n, w). (n, with_log a w)) (apply_one L calls replica (n, w) v)"
  by (cases "dispatch L (calls n) v False replica True w") (auto simp: apply_one_def dispatch_relog)

lemma apply_loop_relog:
  "apply_loop L depth calls replica fuel c buffer (n, with_log a w) =
     map_run (\<lambda>(b, n, w). (b, n, with_log a w)) (apply_loop L depth calls replica fuel c buffer (n, w))"
proof (induction fuel arbitrary: c buffer n w)
  case (Suc fuel)
  show ?case
  proof (cases "parse depth buffer c")
    case (Returns x)
    obtain req_opt c' where x: "x = (req_opt, c')" by fastforce
    show ?thesis
    proof (cases req_opt)
      case (Some v)
      then show ?thesis
        using Returns x Suc.IH
        by (cases "apply_one L calls replica (n, w) v") (auto simp: apply_one_relog)
    qed (use Returns x in simp)
  qed simp_all
qed simp

text \<open>The replica's loop over the pieces of the stream without its log, as an instance of the contract.\<close>

fun replica_feed ::
  "lib \<Rightarrow> nat \<Rightarrow> (nat \<Rightarrow> call) \<Rightarrow> bool \<Rightarrow> nat \<Rightarrow> string list \<Rightarrow> string \<Rightarrow> nat \<times> System \<Rightarrow> (string \<times> nat \<times> System) run" where
  "replica_feed L depth calls replica fuel [] buffer st = Returns (buffer, st)"
| "replica_feed L depth calls replica fuel (d # ds) buffer st =
     run_bind (apply_loop L depth calls replica fuel 0 (buffer @ d) st)
       (\<lambda>(buffer, st). replica_feed L depth calls replica fuel ds buffer st)"

interpretation rf: chunk_loop depth "apply_one L calls replica" "\<lambda>_. True" "apply_loop L depth calls replica" fuel
    "replica_feed L depth calls replica fuel"
  for L depth calls replica fuel
  by unfold_locales simp_all

lemma replica_feed_relog:
  "replica_feed L depth calls replica fuel ds b (n, with_log a w) =
     map_run (\<lambda>(b, n, w). (b, n, with_log a w)) (replica_feed L depth calls replica fuel ds b (n, w))"
proof (induction ds arbitrary: b n w)
  case (Cons d ds)
  then show ?case
    by (cases "apply_loop L depth calls replica fuel 0 (b @ d) (n, w)") (auto simp: apply_loop_relog)
qed simp

lemma replica_session_streaming:
  assumes "in_stream r" and "connected r"
  shows "replica_session L depth calls replica fuel (map Bytes ds) r =
     map_run (\<lambda>(b, n, w). r\<lparr>rep_system := with_log (aof_log_raw (concat ds) (aof_logger (rep_system r))) w,
         rep_buffer := b, applied := n\<rparr>)
       (replica_feed L depth calls replica fuel ds (rep_buffer r) (applied r, rep_system r))"
  using assms
proof (induction ds arbitrary: r)
  case Nil
  have "aof_log_raw [] a = a" for a by (simp add: aof_log_raw_def)
  then show ?case by simp
next
  case (Cons d ds)
  let ?a = "aof_log_raw d (aof_logger (rep_system r))"
  have rec: "replica_receive L depth calls replica fuel d r =
      map_run (\<lambda>(b, n, w). r\<lparr>rep_system := with_log ?a w, rep_buffer := b, applied := n\<rparr>)
        (apply_loop L depth calls replica fuel 0 (rep_buffer r @ d) (applied r, rep_system r))"
    using Cons.prems(1) apply_loop_relog [of L depth calls replica fuel 0 _ "applied r" ?a "rep_system r"]
    by (cases "apply_loop L depth calls replica fuel 0 (rep_buffer r @ d) (applied r, rep_system r)")
      (auto simp: replica_receive_def replica_apply_def Let_def with_log_def)
  show ?case
  proof (cases "apply_loop L depth calls replica fuel 0 (rep_buffer r @ d) (applied r, rep_system r)")
    case (Returns x)
    obtain b n w where x: "x = (b, n, w)" by (cases x)
    let ?r = "r\<lparr>rep_system := with_log ?a w, rep_buffer := b, applied := n\<rparr>"
    have "replica_session L depth calls replica fuel (map Bytes (d # ds)) r =
        replica_session L depth calls replica fuel (map Bytes ds) ?r"
      using rec Returns x Cons.prems by simp
    also have "\<dots> = map_run (\<lambda>(b, n, w). ?r\<lparr>rep_system := with_log (aof_log_raw (concat ds) ?a) w,
         rep_buffer := b, applied := n\<rparr>)
       (replica_feed L depth calls replica fuel ds b (n, with_log ?a w))"
      using Cons.IH [of ?r] Cons.prems by simp
    finally show ?thesis
      using Returns x
      by (cases "replica_feed L depth calls replica fuel ds b (n, w)")
        (auto simp: replica_feed_relog aof_log_raw_append)
  qed (use rec in simp_all)
qed

text \<open>The answer of the primary may arrive in pieces, too, and with the first bytes of the stream behind it.\<close>

definition hello :: string where
  "hello = ''+CONTINUE'' @ crlf"

lemma find_crlf_hello:
  "find_crlf (hello @ s) = Some 9" "n < length hello \<Longrightarrow> find_crlf (take n hello) = None"
  using find_crlf_append [of "''+CONTINUE''" s] find_crlf_take [of "''+CONTINUE''" n "[]"]
  by (simp_all add: hello_def)

lemma replica_receive_hello:
  assumes "\<not> in_stream r" and "rep_buffer r @ d = hello @ rest"
  shows "replica_receive L depth calls replica fuel d r =
     (if rest = [] then Returns (r\<lparr>in_stream := True, rep_buffer := []\<rparr>)
      else replica_receive L depth calls replica fuel rest (r\<lparr>in_stream := True, rep_buffer := []\<rparr>))"
proof -
  have "take 9 (hello @ rest) = ''+CONTINUE''" and "drop 11 (hello @ rest) = rest" by (simp_all add: hello_def crlf_def)
  then show ?thesis
    using assms
    by (auto simp: replica_receive_def replica_apply_def Let_def find_crlf_hello case_prod_unfold)
qed

lemma replica_session_hello:
  assumes "\<not> in_stream r" and "connected r" and "rep_buffer r @ concat ds = hello @ bytes"
    and "length (rep_buffer r) < length hello"
  shows "\<exists>ds'. concat ds' = bytes \<and> replica_session L depth calls replica fuel (map Bytes ds) r =
     replica_session L depth calls replica fuel (map Bytes ds') (r\<lparr>in_stream := True, rep_buffer := []\<rparr>)"
  using assms
proof (induction ds arbitrary: r)
  case Nil
  from arg_cong [OF Nil.prems(3), of length] Nil.prems(4) show ?case by simp
next
  case (Cons d ds)
  let ?b = "rep_buffer r @ d"
  have eq: "?b @ concat ds = hello @ bytes" using Cons.prems(3) by simp
  then obtain u where u: "?b = hello @ u \<and> u @ concat ds = bytes \<or> ?b @ u = hello \<and> concat ds = u @ bytes"
    by (auto simp only: append_eq_append_conv2)
  show ?case
  proof (cases "length ?b < length hello")
    case True
    then have "hello = ?b @ u" using u by (metis length_append not_add_less1)
    then have "take (length ?b) hello = ?b" by (metis append_eq_conv_conj)
    then have "find_crlf ?b = None" using find_crlf_hello(2) [OF True] by simp
    then have "replica_receive L depth calls replica fuel d r = Returns (r\<lparr>rep_buffer := ?b\<rparr>)"
      using Cons.prems(1) by (simp add: replica_receive_def)
    then show ?thesis using Cons.IH [of "r\<lparr>rep_buffer := ?b\<rparr>"] Cons.prems(1,2) eq True by simp
  next
    case False
    then have "u = []" if "?b @ u = hello"
      using arg_cong [OF that, of length] by (simp flip: length_0_conv)
    then obtain rest where rest: "?b = hello @ rest" "rest @ concat ds = bytes"
      using u by (cases "?b @ u = hello") auto
    note rec = replica_receive_hello [OF Cons.prems(1) rest(1), of L depth calls replica fuel]
    show ?thesis
    proof (cases "rest = []")
      case True
      then show ?thesis using rec rest(2) Cons.prems(2) by (intro exI [of _ ds]) simp
    next
      case False
      then show ?thesis using rec rest(2) by (intro exI [of _ "rest # ds"]) simp
    qed
  qed
qed

text \<open>What a replica does with the stream, however its bytes arrive: it appends all of them to its own
  log and applies the complete commands in order; the beginning of a further one waits in the
  buffer.\<close>

lemma replica_follows:
  assumes "concat ds = hello @ wire vs @ t" and "\<forall>v\<in>set vs. frame_ok depth v"
    and "fits (wire vs @ t)" and "partial depth t" and "length vs < fuel"
  shows "replica_session L depth calls replica fuel (map Bytes ds) (snd (replica_connect n w)) =
     map_run (\<lambda>(n', w'). \<lparr>rep_system = with_log (aof_log_raw (wire vs @ t) (aof_logger w)) w', rep_buffer = t,
         in_stream = True, applied = n', connected = True\<rparr>)
       (run_fold (apply_one L calls replica) (n, w) vs)"
proof -
  let ?r = "snd (replica_connect n w)"
  let ?r' = "?r\<lparr>in_stream := True, rep_buffer := []\<rparr>"
  have r: "\<not> in_stream ?r" "connected ?r" "rep_buffer ?r = []" "rep_system ?r = w" "applied ?r = n"
    by (simp_all add: replica_connect_def)
  have "rep_buffer ?r @ concat ds = hello @ wire vs @ t" and "length (rep_buffer ?r) < length hello"
    using assms(1) r(3) by (simp_all add: hello_def)
  from replica_session_hello [OF r(1,2) this, of L depth calls replica fuel] obtain ds' where
    ds': "concat ds' = wire vs @ t" and s: "replica_session L depth calls replica fuel (map Bytes ds) ?r =
      replica_session L depth calls replica fuel (map Bytes ds') ?r'" by blast
  have "partial depth []" using partial_prefix [of depth "[]" t] assms(4) by simp
  then have feed: "replica_feed L depth calls replica fuel ds' [] (n, w) =
      map_run (\<lambda>s'. (t, s')) (run_fold (apply_one L calls replica) (n, w) vs)"
    by (rule rf.feed_all [OF TrueI]) (use ds' assms(2-5) in auto)
  have "replica_session L depth calls replica fuel (map Bytes ds') ?r' =
     map_run (\<lambda>(b, n, w'). ?r'\<lparr>rep_system := with_log (aof_log_raw (concat ds') (aof_logger (rep_system ?r'))) w',
         rep_buffer := b, applied := n\<rparr>)
       (replica_feed L depth calls replica fuel ds' (rep_buffer ?r') (applied ?r', rep_system ?r'))"
    by (rule replica_session_streaming) (use r in simp_all)
  then show ?thesis
    using s ds' feed
    by (cases "run_fold (apply_one L calls replica) (n, w) vs") (auto simp: replica_connect_def)
qed

lemma apply_plain:
  assumes "plain L T (storage_engine w) m" and "replays vs m = Some m'" and "\<forall>v\<in>set vs. replayable T v"
    and "\<forall>i. now_ms (engine_tick (calls i)) \<le> T"
  shows "\<exists>w'. run_fold (apply_one L calls replica) (n, w) vs = Returns (n + length vs, w') \<and>
     plain L T (storage_engine w') m'"
  using assms
proof (induction vs arbitrary: n w m)
  case (Cons v vs)
  obtain m1 where m1: "plain_effect 0 v m = Returns (Some m1)" "replays vs m1 = Some m'"
    using Cons.prems(2) by (auto split: run.splits option.splits)
  have "replayable T v" using Cons.prems(3) by simp
  from dispatch_logged [OF Cons.prems(1) m1(1) this, of "calls n" replica] Cons.prems(4)
  obtain r w1 where "dispatch L (calls n) v False replica True w = Returns (r, w1)"
    and p: "plain L T (storage_engine w1) m1" by blast
  then have "apply_one L calls replica (n, w) v = Returns (n + 1, w1)" by (simp add: apply_one_def)
  then show ?case using Cons.IH [OF p m1(2), of "n + 1"] Cons.prems(3,4) by simp
qed simp



section \<open>Several connections\<close>

text \<open>A round of the worker that fails before anything is received, or in which the connection is lost
  between two commands.\<close>

definition clean_round :: "nat \<Rightarrow> nat \<Rightarrow> string \<Rightarrow> attempt \<Rightarrow> RESPValue list \<Rightarrow> bool" where
  "clean_round depth fuel host a vs \<longleftrightarrow>
     (if socket_fd a < 0 \<or> \<not> inet_pton host \<or> connect_result a < 0 \<or> \<not> request_written a then vs = []
      else (\<forall>v\<in>set vs. frame_ok depth v) \<and> fits (wire vs) \<and> length vs < fuel \<and>
        (\<exists>ds. arrived a = map Bytes ds @ [Disconnected] \<and> concat ds = ''+CONTINUE'' @ crlf @ wire vs))"

lemma replica_session_append:
  assumes "connected r"
  shows "replica_session L depth calls replica fuel (xs @ ys) r =
     run_bind (replica_session L depth calls replica fuel xs r)
       (\<lambda>r. if connected r then replica_session L depth calls replica fuel ys r else Returns r)"
  using assms
proof (induction xs arbitrary: r)
  case (Cons x xs)
  show ?case
  proof (cases x)
    case (Bytes d)
    then show ?thesis
      using Cons.IH by (cases "replica_receive L depth calls replica fuel d r") auto
  qed simp_all
qed simp

lemma worker_round_clean:
  assumes "clean_round depth fuel host a vs" and "0 < depth"
  shows "worker_round L depth calls replica fuel host (n, w) a =
     map_run (\<lambda>(n', w'). (n', with_log (aof_log_raw (wire vs) (aof_logger w)) w'))
       (run_fold (apply_one L calls replica) (n, w) vs)"
proof (cases "socket_fd a < 0 \<or> \<not> inet_pton host \<or> connect_result a < 0 \<or> \<not> request_written a")
  case True
  then have "vs = []" using assms(1) by (auto simp: clean_round_def)
  moreover have "worker_round L depth calls replica fuel host (n, w) a = Returns (n, w)"
    using True by (auto simp: worker_round_def replica_connect_def)
  ultimately show ?thesis by (simp add: wire_def aof_log_raw_def)
next
  case False
  then obtain ds where ds: "arrived a = map Bytes ds @ [Disconnected]" "concat ds = hello @ wire vs @ []"
    and vs: "\<forall>v\<in>set vs. frame_ok depth v" "fits (wire vs @ [])" "length vs < fuel"
    using assms(1) by (auto simp: clean_round_def hello_def)
  have "worker_round L depth calls replica fuel host (n, w) a =
      map_run (\<lambda>r. (applied r, rep_system r))
        (replica_session L depth calls replica fuel (map Bytes ds @ [Disconnected]) (snd (replica_connect n w)))"
    using False ds(1) by (simp add: worker_round_def case_prod_unfold)
  moreover have "connected (snd (replica_connect n w))" by (simp add: replica_connect_def)
  note replica_session_append [OF this, of L depth calls replica fuel "map Bytes ds" "[Disconnected]"]
  moreover note replica_follows [OF ds(2) vs(1,2) partial_Nil [OF assms(2)] vs(3), of L calls replica n w]
  ultimately show ?thesis
    by (cases "run_fold (apply_one L calls replica) (n, w) vs") auto
qed

lemma apply_fold_relog:
  "run_fold (apply_one L calls replica) (n, with_log a w) vs =
     map_run (\<lambda>(n, w). (n, with_log a w)) (run_fold (apply_one L calls replica) (n, w) vs)"
proof (induction vs arbitrary: n w)
  case (Cons v vs)
  then show ?case by (cases "apply_one L calls replica (n, w) v") (auto simp: apply_one_relog)
qed simp



text \<open>A replica that is given the name of a host instead of its address, as the Docker configuration does,
  never connects.\<close>

lemma host_name_never_connects:
  "run_replica_worker L depth calls replica fuel ''primary'' attempts st = Returns st"
proof -
  have "\<not> inet_pton ''primary''" by code_simp
  then have "worker_round L depth calls replica fuel ''primary'' st a = Returns st" for a
    by (simp add: worker_round_def)
  then show ?thesis by (induction attempts) (simp_all add: run_replica_worker_def)
qed

section \<open>A lost connection\<close>

definition ex_log :: string where
  "ex_log = wire [bulk_array [''SET'', ''k'', ''5''], bulk_array [''SET'', ''j'', ''6'']]"

definition ex_reconnect :: "Replica run" where
  "ex_reconnect =
     run_bind (replica_session ex_lib 2 (\<lambda>_. ex_call 7) True 9 [Bytes (hello @ take 10 ex_log), Disconnected]
       (snd (replica_connect 0 (system_new ex_aof)))) (\<lambda>r.
     replica_session ex_lib 2 (\<lambda>_. ex_call 7) True 9
       [Bytes (hello @ psync_stream (get_file_size (aof_logger (rep_system r))) [(ex_log, True)])]
       (snd (replica_connect (applied r) (rep_system r))))"


end
