(* ===== verification/Sections.thy ===== *)
theory Sections
  imports Replication
begin

text \<open>
  A dispatched command as the sequence of its critical sections. Each client has a thread of its own
  (\<open>src/server/Server.cpp\<close>, the accept loop). A command of \<open>src/server/CommandDispatcher.cpp\<close> takes the
  mutex of a shard for the storage operation (\<open>DEL\<close> and \<open>EXISTS\<close>: for each key in turn) and, if it wrote
  something, the mutex of the logger for the append; between the two it holds no lock.

  The three operations that check the memory limit (\<open>set\<close>, \<open>incr\<close>, \<open>decr\<close> of
  \<open>src/storage/StorageEngine.cpp\<close>) read the memory counter, which the threads of other shards change
  meanwhile, evict, and later add to the counter: these are steps of their own, under the mutex of
  the shard throughout. A \<open>task\<close> is where a thread stands in the command it works on.
\<close>

section \<open>The two sections of a write\<close>

definition scratch_log :: AOFLogger where
  "scratch_log = \<lparr>filepath = [], is_open = True, file_content = []\<rparr>"

definition apply_phase :: "lib \<Rightarrow> call \<Rightarrow> RESPValue \<Rightarrow> bool \<Rightarrow> System \<Rightarrow> (DispatchResult \<times> string \<times> System) run" where
  "apply_phase L cl request is_read_only w =
     map_run (\<lambda>(r, w'). (r, file_content (aof_logger w'), w'\<lparr>aof_logger := aof_logger w\<rparr>))
       (dispatch L cl request True is_read_only False (w\<lparr>aof_logger := scratch_log\<rparr>))"

definition log_phase :: "string \<Rightarrow> System \<Rightarrow> System" where
  "log_phase bytes w = w\<lparr>aof_logger := aof_log bytes (aof_logger w)\<rparr>"

abbreviation splice :: "AOFLogger \<Rightarrow> dispatched \<Rightarrow> dispatched" where
  "splice a \<equiv> map_run (\<lambda>(r, w'). (r, with_log (aof_log (file_content (aof_logger w')) a) w'))"

lemma splice_answer [simp]:
  "splice a (answer v (with_log scratch_log w)) = answer v (with_log a w)"
  "splice a (wrong_number s (with_log scratch_log w)) = wrong_number s (with_log a w)"
  "splice a (Returns (r, with_log scratch_log w)) = Returns (r, with_log a w)"
  "splice a (answer v (log_when b f (with_log scratch_log w))) = answer v (log_when b f (with_log a w))"
  "aof_log (file_content scratch_log) a = a"
  by (simp_all add: answer_defs scratch_log_def with_log_def aof_log_def)

lemma run_command_splice:
  assumes "cmd \<noteq> ''INFO''"
  shows "splice a (run_command L cl cmd request True ro False (with_log scratch_log w)) =
     run_command L cl cmd request True ro False (with_log a w)"
proof -
  have "splice a (cmd_counter op name request True False (with_log scratch_log w)) =
      cmd_counter op name request True False (with_log a w)" for op name
    by (cases "op (storage_engine w)") (auto simp: cmd_counter_def Let_def split: option.split)
  then have 1: "splice a (cmd_incr L cl request True False (with_log scratch_log w)) = cmd_incr L cl request True False (with_log a w)"
    "splice a (cmd_decr L cl request True False (with_log scratch_log w)) = cmd_decr L cl request True False (with_log a w)"
    by (simp_all add: cmd_incr_def cmd_decr_def)
  have 2: "splice a (cmd_set L cl request True False (with_log scratch_log w)) = cmd_set L cl request True False (with_log a w)"
    "splice a (cmd_get L cl request (with_log scratch_log w)) = cmd_get L cl request (with_log a w)"
    "splice a (cmd_del L request True False (with_log scratch_log w)) = cmd_del L request True False (with_log a w)"
    "splice a (cmd_exists L cl request (with_log scratch_log w)) = cmd_exists L cl request (with_log a w)"
    "splice a (cmd_expire L cl cmd request True False (with_log scratch_log w)) = cmd_expire L cl cmd request True False (with_log a w)"
    "splice a (cmd_pexpireat L cl request True False (with_log scratch_log w)) = cmd_pexpireat L cl request True False (with_log a w)"
    "splice a (cmd_ttl L cl cmd request (with_log scratch_log w)) = cmd_ttl L cl cmd request (with_log a w)"
    "splice a (cmd_persist L cl request True False (with_log scratch_log w)) = cmd_persist L cl request True False (with_log a w)"
    by (simp_all add: cmd_set_def cmd_get_def cmd_del_def cmd_exists_def cmd_expire_def cmd_pexpireat_def cmd_ttl_def
        cmd_persist_def Let_def split: prod.split sum.split option.split)
  have 3: "splice a (cmd_ping request (with_log scratch_log w)) = cmd_ping request (with_log a w)"
    "splice a (cmd_echo request (with_log scratch_log w)) = cmd_echo request (with_log a w)"
    "splice a (cmd_quit request (with_log scratch_log w)) = cmd_quit request (with_log a w)"
    "splice a (cmd_config request (with_log scratch_log w)) = cmd_config request (with_log a w)"
    "splice a (cmd_psync request (with_log scratch_log w)) = cmd_psync request (with_log a w)"
    by (simp_all add: cmd_ping_def cmd_echo_def cmd_quit_def cmd_config_def cmd_psync_def Let_def split: sum.split)
  show ?thesis
    unfolding run_command_def if_distrib [of "splice a"] 1 2 3 splice_answer using assms by simp
qed

lemma dispatch_splice:
  assumes "command_of request \<noteq> ''INFO''"
  shows "splice a (dispatch L cl request True ro False (with_log scratch_log w)) =
     dispatch L cl request True ro False (with_log a w)"
proof -
  have c: "(with_log b w)\<lparr>commands_processed := commands_processed (with_log b w) + 1\<rparr> =
      with_log b (w\<lparr>commands_processed := commands_processed w + 1\<rparr>)" for b by (simp add: with_log_def)
  have i: "to_upper (string_value (array_value request ! 0)) \<noteq> ''INFO''"
    using assms by (simp add: command_of_def arg_def)
  show ?thesis
    unfolding dispatch_def Let_def c if_distrib [of "splice a"] splice_answer run_command_splice [OF i] ..
qed

text \<open>A write command is its two sections one after the other: applying it and then appending the bytes
  is the same as dispatching it, the reply included. This holds for every other command as well,
  apart from \<open>INFO\<close>, which reports the size of the log.\<close>

lemma dispatch_phases:
  assumes "command_of request \<noteq> ''INFO''"
  shows "dispatch L cl request True ro False w =
     map_run (\<lambda>(r, bytes, w'). (r, log_phase bytes w')) (apply_phase L cl request ro w)"
proof -
  have "dispatch L cl request True ro False w =
      splice (aof_logger w) (dispatch L cl request True ro False (with_log scratch_log w))"
    using dispatch_splice [OF assms, of "aof_logger w"] by simp
  then show ?thesis
    by (cases "dispatch L cl request True ro False (with_log scratch_log w)")
      (auto simp: apply_phase_def log_phase_def with_log_def)
qed

section \<open>Storing a value, step by step\<close>

text \<open>What is going to be stored: the value of a \<open>SET\<close>, or a number with the deadline to keep.\<close>

datatype write_op = Set_value string | Number int u64

record job =
  j_request :: RESPValue
  j_tick :: tick
  j_key :: string
  j_write :: write_op
  j_new_cost :: u64
  j_old_cost :: u64

text \<open>Reading the counter and the limit: how many bytes must be evicted, if any.\<close>

definition bytes_needed :: "u64 \<Rightarrow> u64 \<Rightarrow> StorageEngine \<Rightarrow> u64 option" where
  "bytes_needed new_cost old_cost e =
     (let current_mem = total_memory_usage e; max_mem = max_memory_bytes e
      in if 0 < max_mem \<and> max_mem + old_cost < current_mem + new_cost
         then Some ((current_mem + new_cost) - (max_mem + old_cost)) else None)"

definition commit :: "lib \<Rightarrow> job \<Rightarrow> StorageEngine \<Rightarrow> StorageEngine" where
  "commit L j e =
     (let key = j_key j; now = now_ms (j_tick j); e = charge (j_new_cost j) (j_old_cost j) e
      in case j_write j of
           Set_value v \<Rightarrow>
             put_entry L key \<lparr>entry_value = fresh v, expire_at_ms = 0, last_access_ms = now\<rparr>
               (\<lambda>ent. \<lparr>entry_value = copy_assign (entry_value ent) v, expire_at_ms = 0, last_access_ms = now\<rparr>) e
         | Number val t \<Rightarrow>
             put_entry L key \<lparr>entry_value = fresh (int_to_string val), expire_at_ms = t, last_access_ms = now\<rparr>
               (\<lambda>ent. \<lparr>entry_value = move_assign (entry_value ent) (int_to_string val), expire_at_ms = t,
                       last_access_ms = now\<rparr>) e)"

definition set_job :: "lib \<Rightarrow> tick \<Rightarrow> RESPValue \<Rightarrow> string \<Rightarrow> string \<Rightarrow> StorageEngine \<Rightarrow> job" where
  "set_job L tk request key v e =
     \<lparr>j_request = request, j_tick = tk, j_key = key, j_write = Set_value v,
      j_new_cost = entry_cost key (fresh v), j_old_cost = old_cost_of key (umap_find (shard_of L e key) key)\<rparr>"

definition number_job :: "tick \<Rightarrow> RESPValue \<Rightarrow> string \<Rightarrow> DictEntry option \<Rightarrow> u64 \<Rightarrow> int \<Rightarrow> job" where
  "number_job tk request key it t val =
     \<lparr>j_request = request, j_tick = tk, j_key = key, j_write = Number val t,
      j_new_cost = entry_cost key (fresh (int_to_string val)), j_old_cost = old_cost_of key it\<rparr>"

section \<open>Tasks\<close>

text \<open>\<open>Idle\<close> carries the last reply. A thread in one of the three states of a \<open>job\<close> holds the mutex of the
  shard of its key.\<close>

datatype task =
    Idle "DispatchResult option"
  | Deleting RESPValue "string list" int
  | Counting u64 "string list" int
  | Checking job
  | Evicting job u64
  | Committing job
  | Appending RESPValue string DispatchResult

definition reply :: "RESPValue \<Rightarrow> DispatchResult" where
  "reply v = \<lparr>response = v, close_connection = False, is_psync = False, psync_offset = 0\<rparr>"

fun refusal :: "write_op \<Rightarrow> RESPValue" where
  "refusal (Set_value v) = create_error (''OOM command not allowed when used memory > '' @ quoted ''maxmemory'')"
| "refusal (Number val t) = create_error not_an_integer"

fun success :: "write_op \<Rightarrow> RESPValue" where
  "success (Set_value v) = create_simple_string ''OK''"
| "success (Number val t) = create_integer val"

text \<open>The first step of \<open>incr\<close> and \<open>decr\<close>: finding the number, dropping an expired entry.\<close>

definition begin_number ::
  "tick \<Rightarrow> RESPValue \<Rightarrow> string \<Rightarrow> DictEntry option \<Rightarrow> u64 \<Rightarrow> int \<Rightarrow> System \<Rightarrow> (task \<times> System) run" where
  "begin_number tk request key it t val w =
     (if \<not> in_int64 val then Faults Signed_overflow
      else Returns (Checking (number_job tk request key it t val), w))"

definition begin_counter :: "lib \<Rightarrow> tick \<Rightarrow> int \<Rightarrow> RESPValue \<Rightarrow> System \<Rightarrow> (task \<times> System) run" where
  "begin_counter L tk delta request w =
     (let key = arg request 1; e = storage_engine w;
          refused = Returns (Idle (Some (reply (create_error not_an_integer))), w)
      in case umap_find (shard_of L e key) key of
           None \<Rightarrow> begin_number tk request key None 0 (0 + delta) w
         | Some ent \<Rightarrow>
             if is_expired (now_ms tk) ent
             then begin_number tk request key None 0 (0 + delta) (w\<lparr>storage_engine := erase_entry L key ent e\<rparr>)
             else
               (case from_chars_i64 (chars (entry_value ent)) of
                  Inl _ \<Rightarrow> refused
                | Inr (val, rest) \<Rightarrow>
                    if rest \<noteq> [] then refused
                    else begin_number tk request key (Some ent) (expire_at_ms ent) (val + delta) w))"

text \<open>A request arrives. The commands that need several sections of the engine are begun; any other has
  only one.\<close>

definition begin_whole :: "lib \<Rightarrow> call \<Rightarrow> RESPValue \<Rightarrow> bool \<Rightarrow> System \<Rightarrow> (task \<times> System) run" where
  "begin_whole L cl request ro w =
     (if command_of request = ''INFO''
      then map_run (\<lambda>(r, w'). (Idle (Some r), w')) (dispatch L cl request True ro False w)
      else map_run (\<lambda>(r, bytes, w'). (if bytes = [] then Idle (Some r) else Appending request bytes r, w'))
             (apply_phase L cl request ro w))"

definition several_sections :: "RESPValue \<Rightarrow> bool \<Rightarrow> bool" where
  "several_sections request ro \<longleftrightarrow>
     valid_request request \<and> \<not> (ro \<and> is_mutating_command (command_of request)) \<and>
     (command_of request = ''SET'' \<and> 3 \<le> argc request \<or>
      command_of request = ''INCR'' \<and> argc request = 2 \<or> command_of request = ''DECR'' \<and> argc request = 2 \<or>
      command_of request = ''DEL'' \<and> 2 \<le> argc request \<or> command_of request = ''EXISTS'' \<and> 2 \<le> argc request)"

definition begin_task :: "lib \<Rightarrow> call \<Rightarrow> RESPValue \<Rightarrow> bool \<Rightarrow> System \<Rightarrow> (task \<times> System) run" where
  "begin_task L cl request ro w =
     (if \<not> several_sections request ro then begin_whole L cl request ro w
      else
        let cmd = command_of request; tk = engine_tick cl; w = counted w
        in if cmd = ''SET'' then
             Returns (Checking (set_job L tk request (arg request 1) (arg request 2) (storage_engine w)), w)
           else if cmd = ''INCR'' then begin_counter L tk 1 request w
           else if cmd = ''DECR'' then begin_counter L tk (- 1) request w
           else if cmd = ''DEL'' then Returns (Deleting request (key_args request) 0, w)
           else Returns (Counting (now_ms tk) (key_args request) 0, w))"

text \<open>The next section of a thread.\<close>

fun next_section :: "lib \<Rightarrow> task \<Rightarrow> System \<Rightarrow> task \<times> System" where
  "next_section L (Idle r) w = (Idle r, w)"
| "next_section L (Deleting request [] n) w =
     (if 0 < n then Appending request (serialize request) (reply (create_integer n))
      else Idle (Some (reply (create_integer n))), w)"
| "next_section L (Deleting request (key # keys) n) w =
     (let (d, e) = storage_del L [key] (storage_engine w)
      in (Deleting request keys (n + d), w\<lparr>storage_engine := e\<rparr>))"
| "next_section L (Counting now [] n) w = (Idle (Some (reply (create_integer n))), w)"
| "next_section L (Counting now (key # keys) n) w =
     (let (d, e) = storage_exists L now [key] (storage_engine w)
      in (Counting now keys (n + d), w\<lparr>storage_engine := e\<rparr>))"
| "next_section L (Checking j) w =
     (case bytes_needed (j_new_cost j) (j_old_cost j) (storage_engine w) of
        None \<Rightarrow> (Committing j, w)
      | Some needed \<Rightarrow> (Evicting j needed, w))"
| "next_section L (Evicting j needed) w =
     (let (freed, e) = evict_from_shard L (j_tick j) (get_shard_index L (storage_engine w) (j_key j)) needed
            (storage_engine w)
      in (if freed < needed then Idle (Some (reply (refusal (j_write j)))) else Committing j,
          w\<lparr>storage_engine := e\<rparr>))"
| "next_section L (Committing j) w =
     (Appending (j_request j) (serialize (j_request j)) (reply (success (j_write j))),
      w\<lparr>storage_engine := commit L j (storage_engine w)\<rparr>)"
| "next_section L (Appending request bytes r) w = (Idle (Some r), log_phase bytes w)"

text \<open>A thread alone, until it is idle again.\<close>

fun finish :: "nat \<Rightarrow> lib \<Rightarrow> task \<Rightarrow> System \<Rightarrow> dispatched" where
  "finish 0 L ta w = Diverges"
| "finish (Suc n) L (Idle (Some r)) w = Returns (r, w)"
| "finish (Suc n) L ta w = (let (ta', w') = next_section L ta w in finish n L ta' w')"

definition run_alone :: "lib \<Rightarrow> call \<Rightarrow> RESPValue \<Rightarrow> bool \<Rightarrow> System \<Rightarrow> dispatched" where
  "run_alone L cl request ro w =
     run_bind (begin_task L cl request ro w) (\<lambda>(ta, w). finish (argc request + 6) L ta w)"

section \<open>A thread alone does what the dispatcher does\<close>

lemma answer_reply: "answer v w = Returns (reply v, w)"
  by (simp add: answer_def reply_def)

lemma log_phase_when: "log_when b v w = (if b then log_phase (serialize v) w else w)"
  by (simp add: log_when_def log_phase_def)

lemma log_phase_Nil [simp]: "log_phase [] w = w"
  by (simp add: log_phase_def aof_log_def)

lemma finish_Idle [simp]: "0 < n \<Longrightarrow> finish n L (Idle (Some r)) w = Returns (r, w)"
  by (cases n) auto

lemma finish_Appending [simp]: "1 < n \<Longrightarrow> finish n L (Appending request bytes r) w = Returns (r, log_phase bytes w)"
  by (cases n) auto

lemma finish_whole:
  assumes "1 < n"
  shows "run_bind (begin_whole L cl request ro w) (\<lambda>(ta, w). finish n L ta w) = dispatch L cl request True ro False w"
proof (cases "command_of request = ''INFO''")
  case True
  then show ?thesis
    using assms by (cases "dispatch L cl request True ro False w") (auto simp: begin_whole_def)
next
  case False
  then show ?thesis
    using assms unfolding dispatch_phases [OF False]
    by (cases "apply_phase L cl request ro w") (auto simp: begin_whole_def)
qed

lemma make_room_sections:
  "make_room L tk idx new_cost old_cost e =
     (case bytes_needed new_cost old_cost e of
        None \<Rightarrow> (True, e)
      | Some needed \<Rightarrow> let (freed, e') = evict_from_shard L tk idx needed e in (\<not> freed < needed, e'))"
  by (simp add: make_room_def bytes_needed_def Let_def)

lemma finish_Checking:
  assumes "make_room L (j_tick j) (get_shard_index L (storage_engine w) (j_key j)) (j_new_cost j) (j_old_cost j)
      (storage_engine w) = (room, e)" and "5 \<le> n"
  shows "finish n L (Checking j) w =
     (if room then Returns (reply (success (j_write j)), log_phase (serialize (j_request j)) (w\<lparr>storage_engine := commit L j e\<rparr>))
      else Returns (reply (refusal (j_write j)), w\<lparr>storage_engine := e\<rparr>))"
proof -
  obtain k where n: "n = Suc (Suc (Suc (Suc (Suc k))))" using assms(2) by (auto simp: numeral_eq_Suc le_Suc_ex dest!: le_Suc_ex)
  show ?thesis
    using assms(1) unfolding n make_room_sections
    by (auto split: option.splits prod.splits)
qed

lemma storage_set_sections:
  "storage_set L tk key v e =
     (let j = set_job L tk request key v e;
          (room, e1) = make_room L tk (get_shard_index L e key) (j_new_cost j) (j_old_cost j) e
      in if room then (True, commit L j e1) else (False, e1))"
  by (simp add: storage_set_def set_job_def commit_def Let_def split: prod.split)

lemma store_number_sections:
  "store_number L tk key it t val e =
     (if \<not> in_int64 val then Faults Signed_overflow
      else
        let j = number_job tk request key it t val;
            (room, e1) = make_room L tk (get_shard_index L e key) (j_new_cost j) (j_old_cost j) e
        in Returns (if room then (Some val, commit L j e1) else (None, e1)))"
  by (simp add: store_number_def number_job_def commit_def Let_def split: prod.split)

lemma storage_del_Cons:
  "storage_del L (key # keys) e =
     (let (d, e1) = storage_del L [key] e; (n, e2) = storage_del L keys e1 in (d + n, e2))"
  by (simp add: Let_def split: option.split prod.split)

lemma storage_exists_Cons:
  "storage_exists L now (key # keys) e =
     (let (d, e1) = storage_exists L now [key] e; (n, e2) = storage_exists L now keys e1 in (d + n, e2))"
  by (simp add: Let_def split: option.split prod.split)

declare storage_del.simps(2) [simp del] storage_exists.simps(2) [simp del]

lemma finish_Deleting:
  assumes "storage_del L keys (storage_engine w) = (d, e)" and "length keys + 3 \<le> n"
  shows "finish n L (Deleting request keys k) w =
     Returns (reply (create_integer (k + d)), log_when (0 < k + d) request (w\<lparr>storage_engine := e\<rparr>))"
  using assms
proof (induction keys arbitrary: n k d w)
  case Nil
  then obtain i where "n = Suc (Suc (Suc i))" by (auto dest!: le_Suc_ex simp: numeral_eq_Suc)
  then show ?case using Nil by (auto simp: log_phase_when)
next
  case (Cons key keys)
  then obtain i where n: "n = Suc i" "length keys + 3 \<le> i" by (cases n) auto
  obtain d1 e1 d2 where d: "storage_del L [key] (storage_engine w) = (d1, e1)" "storage_del L keys e1 = (d2, e)" "d = d1 + d2"
    using Cons.prems(1) unfolding storage_del_Cons [of L key keys] by (auto split: prod.splits)
  then show ?case
    using Cons.IH [of "w\<lparr>storage_engine := e1\<rparr>" d2 i "k + d1"] n by (simp add: add.assoc)
qed

lemma finish_Counting:
  assumes "storage_exists L now keys (storage_engine w) = (d, e)" and "length keys + 3 \<le> n"
  shows "finish n L (Counting now keys k) w = Returns (reply (create_integer (k + d)), w\<lparr>storage_engine := e\<rparr>)"
  using assms
proof (induction keys arbitrary: n k d w)
  case Nil
  then obtain i where "n = Suc (Suc (Suc i))" by (auto dest!: le_Suc_ex simp: numeral_eq_Suc)
  then show ?case using Nil by simp
next
  case (Cons key keys)
  then obtain i where n: "n = Suc i" "length keys + 3 \<le> i" by (cases n) auto
  obtain d1 e1 d2 where d: "storage_exists L now [key] (storage_engine w) = (d1, e1)" "storage_exists L now keys e1 = (d2, e)" "d = d1 + d2"
    using Cons.prems(1) unfolding storage_exists_Cons [of L now key keys] by (auto split: prod.splits)
  then show ?case
    using Cons.IH [of "w\<lparr>storage_engine := e1\<rparr>" d2 i "k + d1"] n by (simp add: add.assoc)
qed

lemma finish_number:
  assumes "5 \<le> n"
  shows "run_bind (begin_number tk request key it t val w) (\<lambda>(ta, w). finish n L ta w) =
     run_bind (store_number L tk key it t val (storage_engine w)) (\<lambda>(res, e).
       let w = w\<lparr>storage_engine := e\<rparr>
       in case res of
            Some n \<Rightarrow> answer (create_integer n) (log_when (True \<and> \<not> False) request w)
          | None \<Rightarrow> answer (create_error not_an_integer) w)"
proof -
  let ?j = "number_job tk request key it t val"
  obtain room e where r: "make_room L tk (get_shard_index L (storage_engine w) key) (j_new_cost ?j) (j_old_cost ?j)
      (storage_engine w) = (room, e)" by fastforce
  have "j_tick ?j = tk" "j_key ?j = key" "j_write ?j = Number val t" "j_request ?j = request"
    by (simp_all add: number_job_def)
  then show ?thesis
    using finish_Checking [of L ?j w room e, OF _ assms] r
    by (simp add: begin_number_def store_number_sections [of L tk key it t val _ request] answer_reply log_phase_when Let_def)
qed

lemma finish_counter:
  assumes "5 \<le> n" and "argc request = 2"
  shows "run_bind (begin_counter L tk delta request w) (\<lambda>(ta, w). finish n L ta w) =
     cmd_counter (storage_step L tk delta (arg request 1)) name request True False w"
proof -
  note step = begin_counter_def cmd_counter_def storage_step_def Let_def finish_number [OF assms(1)]
  show ?thesis
  proof (cases "umap_find (shard_of L (storage_engine w) (arg request 1)) (arg request 1)")
    case None
    then show ?thesis using assms by (simp add: step)
  next
    case (Some ent)
    then show ?thesis
      using assms by (auto simp: step answer_reply split: sum.split)
  qed
qed

lemma run_alone_set:
  assumes "several_sections request ro" and "command_of request = ''SET''"
  shows "run_alone L cl request ro w = run_command L cl (command_of request) request True ro False (counted w)"
proof -
  let ?w = "counted w" and ?tk = "engine_tick cl"
  let ?j = "set_job L ?tk request (arg request 1) (arg request 2) (storage_engine ?w)"
  obtain room e where r: "make_room L ?tk (get_shard_index L (storage_engine ?w) (arg request 1)) (j_new_cost ?j)
      (j_old_cost ?j) (storage_engine ?w) = (room, e)" by fastforce
  have "j_tick ?j = ?tk" "j_key ?j = arg request 1" "j_write ?j = Set_value (arg request 2)" "j_request ?j = request"
    by (simp_all add: set_job_def)
  moreover have "3 \<le> argc request" using assms by (simp add: several_sections_def)
  ultimately show ?thesis
    using finish_Checking [of L ?j ?w room e "argc request + 6"] r assms
    by (simp add: run_alone_def begin_task_def run_command_def cmd_set_def
        storage_set_sections [of L _ _ _ _ request] answer_reply log_phase_when Let_def del: One_nat_def)
qed

lemma run_alone_keys:
  assumes "several_sections request ro" and "command_of request = ''DEL'' \<or> command_of request = ''EXISTS''"
  shows "run_alone L cl request ro w = run_command L cl (command_of request) request True ro False (counted w)"
proof -
  let ?w = "counted w" and ?now = "now_ms (engine_tick cl)" and ?keys = "key_args request" and ?n = "argc request + 6"
  have n: "2 \<le> argc request" using assms by (auto simp: several_sections_def)
  obtain k e k' e' where "storage_del L ?keys (storage_engine ?w) = (k, e)"
    "storage_exists L ?now ?keys (storage_engine ?w) = (k', e')" by fastforce
  note fin = finish_Deleting [OF this(1), of ?n request 0] finish_Counting [OF this(2), of ?n 0] this
  note def = run_alone_def begin_task_def run_command_def answer_reply Let_def key_args_def
  from assms(2) show ?thesis
    by (elim disjE) (use fin n assms(1) in \<open>simp_all add: def cmd_del_def cmd_exists_def\<close>)
qed

text \<open>C6. The sections of a command, run without interruption, are the command: the reply, the data and the
  log are those of the dispatcher, for every request.\<close>

theorem run_alone_dispatch: "run_alone L cl request ro w = dispatch L cl request True ro False w"
proof (cases "several_sections request ro")
  case False
  then show ?thesis by (simp add: run_alone_def begin_task_def finish_whole)
next
  case True
  then have d: "dispatch L cl request True ro False w =
      run_command L cl (command_of request) request True ro False (counted w)"
    by (intro dispatch_runs) (auto simp: several_sections_def)
  note def = run_alone_def begin_task_def run_command_def Let_def
  consider "command_of request = ''SET''" | "command_of request = ''INCR''" "argc request = 2"
    | "command_of request = ''DECR''" "argc request = 2" | "command_of request = ''DEL'' \<or> command_of request = ''EXISTS''"
    using True unfolding several_sections_def by blast
  then show ?thesis
  proof cases
    case 2
    then show ?thesis
      using finish_counter [of "argc request + 6" request L "engine_tick cl" 1 "counted w" "''incr''"] True
      by (simp add: d def cmd_incr_def storage_incr_def [abs_def])
  next
    case 3
    then show ?thesis
      using finish_counter [of "argc request + 6" request L "engine_tick cl" "- 1" "counted w" "''decr''"] True
      by (simp add: d def cmd_decr_def storage_decr_def [abs_def])
  qed (simp_all only: d run_alone_set [OF True] run_alone_keys [OF True])
qed

end
