(* ===== verification/Concurrency.thy ===== *)
theory Concurrency
  imports Sections
begin

text \<open>
  Clients in parallel: the threads of the server, each at some section of the command it works on
  (\<open>task\<close>), and the background sweeper. \<open>run_step\<close> is one step of one of them; a section that needs the
  mutex of a shard waits while another thread holds it. Single sections are taken as atomic, and the
  memory model as sequentially consistent.

  \<open>run_step L depth ro P S\<close> lets the requests satisfying \<open>P\<close> arrive and the sweeper run at the times in \<open>S\<close>.
\<close>

section \<open>Dispatched commands and the engine\<close>

text \<open>Every command is at most one step of the storage engine.\<close>

fun engine_stepped :: "lib \<Rightarrow> System \<Rightarrow> dispatched \<Rightarrow> bool" where
  "engine_stepped L w (Returns (r, w')) =
     (storage_engine w' = storage_engine w \<or> engine_step L (storage_engine w) (storage_engine w'))"
| "engine_stepped L w _ = True"

lemma engine_stepped_answer [simp]:
  "engine_stepped L w (answer v w)" "engine_stepped L w (wrong_number s w)" "engine_stepped L w (Returns (r, w))"
  "engine_stepped L w (answer v (w\<lparr>storage_engine := e\<rparr>)) = (e = storage_engine w \<or> engine_step L (storage_engine w) e)"
  "engine_stepped L w (answer v (log_when b f (w\<lparr>storage_engine := e\<rparr>))) =
     (e = storage_engine w \<or> engine_step L (storage_engine w) e)"
  by (simp_all add: answer_defs)

lemma run_command_stepped: "engine_stepped L w (run_command L cl cmd request aof ro bp w)"
proof -
  have "engine_stepped L w (cmd_counter op name request aof bp w)"
    if "\<And>r e. op (storage_engine w) = Returns (r, e) \<Longrightarrow> engine_step L (storage_engine w) e" for op name
    using that by (cases "op (storage_engine w)") (auto simp: cmd_counter_def Let_def split: option.split)
  then have 1: "engine_stepped L w (cmd_incr L cl request aof bp w)" "engine_stepped L w (cmd_decr L cl request aof bp w)"
    by (auto simp: cmd_incr_def cmd_decr_def intro: engine_step.intros)
  have 2: "engine_stepped L w (cmd_set L cl request aof bp w)" "engine_stepped L w (cmd_get L cl request w)"
    "engine_stepped L w (cmd_del L request aof bp w)" "engine_stepped L w (cmd_exists L cl request w)"
    "engine_stepped L w (cmd_expire L cl cmd request aof bp w)" "engine_stepped L w (cmd_pexpireat L cl request aof bp w)"
    "engine_stepped L w (cmd_ttl L cl cmd request w)" "engine_stepped L w (cmd_persist L cl request aof bp w)"
    by (auto simp: cmd_set_def cmd_get_def cmd_del_def cmd_exists_def cmd_expire_def cmd_pexpireat_def cmd_ttl_def
        cmd_persist_def Let_def split: prod.split sum.split option.split intro: engine_step.intros)
  have 3: "engine_stepped L w (cmd_ping request w)" "engine_stepped L w (cmd_echo request w)"
    "engine_stepped L w (cmd_quit request w)" "engine_stepped L w (cmd_info request aof ro w)"
    "engine_stepped L w (cmd_config request w)" "engine_stepped L w (cmd_psync request w)"
    by (auto simp: cmd_ping_def cmd_echo_def cmd_quit_def cmd_info_def cmd_config_def cmd_psync_def Let_def
        split: sum.split intro: engine_step.intros)
  show ?thesis unfolding run_command_def using 1 2 3 by (simp only: engine_stepped_answer if_split simp_thms)
qed

lemma dispatch_stepped:
  assumes "dispatch L cl request aof ro bp w = Returns (r, w')"
  shows "storage_engine w' = storage_engine w \<or> engine_step L (storage_engine w) (storage_engine w')"
proof (cases rule: dispatch_cases [of L cl request aof ro bp w])
  case (refused v)
  then show ?thesis using assms by (simp add: answer_def)
next
  case runs
  then have "engine_stepped L (counted w) (Returns (r, w'))"
    using run_command_stepped [of L "counted w" cl "command_of request" request aof ro bp] assms by metis
  then show ?thesis by simp
qed

lemma dispatch_invar:
  "dispatch L cl request aof ro bp w = Returns (r, w') \<Longrightarrow> engine_invar L (storage_engine w) \<Longrightarrow>
   engine_invar L (storage_engine w')"
  using dispatch_stepped engine_step_invar by metis

lemma apply_phase_dispatch:
  assumes "apply_phase L cl request ro w = Returns (r, bytes, w')"
  obtains w'' where "dispatch L cl request True ro False (w\<lparr>aof_logger := scratch_log\<rparr>) = Returns (r, w'')"
    "bytes = file_content (aof_logger w'')" "w' = w''\<lparr>aof_logger := aof_logger w\<rparr>"
  using assms unfolding apply_phase_def by (auto elim!: map_run_ReturnsE)

section \<open>The machine\<close>

text \<open>\<open>effects\<close> and \<open>history\<close> are not part of the program. \<open>effects\<close> lists the bytes of the writes that the threads
  have completed in the engine and not only begun; \<open>history\<close> lists what was done to the engine, in the
  order in which it was done: the removal of each single key of a \<open>DEL\<close>, and any other write.\<close>

record Machine =
  m_system :: System
  threads :: "task list"
  effects :: "string list"
  history :: "string list"

definition machine_new :: "nat \<Rightarrow> System \<Rightarrow> Machine" where
  "machine_new n w = \<lparr>m_system = w, threads = replicate n (Idle None), effects = [], history = []\<rparr>"

fun idle :: "task \<Rightarrow> bool" where
  "idle (Idle r) = True"
| "idle _ = False"

fun to_append :: "task \<Rightarrow> string list" where
  "to_append (Appending request bytes r) = [bytes]"
| "to_append _ = []"

fun last_reply :: "task \<Rightarrow> RESPValue option" where
  "last_reply (Idle r) = map_option response r"
| "last_reply _ = None"

text \<open>What a thread did to the engine when it went from one task to another.\<close>

fun written :: "task \<Rightarrow> task \<Rightarrow> string list" where
  "written (Deleting request (key # keys) n) (Deleting request' keys' n') =
     (if n < n' then [serialize (bulk_array [''DEL'', key])] else [])"
| "written (Deleting request keys n) ta = []"
| "written _ ta = to_append ta"

text \<open>The key whose shard a thread has locked, and the key whose shard the next section locks.\<close>

fun holds :: "task \<Rightarrow> string option" where
  "holds (Checking j) = Some (j_key j)"
| "holds (Evicting j needed) = Some (j_key j)"
| "holds (Committing j) = Some (j_key j)"
| "holds _ = None"

fun wants :: "task \<Rightarrow> string option" where
  "wants (Deleting request (key # keys) n) = Some key"
| "wants (Counting now (key # keys) n) = Some key"
| "wants _ = None"

definition first_key :: "RESPValue \<Rightarrow> string option" where
  "first_key request =
     (if command_of request \<in> {''SET'', ''GET'', ''INCR'', ''DECR'', ''EXPIRE'', ''PEXPIRE'', ''PEXPIREAT'', ''TTL'',
          ''PTTL'', ''PERSIST''} \<and> 2 \<le> argc request
      then Some (arg request 1) else None)"

definition locked :: "lib \<Rightarrow> Machine \<Rightarrow> nat set" where
  "locked L m = {get_shard_index L (storage_engine (m_system m)) key |key. Some key \<in> holds ` set (threads m)}"

definition may_lock :: "lib \<Rightarrow> Machine \<Rightarrow> string option \<Rightarrow> bool" where
  "may_lock L m key \<longleftrightarrow>
     (\<forall>k\<in>set_option key. \<forall>ta\<in>set (threads m). \<forall>h\<in>set_option (holds ta).
        get_shard_index L (storage_engine (m_system m)) h \<noteq> get_shard_index L (storage_engine (m_system m)) k)"

definition put_task :: "nat \<Rightarrow> task \<Rightarrow> System \<Rightarrow> Machine \<Rightarrow> Machine" where
  "put_task t ta w m =
     \<lparr>m_system = w, threads = (threads m)[t := ta], effects = effects m @ to_append ta,
      history = history m @ written (threads m ! t) ta\<rparr>"

definition do_begin :: "lib \<Rightarrow> call \<Rightarrow> RESPValue \<Rightarrow> bool \<Rightarrow> nat \<Rightarrow> Machine \<Rightarrow> Machine run" where
  "do_begin L cl request ro t m =
     map_run (\<lambda>(ta, w). put_task t ta w m) (begin_task L cl request ro (m_system m))"

definition do_section :: "lib \<Rightarrow> nat \<Rightarrow> Machine \<Rightarrow> Machine" where
  "do_section L t m = (let (ta, w) = next_section L (threads m ! t) (m_system m) in put_task t ta w m)"

definition do_sweep :: "u64 \<Rightarrow> nat \<Rightarrow> Machine \<Rightarrow> Machine" where
  "do_sweep now i m =
     m\<lparr>m_system := (m_system m)\<lparr>storage_engine := sweep_shard now i (storage_engine (m_system m))\<rparr>\<rparr>"

inductive run_step ::
  "lib \<Rightarrow> nat \<Rightarrow> bool \<Rightarrow> (nat \<Rightarrow> call \<Rightarrow> RESPValue \<Rightarrow> Machine \<Rightarrow> bool) \<Rightarrow> u64 set \<Rightarrow> Machine \<Rightarrow> Machine \<Rightarrow> bool"
  for L depth ro P S where
  Begin: "\<lbrakk>t < length (threads m); idle (threads m ! t); frame_ok depth request; P t cl request m;
     may_lock L m (first_key request); do_begin L cl request ro t m = Returns m'\<rbrakk> \<Longrightarrow> run_step L depth ro P S m m'"
| Section: "\<lbrakk>t < length (threads m); \<not> idle (threads m ! t); may_lock L m (wants (threads m ! t))\<rbrakk> \<Longrightarrow>
     run_step L depth ro P S m (do_section L t m)"
| Sweep: "\<lbrakk>now \<in> S; i < length (shards (storage_engine (m_system m))); i \<notin> locked L m\<rbrakk> \<Longrightarrow>
     run_step L depth ro P S m (do_sweep now i m)"

lemma reachable_keeps:
  assumes "R\<^sup>*\<^sup>* x y" and "I x" and "\<And>x y. R x y \<Longrightarrow> I x \<Longrightarrow> I y"
  shows "I y"
  using assms(1) by (induction rule: rtranclp_induct) (auto intro: assms(2,3))

section \<open>Well-formedness of engine and log\<close>

definition write_frame :: "nat \<Rightarrow> RESPValue \<Rightarrow> bool" where
  "write_frame depth v \<longleftrightarrow>
     valid_request v \<and> is_mutating_command (command_of v) \<and> frame_ok (max 2 depth) v"

fun task_ok :: "nat \<Rightarrow> task \<Rightarrow> bool" where
  "task_ok depth (Deleting request keys n) = write_frame depth request"
| "task_ok depth (Checking j) = write_frame depth (j_request j)"
| "task_ok depth (Evicting j needed) = write_frame depth (j_request j)"
| "task_ok depth (Committing j) = write_frame depth (j_request j)"
| "task_ok depth (Appending request bytes r) = (\<exists>v. bytes = serialize v \<and> write_frame depth v)"
| "task_ok depth _ = True"

definition machine_ok :: "lib \<Rightarrow> nat \<Rightarrow> string \<Rightarrow> Machine \<Rightarrow> bool" where
  "machine_ok L depth start m \<longleftrightarrow>
     engine_invar L (storage_engine (m_system m)) \<and> is_open (aof_logger (m_system m)) \<and>
     (\<forall>ta\<in>set (threads m). task_ok depth ta) \<and>
     (\<exists>vs. file_content (aof_logger (m_system m)) = start @ wire vs \<and> (\<forall>v\<in>set vs. write_frame depth v) \<and>
        mset (effects m) = mset (map serialize vs) + mset (concat (map to_append (threads m))))"

lemma mset_concat_update:
  "t < length xs \<Longrightarrow> mset (concat (map f (xs[t := y]))) + mset (f (xs ! t)) = mset (concat (map f xs)) + mset (f y)"
proof (induction xs arbitrary: t)
  case (Cons x xs)
  then show ?case by (cases t) (auto simp: ac_simps)
qed simp

lemma apply_phase_bytes:
  assumes "apply_phase L cl request ro w = Returns (r, bytes, w')" and "frame_ok depth request"
  shows "aof_logger w' = aof_logger w" and "bytes = [] \<or> (\<exists>v. bytes = serialize v \<and> write_frame depth v)"
proof -
  obtain w'' where d: "dispatch L cl request True ro False (w\<lparr>aof_logger := scratch_log\<rparr>) = Returns (r, w'')"
    and b: "bytes = file_content (aof_logger w'')" and w': "w' = w''\<lparr>aof_logger := aof_logger w\<rparr>"
    using assms(1) by (rule apply_phase_dispatch)
  show "aof_logger w' = aof_logger w" by (simp add: w')
  have "is_open (aof_logger (w\<lparr>aof_logger := scratch_log\<rparr>))" and "resp_wf request"
    using assms(2) by (simp_all add: scratch_log_def frame_ok_def)
  from dispatch_logs_frame [OF d this] obtain vs where "bytes = concat (map serialize vs)" "length vs \<le> 1"
    and "\<forall>v\<in>set vs. valid_request v \<and> is_mutating_command (command_of v) \<and> resp_wf v \<and>
        resp_depth v \<le> max 2 (resp_depth request)"
    by (auto simp: b scratch_log_def)
  then show "bytes = [] \<or> (\<exists>v. bytes = serialize v \<and> write_frame depth v)"
    using assms(2) by (cases vs) (auto simp: write_frame_def frame_ok_def)
qed

lemma dispatch_info:
  assumes "dispatch L cl request aof ro bp w = Returns (r, w')" and "command_of request = ''INFO''"
  shows "w' = counted w"
  using assms
  by (auto simp: dispatch_def counted_def run_command_def cmd_info_def answer_defs command_of_def arg_def Let_def
      split: if_splits)

lemma begin_whole_ok:
  assumes "begin_whole L cl request ro w = Returns (ta, w')" and "engine_invar L (storage_engine w)"
    and "frame_ok depth request"
  shows "engine_invar L (storage_engine w') \<and> aof_logger w' = aof_logger w \<and> task_ok depth ta"
proof (cases "command_of request = ''INFO''")
  case True
  then obtain r where d: "dispatch L cl request True ro False w = Returns (r, w')" and "ta = Idle (Some r)"
    using assms(1) by (auto simp: begin_whole_def elim!: map_run_ReturnsE)
  then show ?thesis using dispatch_info [OF d True] assms(2) by simp
next
  case False
  then obtain r bytes where a: "apply_phase L cl request ro w = Returns (r, bytes, w')"
    and ta: "ta = (if bytes = [] then Idle (Some r) else Appending request bytes r)"
    using assms(1) by (auto simp: begin_whole_def elim!: map_run_ReturnsE)
  from a have "engine_invar L (storage_engine w')"
    by (rule apply_phase_dispatch) (use assms(2) dispatch_invar in fastforce)
  then show ?thesis using apply_phase_bytes [OF a assms(3)] ta by auto
qed

lemma begin_counter_ok:
  assumes "begin_counter L tk delta request w = Returns (ta, w')" and "engine_invar L (storage_engine w)"
    and "write_frame depth request"
  shows "engine_invar L (storage_engine w') \<and> aof_logger w' = aof_logger w \<and> task_ok depth ta"
proof -
  have number: "engine_invar L (storage_engine w') \<and> aof_logger w' = aof_logger w \<and> task_ok depth ta"
    if "begin_number tk request key it t val w1 = Returns (ta, w')" "engine_invar L (storage_engine w1)"
      "aof_logger w1 = aof_logger w" for key it t val w1
    using that assms(3) by (auto simp: begin_number_def number_job_def split: if_splits)
  show ?thesis
  proof (cases rule: lookup_cases [of L "storage_engine w" "arg request 1" "now_ms tk"])
    case absent
    then show ?thesis
      using assms(1,2) number by (auto simp: begin_counter_def Let_def simp flip: engine_lookup_def)
  next
    case (dead ent)
    then show ?thesis
      using assms(1) erase_entry_props(1) [OF assms(2) dead(1)] number
      by (auto simp: begin_counter_def Let_def simp flip: engine_lookup_def)
  next
    case (alive ent)
    then show ?thesis
      using assms(1,2) number
      by (auto simp: begin_counter_def Let_def simp flip: engine_lookup_def split: sum.splits if_splits)
  qed
qed

lemma several_sections_write:
  assumes "several_sections request ro" and "command_of request \<noteq> ''EXISTS''" and "frame_ok depth request"
  shows "write_frame depth request"
proof -
  have "is_mutating_command (command_of request)"
    using assms(1,2) unfolding several_sections_def is_mutating_command_def by (elim conjE disjE) simp_all
  then show ?thesis using assms(1,3) by (auto simp: write_frame_def several_sections_def frame_ok_def)
qed

lemma begin_task_ok:
  assumes "begin_task L cl request ro w = Returns (ta, w')" and "engine_invar L (storage_engine w)"
    and "frame_ok depth request"
  shows "engine_invar L (storage_engine w') \<and> aof_logger w' = aof_logger w \<and> task_ok depth ta"
proof (cases "several_sections request ro")
  case False
  then show ?thesis using begin_whole_ok [OF _ assms(2,3)] assms(1) by (simp add: begin_task_def)
next
  case True
  have "command_of request \<in> {''SET'', ''INCR'', ''DECR'', ''DEL'', ''EXISTS''}"
    using True by (auto simp: several_sections_def)
  then show ?thesis
    using assms(1,2) True several_sections_write [OF True _ assms(3)] begin_counter_ok [of L _ _ request "counted w" ta w' depth]
    by (elim insertE emptyE) (auto simp: begin_task_def set_job_def Let_def)
qed

lemma commit_invar: "engine_invar L e \<Longrightarrow> engine_invar L (commit L j e)"
  by (cases "j_write j") (auto simp: commit_def Let_def engine_simps intro!: engine_invar_put_entry)

lemma next_section_ok:
  assumes "next_section L ta w = (ta', w')" and "engine_invar L (storage_engine w)" and "task_ok depth ta"
  shows "engine_invar L (storage_engine w') \<and> task_ok depth ta' \<and>
     aof_logger w' = (case ta of Appending request bytes r \<Rightarrow> aof_log bytes (aof_logger w) | _ \<Rightarrow> aof_logger w)"
  using assms
proof (induction L ta w rule: next_section.induct)
  case (3 L request key keys n w)
  obtain d e where d: "storage_del L [key] (storage_engine w) = (d, e)" by fastforce
  then have "engine_invar L e" using storage_del_props [OF "3.prems"(2) d] "3.prems"(2) by (simp add: keeps_def)
  then show ?case using "3.prems" d by auto
next
  case (5 L now key keys n w)
  obtain d e where d: "storage_exists L now [key] (storage_engine w) = (d, e)" by fastforce
  then have "engine_invar L e" using storage_exists_props [OF "5.prems"(2) d] "5.prems"(2) by (simp add: keeps_def)
  then show ?case using "5.prems" d by auto
next
  case (7 L j needed w)
  let ?i = "get_shard_index L (storage_engine w) (j_key j)"
  obtain freed e where f: "evict_from_shard L (j_tick j) ?i needed (storage_engine w) = (freed, e)" by fastforce
  have "?i < length (shards (storage_engine w))" by (rule get_shard_index_less [OF engine_invarD(1) [OF "7.prems"(2)]])
  from evict_from_shard_props(1) [OF "7.prems"(2) this f] show ?case using "7.prems" f by auto
qed (auto simp: commit_invar log_phase_def split: option.splits if_splits)

lemma put_task_ok:
  assumes "machine_ok L depth start m" and "t < length (threads m)" and "to_append (threads m ! t) = []"
    and "engine_invar L (storage_engine w) \<and> aof_logger w = aof_logger (m_system m) \<and> task_ok depth ta"
  shows "machine_ok L depth start (put_task t ta w m)"
  using assms mset_concat_update [OF assms(2), of to_append ta]
  by (auto simp: machine_ok_def put_task_def dest!: set_update_subset_insert [THEN subsetD])

lemma append_task_ok:
  assumes "machine_ok L depth start m" and "t < length (threads m)" and "threads m ! t = Appending request bytes r"
  shows "machine_ok L depth start (do_section L t m)"
proof -
  from assms(1) obtain vs where o: "is_open (aof_logger (m_system m))"
    and vs: "file_content (aof_logger (m_system m)) = start @ wire vs" "\<forall>v\<in>set vs. write_frame depth v"
    "mset (effects m) = mset (map serialize vs) + mset (concat (map to_append (threads m)))"
    by (auto simp: machine_ok_def)
  have "threads m ! t \<in> set (threads m)" using assms(2) by simp
  with assms(1,3) obtain v where v: "bytes = serialize v" "write_frame depth v" by (fastforce simp: machine_ok_def)
  have s: "do_section L t m = put_task t (Idle (Some r)) (log_phase bytes (m_system m)) m"
    using assms(3) by (simp add: do_section_def)
  have "file_content (aof_logger (log_phase bytes (m_system m))) = start @ wire (vs @ [v])"
    using o vs(1) v(1) by (simp add: log_phase_def)
  moreover have "mset (effects m) =
      mset (map serialize (vs @ [v])) + mset (concat (map to_append ((threads m)[t := Idle (Some r)])))"
    using mset_concat_update [OF assms(2), of to_append "Idle (Some r)"] assms(3) vs(3) v(1) by simp
  ultimately have "\<exists>vs. file_content (aof_logger (log_phase bytes (m_system m))) = start @ wire vs \<and>
      (\<forall>v\<in>set vs. write_frame depth v) \<and>
      mset (effects m) = mset (map serialize vs) + mset (concat (map to_append ((threads m)[t := Idle (Some r)])))"
    using vs(2) v(2) by (intro exI [of _ "vs @ [v]"]) simp
  then show ?thesis
    using assms(1) unfolding s by (auto simp: machine_ok_def put_task_def log_phase_def dest!: set_update_subset_insert [THEN subsetD])
qed

lemma run_step_ok:
  assumes "run_step L depth ro P S m m'" and "machine_ok L depth start m"
  shows "machine_ok L depth start m'"
  using assms(1)
proof cases
  case (Begin t request cl)
  obtain ta w where b: "begin_task L cl request ro (m_system m) = Returns (ta, w)" and m': "m' = put_task t ta w m"
    using Begin(6) unfolding do_begin_def by (auto elim!: map_run_ReturnsE)
  have "to_append (threads m ! t) = []" using Begin(2) by (cases "threads m ! t") auto
  then show ?thesis
    unfolding m' using begin_task_ok [OF b _ Begin(3)] assms(2)
    by (intro put_task_ok [OF assms(2) Begin(1)]) (auto simp: machine_ok_def)
next
  case (Section t)
  show ?thesis
  proof (cases "to_append (threads m ! t) = []")
    case True
    obtain ta w where n: "next_section L (threads m ! t) (m_system m) = (ta, w)" by fastforce
    have "threads m ! t \<in> set (threads m)" using Section(2) by simp
    then have "engine_invar L (storage_engine w) \<and> task_ok depth ta \<and> aof_logger w = aof_logger (m_system m)"
      using next_section_ok [OF n, of depth] assms(2) True by (auto simp: machine_ok_def split: task.splits)
    then show ?thesis using put_task_ok [OF assms(2) Section(2) True] n Section(1) by (simp add: do_section_def)
  next
    case False
    then obtain request bytes r where "threads m ! t = Appending request bytes r" by (cases "threads m ! t") auto
    then show ?thesis unfolding Section(1) by (rule append_task_ok [OF assms(2) Section(2)])
  qed
next
  case (Sweep now i)
  have "engine_invar L (storage_engine (m_system m))" using assms(2) by (simp add: machine_ok_def)
  from view_sweep_shard [OF this Sweep(3), of now] show ?thesis
    using assms(2) by (auto simp: Sweep(1) do_sweep_def machine_ok_def keeps_def)
qed


section \<open>Progress\<close>

text \<open>How many sections a thread has before it at most.\<close>

fun task_size :: "task \<Rightarrow> nat" where
  "task_size (Idle r) = 0"
| "task_size (Deleting request keys n) = length keys + 2"
| "task_size (Counting now keys n) = length keys + 1"
| "task_size (Checking j) = 4"
| "task_size (Evicting j needed) = 3"
| "task_size (Committing j) = 2"
| "task_size (Appending request bytes r) = 1"

definition finishes :: "task \<Rightarrow> task \<Rightarrow> bool" where
  "finishes ta ta' \<longleftrightarrow> (if idle ta then ta' = ta else \<exists>r. ta' = Idle (Some r))"

lemma next_section_size: "next_section L ta w = (ta', w') \<Longrightarrow> \<not> idle ta \<Longrightarrow> task_size ta' < task_size ta"
  by (induction L ta w rule: next_section.induct) (auto split: prod.splits option.splits if_splits)

lemma next_section_finishes: "next_section L ta w = (ta', w') \<Longrightarrow> \<not> idle ta \<Longrightarrow> finishes ta' tb \<Longrightarrow> finishes ta tb"
  by (induction L ta w rule: next_section.induct) (auto simp: finishes_def split: prod.splits option.splits if_splits)

text \<open>A thread that holds the mutex of a shard waits for nothing.\<close>

lemma someone_proceeds:
  assumes "t < length (threads m)" and "\<not> idle (threads m ! t)"
  obtains i where "i < length (threads m)" "\<not> idle (threads m ! i)" "may_lock L m (wants (threads m ! i))"
proof (cases "\<exists>i<length (threads m). holds (threads m ! i) \<noteq> None")
  case True
  then obtain i where "i < length (threads m)" "holds (threads m ! i) \<noteq> None" by blast
  moreover from this(2) have "\<not> idle (threads m ! i)" "wants (threads m ! i) = None" by (cases "threads m ! i"; simp)+
  ultimately show thesis using that by (simp add: may_lock_def)
next
  case False
  then have "\<forall>ta\<in>set (threads m). holds ta = None" by (metis in_set_conv_nth)
  then have "may_lock L m k" for k by (simp add: may_lock_def)
  then show thesis using that assms by blast
qed

text \<open>C12. No deadlock: from any state of the threads, whatever they are working on, a schedule exists in which
  every thread that is working ends with a reply, and the idle ones stay as they are.\<close>

theorem threads_finish:
  "\<exists>m'. (run_step L depth ro P S)\<^sup>*\<^sup>* m m' \<and> list_all2 finishes (threads m) (threads m')"
proof (induction "sum_list (map task_size (threads m))" arbitrary: m rule: less_induct)
  case less
  show ?case
  proof (cases "\<exists>t<length (threads m). \<not> idle (threads m ! t)")
    case False
    then have "list_all2 finishes (threads m) (threads m)" by (simp add: list_all2_conv_all_nth finishes_def)
    then show ?thesis by blast
  next
    case True
    then obtain t where t: "t < length (threads m)" "\<not> idle (threads m ! t)" "may_lock L m (wants (threads m ! t))"
      using someone_proceeds by blast
    let ?m = "do_section L t m"
    obtain ta w where n: "next_section L (threads m ! t) (m_system m) = (ta, w)" by fastforce
    then have th: "threads ?m = (threads m)[t := ta]" by (simp add: do_section_def put_task_def)
    have "task_size ta < task_size (threads m ! t)" by (rule next_section_size [OF n t(2)])
    then have "sum_list (map task_size (threads ?m)) < sum_list (map task_size (threads m))"
      using t(1) member_le_sum_list [of "task_size (threads m ! t)" "map task_size (threads m)"]
      by (simp add: th map_update sum_list_update)
    from less [OF this] obtain m' where r: "(run_step L depth ro P S)\<^sup>*\<^sup>* ?m m'" and d: "list_all2 finishes (threads ?m) (threads m')"
      by blast
    have "finishes (threads m ! i) (threads m' ! i)" if "i < length (threads m)" for i
      using d that t(1) next_section_finishes [OF n t(2)] unfolding th list_all2_conv_all_nth by (cases "i = t") auto
    then have "list_all2 finishes (threads m) (threads m')" using d th by (simp add: list_all2_conv_all_nth)
    moreover have "run_step L depth ro P S m ?m" using t by (rule run_step.Section)
    ultimately show ?thesis using r by (meson converse_rtranclp_into_rtranclp)
  qed
qed

section \<open>Schedules\<close>

text \<open>A run given by what happens next: a request arrives at a thread, or a thread goes on. A move that is not
  possible ends the run.\<close>

datatype move = Arrive nat call RESPValue | Go nat

definition do_move ::
  "lib \<Rightarrow> nat \<Rightarrow> bool \<Rightarrow> (nat \<Rightarrow> call \<Rightarrow> RESPValue \<Rightarrow> Machine \<Rightarrow> bool) \<Rightarrow> Machine \<Rightarrow> move \<Rightarrow> Machine run" where
  "do_move L depth ro P m mv =
     (case mv of
        Arrive t cl request \<Rightarrow>
          if t < length (threads m) \<and> idle (threads m ! t) \<and> frame_ok depth request \<and> P t cl request m \<and>
             may_lock L m (first_key request)
          then do_begin L cl request ro t m else Diverges
      | Go t \<Rightarrow>
          if t < length (threads m) \<and> \<not> idle (threads m ! t) \<and> may_lock L m (wants (threads m ! t))
          then Returns (do_section L t m) else Diverges)"

lemma do_move_step: "do_move L depth ro P m mv = Returns m' \<Longrightarrow> run_step L depth ro P S m m'"
  by (cases mv) (auto simp: do_move_def split: if_splits intro: run_step.intros)

lemma schedule_reaches:
  "run_fold (do_move L depth ro P) m mvs = Returns m' \<Longrightarrow> (run_step L depth ro P S)\<^sup>*\<^sup>* m m'"
proof (induction mvs arbitrary: m)
  case (Cons mv mvs)
  then obtain m1 where "do_move L depth ro P m mv = Returns m1" "run_fold (do_move L depth ro P) m1 mvs = Returns m'"
    by (auto simp: run_bind_eq_Returns)
  then show ?case using Cons.IH do_move_step by (metis converse_rtranclp_into_rtranclp)
qed simp

abbreviation any_request :: "nat \<Rightarrow> call \<Rightarrow> RESPValue \<Rightarrow> Machine \<Rightarrow> bool" where
  "any_request \<equiv> \<lambda>_ _ _ _. True"

text \<open>Two clients set the same key: the second is applied after the first, and logged before it.\<close>

definition ex_race :: "Machine run" where
  "ex_race = run_fold (do_move ex_lib 2 False any_request) (machine_new 2 (system_new ex_aof))
     [Arrive 0 (ex_call 7) (bulk_array [''SET'', ''k'', ''1'']), Go 0, Go 0,
      Arrive 1 (ex_call 7) (bulk_array [''SET'', ''k'', ''2'']), Go 1, Go 1, Go 1, Go 0]"


text \<open>C35. The order of the log need not be the order of the writes: of two clients that set the same key, the
  second to be applied may be the first to be logged. Then the server shows one value, and shows the
  other after a restart.\<close>

theorem race_reorders_log:
  "\<exists>m w'. (run_step ex_lib 2 False any_request UNIV)\<^sup>*\<^sup>* (machine_new 2 (system_new ex_aof)) m \<and> list_all idle (threads m) \<and>
     view ex_lib (storage_engine (m_system m)) 7 ''k'' = Some (''2'', 0) \<and>
     load_aof ex_lib 2 (\<lambda>_. ex_call 9) False 3 (Some (file_content (aof_logger (m_system m)))) (system_new ex_aof) = Returns w' \<and>
     view ex_lib (storage_engine w') 9 ''k'' = Some (''1'', 0)"
proof -
  let ?load = "\<lambda>m. load_aof ex_lib 2 (\<lambda>_. ex_call 9) False 3 (Some (file_content (aof_logger (m_system m)))) (system_new ex_aof)"
  have "map_run (\<lambda>m. (list_all idle (threads m), view ex_lib (storage_engine (m_system m)) 7 ''k'',
       map_run (\<lambda>w'. view ex_lib (storage_engine w') 9 ''k'') (?load m))) ex_race =
     Returns (True, Some (''2'', 0), Returns (Some (''1'', 0)))"
    by code_simp
  then obtain m where m: "ex_race = Returns m" and f: "list_all idle (threads m)"
      "view ex_lib (storage_engine (m_system m)) 7 ''k'' = Some (''2'', 0)"
      "map_run (\<lambda>w'. view ex_lib (storage_engine w') 9 ''k'') (?load m) = Returns (Some (''1'', 0))"
    by (rule map_run_ReturnsE) simp
  from f(3) obtain w' where "?load m = Returns w'" "view ex_lib (storage_engine w') 9 ''k'' = Some (''1'', 0)"
    by (rule map_run_ReturnsE)
  moreover have "(run_step ex_lib 2 False any_request UNIV)\<^sup>*\<^sup>* (machine_new 2 (system_new ex_aof)) m"
    using m unfolding ex_race_def by (rule schedule_reaches)
  ultimately show ?thesis using f(1,2) by blast
qed

text \<open>The limit: two clients, the keys in different shards, each reads the memory counter before the other has
  added to it.\<close>

definition ex_limit :: "Machine run" where
  "ex_limit = run_fold (do_move ex_lib 2 False any_request) (machine_new 2 (system_new ex_aof))
     [Arrive 0 (ex_call 7) (bulk_array [''CONFIG'', ''SET'', ''MAXMEMORY'', ''150'']),
      Arrive 0 (ex_call 7) (bulk_array [''SET'', ''k'', ''1'']), Go 0,
      Arrive 1 (ex_call 7) (bulk_array [''SET'', ''kk'', ''2'']), Go 1, Go 1, Go 1, Go 0, Go 0]"

text \<open>C36. The memory limit can be exceeded: two clients that write to different shards both find room for
  their values before either has added to the counter. Nothing is evicted, both writes succeed, and
  the server uses more memory than its limit.\<close>

theorem limit_race_exceeds:
  "\<exists>m. (run_step ex_lib 2 False any_request UNIV)\<^sup>*\<^sup>* (machine_new 2 (system_new ex_aof)) m \<and>
     map last_reply (threads m) = [Some (create_simple_string ''OK''), Some (create_simple_string ''OK'')] \<and>
     evicted_keys (storage_engine (m_system m)) = 0 \<and> max_memory_bytes (storage_engine (m_system m)) = 150 \<and>
     150 < memory_usage (storage_engine (m_system m))"
proof -
  have "map_run (\<lambda>m. (map last_reply (threads m), evicted_keys (storage_engine (m_system m)), max_memory_bytes (storage_engine (m_system m)),
       150 < memory_usage (storage_engine (m_system m)))) ex_limit =
     Returns ([Some (create_simple_string ''OK''), Some (create_simple_string ''OK'')], 0, 150, True)"
    by code_simp
  then obtain m where "ex_limit = Returns m" "map last_reply (threads m) = [Some (create_simple_string ''OK''), Some (create_simple_string ''OK'')]"
      "evicted_keys (storage_engine (m_system m)) = 0" "max_memory_bytes (storage_engine (m_system m)) = 150"
      "150 < memory_usage (storage_engine (m_system m))"
    by (rule map_run_ReturnsE) simp
  moreover from this(1) have "(run_step ex_lib 2 False any_request UNIV)\<^sup>*\<^sup>* (machine_new 2 (system_new ex_aof)) m"
    unfolding ex_limit_def by (rule schedule_reaches)
  ultimately show ?thesis by (intro exI [of _ m] conjI)
qed

end
