(* ===== verification/Linearizability.thy ===== *)
theory Linearizability
  imports Concurrency
begin

text \<open>
  The order of concurrent writes, before a horizon (see \<open>Horizon\<close>): at any time the engine holds what the
  writes of \<open>history\<close>, one after the other, lead to. The tasks of the threads are shown to keep to the
  abstract effect of their request: a thread that has locked the shard of its key commits what it has
  prepared, because nobody has changed the key in between.
\<close>

section \<open>A write depends on its keys only\<close>

definition keys_of :: "RESPValue \<Rightarrow> string set" where
  "keys_of request = (if command_of request = ''DEL'' then set (key_args request) else {arg request 1})"

text \<open>A write at one key: what it stores there depends on what was stored there.\<close>

definition write_at :: "string \<Rightarrow> (kv \<Rightarrow> kv option run) \<Rightarrow> bool" where
  "write_at k E \<longleftrightarrow> (\<exists>g. \<forall>m. E m = map_run (map_option (\<lambda>x. m(k := x))) (g (m k)))"

lemma write_at_const: "write_at k (\<lambda>m. Returns None)" "write_at k (\<lambda>m. Faults f)" "write_at k (\<lambda>m. Returns (Some (m(k \<mapsto> x))))"
  by (auto simp: write_at_def intro: exI [of _ "\<lambda>_. Returns None"] exI [of _ "\<lambda>_. Faults f"] exI [of _ "\<lambda>_. Returns (Some (Some x))"])

lemma write_at_if: "write_at k E \<Longrightarrow> write_at k F \<Longrightarrow> write_at k (\<lambda>m. if b then E m else F m)"
  by (cases b) simp_all

lemma write_at_counter: "write_at k (counter_effect d k)"
  unfolding write_at_def
  by (rule exI [of _ "\<lambda>x. map_run (\<lambda>(r, m'). map_option (\<lambda>_. m' k) r) (spec_step d k (\<lambda>_. x))"])
    (auto simp: counter_effect_def spec_step_def split: option.splits prod.splits sum.splits list.splits)

lemma write_at_deadline: "write_at k (\<lambda>m. Returns (deadline_effect k t m))"
  unfolding write_at_def
  by (rule exI [of _ "\<lambda>x. Returns (map_option (\<lambda>(v, _). Some (v, t)) x)"]) (simp add: deadline_effect_def option.map_comp comp_def case_prod_unfold)

lemma write_at_persist: "write_at k (\<lambda>m. Returns (persist_effect k m))"
  unfolding write_at_def
  by (rule exI [of _ "\<lambda>x. Returns (map_option (\<lambda>m. m k) (persist_effect k (\<lambda>_. x)))"])
    (auto simp: persist_effect_def split: option.splits)

lemma plain_effect_write_at:
  assumes "command_of v \<noteq> ''DEL''"
  shows "write_at (arg v 1) (plain_effect now v)"
proof -
  have "write_at (arg v 1) (\<lambda>m. Returns (if b then E m else None))" if "write_at (arg v 1) (\<lambda>m. Returns (E m))" for b E
    using that write_at_const by (cases b) simp_all
  note w = this [OF write_at_const(3)] this [OF write_at_persist]
  have "write_at (arg v 1) (\<lambda>m. Returns (case t of None \<Rightarrow> None | Some t \<Rightarrow> deadline_effect (arg v 1) t m))" for t
    using write_at_const write_at_deadline by (cases t) simp_all
  then show ?thesis
    unfolding plain_effect_def [abs_def] Let_def if_not_P [OF assms]
    by (intro write_at_if w write_at_const write_at_counter)
qed

lemma plain_effect_local:
  assumes "plain_effect now v m = Returns (Some m')" and "\<forall>k\<in>keys_of v. m2 k = m k"
  shows "plain_effect now v m2 = Returns (Some (override_on m2 m' (keys_of v)))" and "\<forall>k. k \<notin> keys_of v \<longrightarrow> m' k = m k"
proof -
  have val: "valid_request v" using assms(1) plain_effect_invalid [of v] by (cases "valid_request v") simp_all
  have "plain_effect now v m2 = Returns (Some (override_on m2 m' (keys_of v))) \<and> (\<forall>k. k \<notin> keys_of v \<longrightarrow> m' k = m k)"
  proof (cases "command_of v = ''DEL''")
    case True
    then have k: "keys_of v = set (key_args v)" by (simp add: keys_of_def)
    have e: "plain_effect now v x = Returns (if 2 \<le> argc v \<and> (\<exists>k\<in>keys_of v. x k \<noteq> None) then Some (x |` (- keys_of v)) else None)" for x
      using True val by (simp add: plain_effect_def k)
    then have m': "m' = m |` (- keys_of v)" and "2 \<le> argc v" "\<exists>k\<in>keys_of v. m2 k \<noteq> None"
      using assms by (auto split: if_splits)
    moreover have "m2 |` (- keys_of v) = override_on m2 m' (keys_of v)"
      by (rule ext) (simp add: m' override_on_def restrict_map_def)
    ultimately show ?thesis using e by (auto simp: restrict_map_def)
  next
    case False
    then obtain g where g: "plain_effect now v x = map_run (map_option (\<lambda>y. x(arg v 1 := y))) (g (x (arg v 1)))" for x
      using plain_effect_write_at unfolding write_at_def by blast
    have k: "keys_of v = {arg v 1}" using False by (simp add: keys_of_def)
    obtain y where "g (m (arg v 1)) = Returns (Some y)" and m': "m' = m(arg v 1 := y)"
      using assms(1) g [of m] by (cases "g (m (arg v 1))") auto
    then have "plain_effect now v m2 = Returns (Some (m2(arg v 1 := y)))" using g [of m2] assms(2) k by simp
    moreover have "m2(arg v 1 := y) = override_on m2 m' (keys_of v)" by (auto simp: k m' override_on_def)
    ultimately show ?thesis by (simp add: k m')
  qed
  then show "plain_effect now v m2 = Returns (Some (override_on m2 m' (keys_of v)))" "\<forall>k. k \<notin> keys_of v \<longrightarrow> m' k = m k"
    by simp_all
qed

text \<open>A sequence of writes, and two sequences that write different keys.\<close>

abbreviation keys_of_all :: "RESPValue list \<Rightarrow> string set" where
  "keys_of_all vs \<equiv> \<Union> (keys_of ` set vs)"

lemma replays_append: "replays (us @ vs) m = Option.bind (replays us m) (replays vs)"
  by (induction us arbitrary: m) (auto split: run.split option.split)

lemma replays_local:
  assumes "replays vs m = Some m'" and "keys_of_all vs \<subseteq> K" and "\<forall>k\<in>K. m2 k = m k"
  shows "replays vs m2 = Some (override_on m2 m' K) \<and> (\<forall>k. k \<notin> K \<longrightarrow> m' k = m k)"
  using assms
proof (induction vs arbitrary: m m2)
  case Nil
  then show ?case by (auto simp: override_on_def)
next
  case (Cons v vs)
  obtain m1 where m1: "plain_effect 0 v m = Returns (Some m1)" "replays vs m1 = Some m'"
    using Cons.prems(1) by (auto split: run.splits option.splits)
  let ?m3 = "override_on m2 m1 (keys_of v)"
  have "\<forall>k\<in>keys_of v. m2 k = m k" using Cons.prems(2,3) by auto
  note l = plain_effect_local [OF m1(1) this]
  have "\<forall>k\<in>K. ?m3 k = m1 k" using l(2) Cons.prems(3) by (simp add: override_on_def)
  then have "replays vs ?m3 = Some (override_on ?m3 m' K) \<and> (\<forall>k. k \<notin> K \<longrightarrow> m' k = m1 k)"
    using Cons.IH [OF m1(2)] Cons.prems(2) by simp
  moreover have "override_on ?m3 m' K = override_on m2 m' K"
    using Cons.prems(2) by (auto simp: override_on_def fun_eq_iff)
  ultimately show ?case using l Cons.prems(2) by auto
qed

lemma replays_swap:
  assumes "replays (us @ vs) m = Some m2" and "keys_of_all us \<inter> keys_of_all vs = {}"
  shows "replays (vs @ us) m = Some m2"
proof -
  let ?U = "keys_of_all us" and ?V = "keys_of_all vs"
  obtain m1 where u: "replays us m = Some m1" and v: "replays vs m1 = Some m2"
    using assms(1) by (auto simp: replays_append bind_eq_Some_conv)
  have ku: "\<forall>k. k \<notin> ?U \<longrightarrow> m1 k = m k" using replays_local [OF u order_refl, of m] by simp
  then have "\<forall>k\<in>?V. m k = m1 k" using assms(2) by (metis disjoint_iff)
  then have v': "replays vs m = Some (override_on m m2 ?V)" and kv: "\<forall>k. k \<notin> ?V \<longrightarrow> m2 k = m1 k"
    using replays_local [OF v order_refl, of m] by auto
  have "\<forall>k\<in>?U. override_on m m2 ?V k = m k" using assms(2) by (auto simp: override_on_def)
  then have "replays us (override_on m m2 ?V) = Some (override_on (override_on m m2 ?V) m1 ?U)"
    using replays_local [OF u order_refl] by blast
  moreover have "override_on (override_on m m2 ?V) m1 ?U = m2"
  proof
    fix k
    show "override_on (override_on m m2 ?V) m1 ?U k = m2 k"
      using ku kv assms(2) by (cases "k \<in> ?U"; cases "k \<in> ?V") (simp_all add: override_on_def, blast)
  qed
  ultimately show ?thesis using v' by (simp add: replays_append)
qed

section \<open>The tasks before the horizon\<close>

text \<open>The value and the deadline that a write stores.\<close>

fun stored :: "write_op \<Rightarrow> string \<times> u64" where
  "stored (Set_value v) = (v, 0)"
| "stored (Number val t) = (int_to_string val, t)"

definition job_plain :: "u64 \<Rightarrow> kv \<Rightarrow> job \<Rightarrow> bool" where
  "job_plain T m j \<longleftrightarrow>
     replayable T (j_request j) \<and> keys_of (j_request j) = {j_key j} \<and> beyond T (snd (stored (j_write j))) \<and>
     plain_effect 0 (j_request j) m = Returns (Some (m(j_key j \<mapsto> stored (j_write j))))"

fun task_plain :: "u64 \<Rightarrow> kv \<Rightarrow> task \<Rightarrow> bool" where
  "task_plain T m (Deleting request keys n) =
     (valid_request request \<and> command_of request = ''DEL'' \<and> 2 \<le> argc request \<and> 0 \<le> n \<and>
      (\<exists>ks. key_args request = ks @ keys))"
| "task_plain T m (Counting now keys n) = (now \<le> T)"
| "task_plain T m (Checking j) = job_plain T m j"
| "task_plain T m (Evicting j needed) = False"
| "task_plain T m (Committing j) = job_plain T m j"
| "task_plain T m _ = True"

text \<open>What the next section does to the map.\<close>

definition section_effect :: "task \<Rightarrow> kv \<Rightarrow> kv" where
  "section_effect ta m =
     (case ta of
        Deleting request (key # keys) n \<Rightarrow> m(key := None)
      | Committing j \<Rightarrow> m(j_key j \<mapsto> stored (j_write j))
      | _ \<Rightarrow> m)"

lemma section_effect_simps [simp]:
  "section_effect (Deleting request (key # keys) n) m = m(key := None)" "section_effect (Deleting request [] n) m = m"
  "section_effect (Committing j) m = m(j_key j \<mapsto> stored (j_write j))"
  "section_effect (Idle ro) m = m" "section_effect (Counting now keys n) m = m" "section_effect (Checking j) m = m"
  "section_effect (Evicting j needed) m = m" "section_effect (Appending request bytes r) m = m"
  by (simp_all add: section_effect_def fun_eq_iff)

lemma job_plain_cong:
  assumes "job_plain T m j" and "m2 (j_key j) = m (j_key j)"
  shows "job_plain T m2 j"
proof -
  let ?m' = "m(j_key j \<mapsto> stored (j_write j))"
  have k: "keys_of (j_request j) = {j_key j}" and e: "plain_effect 0 (j_request j) m = Returns (Some ?m')"
    using assms(1) by (simp_all add: job_plain_def)
  have "plain_effect 0 (j_request j) m2 = Returns (Some (override_on m2 ?m' {j_key j}))"
    using plain_effect_local(1) [OF e, of m2] assms(2) unfolding k by simp
  moreover have "override_on m2 ?m' {j_key j} = m2(j_key j \<mapsto> stored (j_write j))" by (auto simp: override_on_def)
  ultimately show ?thesis using assms(1) by (simp add: job_plain_def)
qed

lemma task_plain_cong: "task_plain T m ta \<Longrightarrow> (\<And>k. holds ta = Some k \<Longrightarrow> m2 k = m k) \<Longrightarrow> task_plain T m2 ta"
  by (cases ta) (auto intro: job_plain_cong)

lemma commit_put:
  "\<exists>ent0 f. commit L j e = put_entry L (j_key j) ent0 f (charge (j_new_cost j) (j_old_cost j) e) \<and>
     entry_view ent0 = stored (j_write j) \<and> (\<forall>ent. entry_view (f ent) = stored (j_write j))"
proof (cases "j_write j")
  case (Set_value v)
  show ?thesis
    unfolding commit_def Let_def Set_value write_op.case
    by (intro exI conjI, rule refl) (simp_all add: entry_view_def fresh_def copy_assign_def)
next
  case (Number val t)
  show ?thesis
    unfolding commit_def Let_def Number write_op.case
    by (intro exI conjI, rule refl) (simp_all add: entry_view_def fresh_def move_assign_def)
qed

lemma plain_commit:
  assumes "plain L T e m" and "beyond T (snd (stored (j_write j)))"
  shows "plain L T (commit L j e) (m(j_key j \<mapsto> stored (j_write j)))"
proof -
  let ?e = "charge (j_new_cost j) (j_old_cost j) e"
  have inv: "engine_invar L ?e" and l: "engine_lookup L ?e = engine_lookup L e" and mx: "max_memory_bytes ?e = max_memory_bytes e"
    using plain_invar(1) [OF assms(1)] by (simp_all add: engine_simps frame_simps)
  obtain ent0 f where c: "commit L j e = put_entry L (j_key j) ent0 f ?e"
    and en: "entry_view ent0 = stored (j_write j)" "\<And>ent. entry_view (f ent) = stored (j_write j)"
    using commit_put by blast
  let ?new = "case engine_lookup L e (j_key j) of None \<Rightarrow> ent0 | Some ent \<Rightarrow> f ent"
  note p = put_entry_props [OF inv, of "j_key j" ent0 f, unfolded l mx, folded c]
  have "entry_view ?new = (fst (stored (j_write j)), snd (stored (j_write j)))" using en by (simp split: option.split)
  from plain_update [OF assms(1) p(2) this assms(2) p(1,5)] show ?thesis by simp
qed

lemma plain_sweep:
  assumes "plain L T e m" and "now \<le> T" and "i < length (shards e)"
  shows "plain L T (sweep_shard now i e) m"
proof -
  note sw = sweep_shard_props [OF plain_invar(1) [OF assms(1)] assms(3), of now]
  have "engine_lookup L (sweep_shard now i e) k = engine_lookup L e k" for k
    using sw(3) [of k] by (cases rule: plain_cases [OF assms(1), of k]) (use assms(2) in auto)
  then show ?thesis using assms(1) sw(1,5) by (simp add: plain_def)
qed

lemma restrict_single: "m |` (- {k}) = m(k := None)"
  by (auto simp: restrict_map_def)

lemma del_request:
  "command_of (bulk_array (''DEL'' # ks)) = ''DEL''" "keys_of (bulk_array (''DEL'' # ks)) = set ks"
  "replayable T (bulk_array (''DEL'' # ks))"
  "plain_effect now (bulk_array (''DEL'' # ks)) m =
     Returns (if \<exists>k\<in>set ks. m k \<noteq> None then Some (m |` (- set ks)) else None)"
proof -
  have u: "to_upper ''DEL'' = ''DEL''" by code_simp
  show c: "command_of (bulk_array (''DEL'' # ks)) = ''DEL''" by (simp add: command_of_def u)
  have r: "\<not> relative (bulk_array (''DEL'' # ks))" by (simp add: relative_def c)
  show "keys_of (bulk_array (''DEL'' # ks)) = set ks" by (simp add: keys_of_def c)
  show "replayable T (bulk_array (''DEL'' # ks))" by (simp add: replayable_def r c relative_cases [OF r])
  have "2 \<le> argc (bulk_array (''DEL'' # ks)) \<longleftrightarrow> ks \<noteq> []" by (cases ks) simp_all
  then show "plain_effect now (bulk_array (''DEL'' # ks)) m =
      Returns (if \<exists>k\<in>set ks. m k \<noteq> None then Some (m |` (- set ks)) else None)"
    unfolding plain_effect_def c Let_def by (cases ks) (simp_all add: valid_request_def create_bulk_string_def)
qed

lemma section_plain:
  assumes "next_section L ta w = (ta', w')" and "plain L T (storage_engine w) m" and "task_plain T m ta"
  shows "plain L T (storage_engine w') (section_effect ta m) \<and> task_plain T (section_effect ta m) ta' \<and>
     (holds ta' = None \<or> holds ta' = holds ta) \<and>
     (\<exists>vs. written ta ta' = map serialize vs \<and> replays vs m = Some (section_effect ta m) \<and> (\<forall>v\<in>set vs. replayable T v))"
  using assms
proof (induction L ta w rule: next_section.induct)
  case (3 L request key keys n w)
  obtain d e where d: "storage_del L [key] (storage_engine w) = (d, e)" by fastforce
  note p = plain_del [OF "3.prems"(2) d, unfolded list.set restrict_single]
  have "0 \<le> d" using storage_del_props [OF plain_invar(1) [OF "3.prems"(2)] d] by simp
  then have t: "task_plain T (m(key := None)) (Deleting request keys (n + d))" using "3.prems"(3) by auto
  have "\<exists>vs. (if n < n + d then [serialize (bulk_array [''DEL'', key])] else []) = map serialize vs \<and>
      replays vs m = Some (m(key := None)) \<and> (\<forall>v\<in>set vs. replayable T v)"
  proof (cases "m key = None")
    case True
    then show ?thesis using p(2) by (intro exI [of _ "[]"]) auto
  next
    case False
    then show ?thesis
      using p(2) by (intro exI [of _ "[bulk_array [''DEL'', key]]"]) (auto simp: del_request restrict_single)
  qed
  moreover have "ta' = Deleting request keys (n + d)" "w' = w\<lparr>storage_engine := e\<rparr>" using "3.prems"(1) d by simp_all
  ultimately show ?case using p(1) t by (simp add: fun_upd_def)
next
  case (5 L now key keys n w)
  obtain d e where d: "storage_exists L now [key] (storage_engine w) = (d, e)" by fastforce
  then show ?case using "5.prems" plain_exists [OF "5.prems"(2) _ d] by auto
next
  case (6 L j w)
  then have "bytes_needed (j_new_cost j) (j_old_cost j) (storage_engine w) = None"
    using plain_invar(2) by (auto simp: bytes_needed_def)
  then show ?case using 6 by auto
next
  case (8 L j w)
  then have "job_plain T m j" by simp
  then have j: "replayable T (j_request j)" "beyond T (snd (stored (j_write j)))"
    "plain_effect 0 (j_request j) m = Returns (Some (m(j_key j \<mapsto> stored (j_write j))))"
    by (simp_all add: job_plain_def)
  show ?case
    using 8 plain_commit [OF "8.prems"(2) j(2)] j(1,3) by (auto simp: fun_upd_def intro!: exI [of _ "[j_request j]"])
qed (auto simp: log_phase_def)

section \<open>The arrival of a request\<close>

text \<open>The request that a thread works on, if it may write, and the keys that the thread may write or has
  written but not yet logged.\<close>

fun task_request :: "task \<Rightarrow> RESPValue option" where
  "task_request (Deleting request keys n) = Some request"
| "task_request (Checking j) = Some (j_request j)"
| "task_request (Evicting j needed) = Some (j_request j)"
| "task_request (Committing j) = Some (j_request j)"
| "task_request (Appending request bytes r) = Some request"
| "task_request _ = None"

definition busy :: "task \<Rightarrow> string set" where
  "busy ta = (case task_request ta of None \<Rightarrow> {} | Some request \<Rightarrow> keys_of request)"

lemma effect_writer:
  assumes "plain_effect now request m = Returns (Some m')"
  shows "valid_request request" and "is_mutating_command (command_of request)"
    and "\<not> several_sections request False \<Longrightarrow> first_key request = Some (arg request 1) \<and> command_of request \<noteq> ''DEL''"
proof -
  show v: "valid_request request" using assms plain_effect_invalid [of request] by (cases "valid_request request") simp_all
  have c: "command_of request = ''SET'' \<and> 3 \<le> argc request \<or> command_of request = ''DEL'' \<and> 2 \<le> argc request \<or>
      command_of request = ''INCR'' \<and> argc request = 2 \<or> command_of request = ''DECR'' \<and> argc request = 2 \<or>
      command_of request = ''PERSIST'' \<and> argc request = 2 \<or>
      (command_of request = ''EXPIRE'' \<or> command_of request = ''PEXPIRE'' \<or> command_of request = ''PEXPIREAT'') \<and> argc request = 3"
    using assms v unfolding plain_effect_def Let_def relative_def deadline_of_def
    by (simp split: if_splits) blast
  then show "is_mutating_command (command_of request)" unfolding is_mutating_command_def by blast
  assume "\<not> several_sections request False"
  then have "command_of request = ''PERSIST'' \<and> argc request = 2 \<or>
      (command_of request = ''EXPIRE'' \<or> command_of request = ''PEXPIRE'' \<or> command_of request = ''PEXPIREAT'') \<and> argc request = 3"
    using c v unfolding several_sections_def by blast
  then show "first_key request = Some (arg request 1) \<and> command_of request \<noteq> ''DEL''"
    unfolding first_key_def by (elim disjE conjE) simp_all
qed

lemma keys_of_logged_form:
  assumes "command_of request \<noteq> ''DEL''"
  shows "keys_of (logged_form cl request) = {arg request 1}"
  using assms pexpireat_cmd_props(2,4) by (simp add: logged_form_def keys_of_def split: option.split)

text \<open>What the arrival of a request leads to on a plain engine that held \<open>m\<close>.\<close>

definition arrival :: "lib \<Rightarrow> u64 \<Rightarrow> RESPValue \<Rightarrow> kv \<Rightarrow> task \<Rightarrow> System \<Rightarrow> kv \<Rightarrow> RESPValue list \<Rightarrow> bool" where
  "arrival L T request m ta w' m' vs \<longleftrightarrow>
     plain L T (storage_engine w') m' \<and> task_plain T m' ta \<and>
     to_append ta = map serialize vs \<and> replays vs m = Some m' \<and>
     (\<forall>v\<in>set vs. replayable T v \<and> keys_of v = keys_of request \<and> (\<forall>depth. frame_ok depth request \<longrightarrow> frame_ok depth v)) \<and>
     (holds ta = None \<or> holds ta = first_key request) \<and> (\<forall>k. m' k \<noteq> m k \<longrightarrow> first_key request = Some k) \<and>
     (task_request ta = None \<or> task_request ta = Some request \<and> is_mutating_command (command_of request)) \<and>
     (\<forall>r keys n. ta = Deleting r keys n \<longrightarrow> keys = key_args r \<and> n = 0)"

lemma begin_whole_plain:
  assumes "begin_whole L cl request False w = Returns (ta, w')" and "plain L T (storage_engine w) m"
    and "timely T cl request" and "\<not> several_sections request False"
  shows "\<exists>m' vs. arrival L T request m ta w' m' vs"
proof (cases "command_of request = ''INFO''")
  case True
  then obtain r where d: "dispatch L cl request True False False w = Returns (r, w')" and "ta = Idle (Some r)"
    using assms(1) by (auto simp: begin_whole_def elim!: map_run_ReturnsE)
  then show ?thesis
    using dispatch_info [OF d True] assms(2) by (intro exI [of _ m] exI [of _ "[]"]) (simp add: arrival_def)
next
  case False
  then obtain r bytes where a: "apply_phase L cl request False w = Returns (r, bytes, w')"
    and ta: "ta = (if bytes = [] then Idle (Some r) else Appending request bytes r)"
    using assms(1) by (auto simp: begin_whole_def elim!: map_run_ReturnsE)
  let ?ws = "w\<lparr>aof_logger := scratch_log\<rparr>" and ?eff = "plain_effect (now_ms (engine_tick cl)) request m"
  from a obtain w'' where d: "dispatch L cl request True False False ?ws = Returns (r, w'')"
    and b: "bytes = file_content (aof_logger w'')" and w': "w' = w''\<lparr>aof_logger := aof_logger w\<rparr>"
    by (rule apply_phase_dispatch)
  have "plain L T (storage_engine ?ws) m" using assms(2) by simp
  from dispatch_plain [OF this assms(3), of False False True] d
  have po: "plain_outcome L T (logged_form cl request) True (counted ?ws) m ?eff (Returns (r, w''))" by simp
  then obtain mo where mo: "?eff = Returns mo" by (cases ?eff) (auto simp: plain_outcome.simps)
  with po have pl: "plain L T (storage_engine w') (case mo of None \<Rightarrow> m | Some m' \<Rightarrow> m')"
    and lo: "logs (if mo \<noteq> None then [logged_form cl request] else []) (counted ?ws) w''"
    by (auto simp: plain_outcome.simps w' split: if_splits)
  show ?thesis
  proof (cases mo)
    case None
    then have "bytes = []" using lo by (simp add: logs_def b scratch_log_def)
    then show ?thesis using None pl ta by (intro exI [of _ m] exI [of _ "[]"]) (simp add: arrival_def)
  next
    case (Some m')
    let ?v = "logged_form cl request"
    have e: "?eff = Returns (Some m')" using mo Some by simp
    note wr = effect_writer [OF e]
    have "bytes = serialize ?v" using lo Some by (simp add: logs_def b scratch_log_def)
    then have ta': "ta = Appending request (serialize ?v) r" using ta by simp
    have k: "keys_of ?v = {arg request 1}" "keys_of request = {arg request 1}"
      using wr(3) [OF assms(4)] keys_of_logged_form by (simp_all add: keys_of_def)
    have ch: "\<forall>k. m' k \<noteq> m k \<longrightarrow> first_key request = Some k"
      using plain_effect_local(2) [OF e, of m] wr(3) [OF assms(4)] k(2) by (metis singletonD)
    show ?thesis
      using Some pl wr(2) k ch logged_form_frame [OF _ wr(1)] logged_form_replays [OF assms(3) e]
      by (intro exI [of _ m'] exI [of _ "[?v]"]) (simp add: arrival_def ta')
  qed
qed

lemma number_plain:
  assumes "plain_effect 0 request = counter_effect d key" and "replayable T request" and "keys_of request = {key}"
    and "counter_effect d key m = Returns (Some (m(key \<mapsto> (int_to_string val, t))))" and "beyond T t"
  shows "job_plain T m (number_job tk request key it t val)"
  using assms by (simp add: job_plain_def number_job_def)

lemma begin_counter_plain:
  assumes "begin_counter L tk d request w = Returns (ta, w')" and "plain L T (storage_engine w) m" and "now_ms tk \<le> T"
    and "plain_effect 0 request = counter_effect d (arg request 1)" and "replayable T request"
    and "keys_of request = {arg request 1}"
  shows "w' = w \<and> (idle ta \<or>
     (\<exists>j. ta = Checking j \<and> job_plain T m j \<and> j_request j = request \<and> j_key j = arg request 1))"
proof -
  let ?k = "arg request 1"
  have number: "w' = w \<and> (\<exists>j. ta = Checking j \<and> job_plain T m j \<and> j_request j = request \<and> j_key j = ?k)"
    if "begin_number tk request ?k it t val w = Returns (ta, w')" "beyond T t"
      "in_int64 val \<Longrightarrow> counter_effect d ?k m = Returns (Some (m(?k \<mapsto> (int_to_string val, t))))" for it t val
  proof -
    have i: "in_int64 val" and "ta = Checking (number_job tk request ?k it t val)" "w' = w"
      using that(1) by (simp_all add: begin_number_def split: if_splits)
    then show ?thesis using number_plain [OF assms(4-6) that(3) [OF i] that(2)] by (simp add: number_job_def)
  qed
  from assms(2) show ?thesis
  proof (cases rule: plain_cases [where k = ?k])
    case absent
    then show ?thesis
      using assms(1) number [of None 0 d]
      by (simp add: begin_counter_def counter_effect_def spec_step_def flip: engine_lookup_def)
  next
    case (present ent)
    have "begin_counter L tk d request w =
        (case from_chars_i64 (chars (entry_value ent)) of
           Inl _ \<Rightarrow> Returns (Idle (Some (reply (create_error not_an_integer))), w)
         | Inr (val, rest) \<Rightarrow>
             if rest \<noteq> [] then Returns (Idle (Some (reply (create_error not_an_integer))), w)
             else begin_number tk request ?k (Some ent) (expire_at_ms ent) (val + d) w)"
      using present(1) present(4) [OF assms(3)] by (simp add: begin_counter_def Let_def del: One_nat_def flip: engine_lookup_def)
    moreover have "counter_effect d ?k m = Returns (Some (m(?k \<mapsto> (int_to_string (n + d), expire_at_ms ent))))"
      if "from_chars_i64 (chars (entry_value ent)) = Inr (n, [])" "in_int64 (n + d)" for n
      using that present(2) by (simp add: counter_effect_def spec_step_def)
    ultimately show ?thesis
      using assms(1) present(3) number [of "Some ent" "expire_at_ms ent"]
      by (auto split: sum.splits prod.splits if_splits)
  qed
qed

text \<open>A request that only makes its thread ready to write.\<close>

lemma arrival_ready:
  assumes "plain L T (storage_engine w') m" and "task_plain T m ta" and "to_append ta = []"
    and "holds ta = None \<or> holds ta = first_key request"
    and "task_request ta = None \<or> task_request ta = Some request \<and> is_mutating_command (command_of request)"
    and "\<And>r keys n. ta = Deleting r keys n \<Longrightarrow> keys = key_args r \<and> n = 0"
  shows "\<exists>m' vs. arrival L T request m ta w' m' vs"
  using assms by (intro exI [of _ m] exI [of _ "[]"]) (auto simp: arrival_def)

lemma arrival_job:
  assumes "plain L T (storage_engine w') m" and "job_plain T m j" and "j_request j = request" and "j_key j = arg request 1"
    and "command_of request \<in> {''SET'', ''INCR'', ''DECR''}" and "2 \<le> argc request"
  shows "\<exists>m' vs. arrival L T request m (Checking j) w' m' vs"
  using assms by (intro arrival_ready) (auto simp: first_key_def is_mutating_command_def)

lemma one_key_replayable:
  assumes "command_of request \<in> {''SET'', ''INCR'', ''DECR''}"
  shows "replayable T request" and "keys_of request = {arg request 1}"
  using assms by (auto simp: replayable_def relative_def keys_of_def relative_cases)

lemma arrival_counter:
  assumes "begin_counter L tk d request w = Returns (ta, w')" and "plain L T (storage_engine w) m" and "now_ms tk \<le> T"
    and "plain_effect 0 request = counter_effect d (arg request 1)" and "argc request = 2"
    and "command_of request \<in> {''INCR'', ''DECR''}"
  shows "\<exists>m' vs. arrival L T request m ta w' m' vs"
proof -
  have c: "command_of request \<in> {''SET'', ''INCR'', ''DECR''}" using assms(6) by auto
  from begin_counter_plain [OF assms(1-4) one_key_replayable [OF c]] have w': "w' = w" and
    "idle ta \<or> (\<exists>j. ta = Checking j \<and> job_plain T m j \<and> j_request j = request \<and> j_key j = arg request 1)" by auto
  then consider "idle ta" | j where "ta = Checking j" "job_plain T m j" "j_request j = request" "j_key j = arg request 1"
    by blast
  then show ?thesis
  proof cases
    case 1
    then show ?thesis using assms(2) w' by (cases ta) (auto intro: arrival_ready)
  next
    case 2
    then show ?thesis using arrival_job [OF assms(2) 2(2-4) c] assms(5) w' by simp
  qed
qed

lemma begin_task_plain:
  assumes "begin_task L cl request False w = Returns (ta, w')" and "plain L T (storage_engine w) m"
    and "timely T cl request"
  shows "\<exists>m' vs. arrival L T request m ta w' m' vs"
proof (cases "several_sections request False")
  case False
  then show ?thesis using begin_whole_plain [OF _ assms(2,3)] assms(1) by (simp add: begin_task_def)
next
  case True
  let ?k = "arg request 1"
  have v: "valid_request request" using True by (simp add: several_sections_def)
  have nowT: "now_ms (engine_tick cl) \<le> T" using assms(3) by (simp add: timely_def)
  have pl: "plain L T (storage_engine (counted w)) m" using assms(2) by simp
  note started = assms(1) [unfolded begin_task_def, simplified True not_True_eq_False if_False Let_def]
  consider (set) "command_of request = ''SET''" "3 \<le> argc request" | (incr) "command_of request = ''INCR''" "argc request = 2"
    | (decr) "command_of request = ''DECR''" "argc request = 2" | (del) "command_of request = ''DEL''" "2 \<le> argc request"
    | (ex) "command_of request = ''EXISTS''"
    using True unfolding several_sections_def by blast
  then show ?thesis
  proof cases
    case set
    let ?j = "set_job L (engine_tick cl) request ?k (arg request 2) (storage_engine w)"
    have ta: "ta = Checking ?j" "w' = counted w" using started set by auto
    have "job_plain T m ?j"
      using set v one_key_replayable by (simp add: job_plain_def set_job_def plain_effect_def)
    moreover have "j_request ?j = request" "j_key ?j = ?k" by (simp_all add: set_job_def)
    ultimately show ?thesis using arrival_job [OF pl, of ?j request] set unfolding ta by simp
  next
    case incr
    then have "plain_effect 0 request = counter_effect 1 ?k" using v by (auto simp: plain_effect_def)
    then show ?thesis using arrival_counter [OF _ pl nowT] started incr by simp
  next
    case decr
    then have "plain_effect 0 request = counter_effect (- 1) ?k" using v by (auto simp: plain_effect_def)
    then show ?thesis using arrival_counter [OF _ pl nowT] started decr by simp
  next
    case del
    then have "ta = Deleting request (key_args request) 0" "w' = counted w" using started by auto
    then show ?thesis using del v pl by (intro arrival_ready) (auto simp: is_mutating_command_def)
  next
    case ex
    then have "ta = Counting (now_ms (engine_tick cl)) (key_args request) 0" "w' = counted w" using started by auto
    then show ?thesis using nowT pl by (intro arrival_ready) auto
  qed
qed

section \<open>The order of the writes\<close>

definition exclusive :: "task list \<Rightarrow> bool" where
  "exclusive ts \<longleftrightarrow>
     (\<forall>i<length ts. \<forall>j<length ts. i \<noteq> j \<longrightarrow> holds (ts ! i) = None \<or> holds (ts ! i) \<noteq> holds (ts ! j))"

definition ordered :: "lib \<Rightarrow> u64 \<Rightarrow> Machine \<Rightarrow> kv \<Rightarrow> bool" where
  "ordered L T mc m \<longleftrightarrow>
     plain L T (storage_engine (m_system mc)) m \<and> (\<forall>ta\<in>set (threads mc). task_plain T m ta) \<and> exclusive (threads mc) \<and>
     (\<exists>vs. history mc = map serialize vs \<and> replays vs Map.empty = Some m \<and> (\<forall>v\<in>set vs. replayable T v))"

text \<open>One thread goes on to another task and changes the map, but no key of a shard that another thread has
  locked.\<close>

definition others :: "nat \<Rightarrow> Machine \<Rightarrow> (task \<Rightarrow> bool) \<Rightarrow> bool" where
  "others t mc Q \<longleftrightarrow> (\<forall>i<length (threads mc). i \<noteq> t \<longrightarrow> Q (threads mc ! i))"

lemma exclusive_update:
  assumes "exclusive ts" and "\<forall>i<length ts. i \<noteq> t \<longrightarrow> holds ta = None \<or> holds (ts ! i) \<noteq> holds ta"
  shows "exclusive (ts[t := ta])"
  unfolding exclusive_def
proof (intro allI impI)
  fix i j
  assume "i < length (ts[t := ta])" "j < length (ts[t := ta])" "i \<noteq> j"
  then show "holds (ts[t := ta] ! i) = None \<or> holds (ts[t := ta] ! i) \<noteq> holds (ts[t := ta] ! j)"
    using assms(2) [rule_format, of i] assms(2) [rule_format, of j] assms(1) [unfolded exclusive_def, rule_format, of i j]
    by (cases "i = t"; cases "j = t") auto
qed

lemma put_task_ordered:
  assumes "ordered L T mc m" and "t < length (threads mc)" and "plain L T (storage_engine w) m'" and "task_plain T m' ta"
    and "written (threads mc ! t) ta = map serialize us" "replays us m = Some m'" "\<forall>v\<in>set us. replayable T v"
    and "others t mc (\<lambda>tb. \<forall>k. m' k \<noteq> m k \<longrightarrow> holds tb \<noteq> Some k)"
    and "others t mc (\<lambda>tb. holds ta = None \<or> holds tb \<noteq> holds ta)"
  shows "ordered L T (put_task t ta w mc) m'"
proof -
  have "task_plain T m' tb" if mem: "tb \<in> set ((threads mc)[t := ta])" for tb
  proof -
    obtain i where i: "i < length (threads mc)" "tb = (threads mc)[t := ta] ! i"
      using mem by (auto simp: in_set_conv_nth)
    show ?thesis
    proof (cases "i = t")
      case False
      then have tb: "tb = threads mc ! i" using i by simp
      have "threads mc ! i \<in> set (threads mc)" using i(1) by simp
      then have "task_plain T m tb" using assms(1) unfolding tb ordered_def by blast
      moreover have "m' k = m k" if "holds tb = Some k" for k
        using assms(8) [unfolded others_def, rule_format, OF i(1) False, of k] that tb by metis
      ultimately show ?thesis by (rule task_plain_cong)
    qed (use i assms(4) in simp)
  qed
  moreover have "exclusive ((threads mc)[t := ta])"
    using assms(1,9) by (intro exclusive_update) (simp_all add: ordered_def others_def)
  moreover from assms(1) obtain vs where "history mc = map serialize vs" "replays vs Map.empty = Some m" "\<forall>v\<in>set vs. replayable T v"
    unfolding ordered_def by blast
  then have "history mc @ written (threads mc ! t) ta = map serialize (vs @ us)" "replays (vs @ us) Map.empty = Some m'"
    "\<forall>v\<in>set (vs @ us). replayable T v" using assms(5-7) by (auto simp: replays_append)
  then have "\<exists>vs. history mc @ written (threads mc ! t) ta = map serialize vs \<and> replays vs Map.empty = Some m' \<and>
      (\<forall>v\<in>set vs. replayable T v)" by blast
  ultimately show ?thesis using assms(3) by (simp add: ordered_def put_task_def)
qed

lemma may_lock_holds: "may_lock L mc (Some k) \<Longrightarrow> ta \<in> set (threads mc) \<Longrightarrow> holds ta \<noteq> Some k"
  unfolding may_lock_def by (metis option.set_intros)

lemma section_effect_keys: "section_effect ta m k \<noteq> m k \<Longrightarrow> holds ta = Some k \<or> wants ta = Some k"
proof (cases ta)
  case (Deleting request keys n)
  then show "section_effect ta m k \<noteq> m k \<Longrightarrow> ?thesis" by (cases keys) (auto split: if_splits)
qed (auto split: if_splits)

lemma section_others:
  assumes "exclusive (threads mc)" and "t < length (threads mc)" and "may_lock L mc (wants (threads mc ! t))"
  shows "others t mc (\<lambda>tb. \<forall>k. section_effect (threads mc ! t) m k \<noteq> m k \<longrightarrow> holds tb \<noteq> Some k)"
  unfolding others_def
proof (intro allI impI)
  fix i k
  assume i: "i < length (threads mc)" "i \<noteq> t" and "section_effect (threads mc ! t) m k \<noteq> m k"
  then consider "holds (threads mc ! t) = Some k" | "wants (threads mc ! t) = Some k" using section_effect_keys by blast
  then show "holds (threads mc ! i) \<noteq> Some k"
  proof cases
    case 1
    then show ?thesis using assms(1,2) i unfolding exclusive_def by (metis option.distinct(1))
  next
    case 2
    then show ?thesis using may_lock_holds [of L mc k] assms(3) i(1) by simp
  qed
qed

lemma run_step_ordered:
  assumes "run_step L depth False P {..T} mc mc'" and "\<And>t cl request mc. P t cl request mc \<Longrightarrow> timely T cl request"
    and "ordered L T mc m"
  shows "\<exists>m'. ordered L T mc' m'"
  using assms(1)
proof cases
  case (Begin t request cl)
  obtain ta w where b: "begin_task L cl request False (m_system mc) = Returns (ta, w)" and mc': "mc' = put_task t ta w mc"
    using Begin(6) unfolding do_begin_def by (auto elim!: map_run_ReturnsE)
  have "plain L T (storage_engine (m_system mc)) m" using assms(3) by (simp add: ordered_def)
  from begin_task_plain [OF b this assms(2) [OF Begin(4)]] obtain m' vs where a: "arrival L T request m ta w m' vs" by blast
  have "written (threads mc ! t) ta = to_append ta" using Begin(2) by (cases "threads mc ! t") auto
  then have wr: "written (threads mc ! t) ta = map serialize vs" using a by (simp add: arrival_def)
  have free: "holds (threads mc ! i) \<noteq> Some k" if "i < length (threads mc)" "first_key request = Some k" for i k
    using may_lock_holds [of L mc k] Begin(5) that by simp
  have "others t mc (\<lambda>tb. \<forall>k. m' k \<noteq> m k \<longrightarrow> holds tb \<noteq> Some k)"
    "others t mc (\<lambda>tb. holds ta = None \<or> holds tb \<noteq> holds ta)"
    using a free unfolding others_def arrival_def by (blast, metis option.exhaust)
  then have "ordered L T mc' m'"
    unfolding mc' using a by (intro put_task_ordered [OF assms(3) Begin(1) _ _ wr]) (simp_all add: arrival_def)
  then show ?thesis by blast
next
  case (Section t)
  obtain ta w where n: "next_section L (threads mc ! t) (m_system mc) = (ta, w)" by fastforce
  have o: "plain L T (storage_engine (m_system mc)) m" "task_plain T m (threads mc ! t)" and ex: "exclusive (threads mc)"
    using assms(3) Section(2) by (simp_all add: ordered_def)
  note s = section_plain [OF n o]
  have "others t mc (\<lambda>tb. holds ta = None \<or> holds tb \<noteq> holds ta)"
    using s ex Section(2) unfolding others_def exclusive_def by metis
  then show ?thesis
    using s put_task_ordered [OF assms(3) Section(2) _ _ _ _ _ section_others [OF ex Section(2,4)]] n Section(1)
    unfolding do_section_def by auto
next
  case (Sweep now i)
  then have "ordered L T mc' m"
    using assms(3) plain_sweep [of L T "storage_engine (m_system mc)" m now i] by (auto simp: ordered_def do_sweep_def)
  then show ?thesis by blast
qed

text \<open>The requests of the history, sent by a single client.\<close>

lemma requests_plain:
  assumes "plain L T (storage_engine w) m" and "replays vs m = Some m'" and "\<forall>v\<in>set vs. replayable T v"
    and "\<forall>i. now_ms (engine_tick (calls i)) \<le> T"
  shows "\<exists>w'. run_fold (client_request L calls) (n, w) vs = Returns (n + length vs, w') \<and> plain L T (storage_engine w') m'"
  using assms(1-3)
proof (induction vs arbitrary: n w m)
  case (Cons v vs)
  obtain m1 where m1: "plain_effect 0 v m = Returns (Some m1)" "replays vs m1 = Some m'"
    using Cons.prems(2) by (auto split: run.splits option.splits)
  have r: "replayable T v" using Cons.prems(3) by simp
  then have "plain_effect (now_ms (engine_tick (calls n))) v m = Returns (Some m1)"
    using m1(1) plain_effect_absolute [of v "now_ms (engine_tick (calls n))"] by (simp add: replayable_def)
  then obtain r w1 where "dispatch L (calls n) v True False False w = Returns (r, w1)" and p: "plain L T (storage_engine w1) m1"
    using dispatch_plain [OF Cons.prems(1) replayable_timely [OF r, of "calls n"], of False False True] assms(4)
    by (auto simp: plain_outcome.simps)
  then have "client_request L calls (n, w) v = Returns (n + 1, w1)" by (simp add: client_request_def)
  then show ?case using Cons.IH [OF p m1(2), of "n + 1"] Cons.prems(3) by simp
qed simp

lemma ordered_new: "ordered L T (machine_new n (system_new a)) Map.empty"
  by (auto simp: ordered_def machine_new_def exclusive_def plain_system_new intro: exI [of _ "[]"])

lemma reachable_ordered:
  assumes "(run_step L depth False P {..T})\<^sup>*\<^sup>* (machine_new n (system_new a)) mc"
    and "\<And>t cl request mc. P t cl request mc \<Longrightarrow> timely T cl request"
  shows "\<exists>m. ordered L T mc m"
proof (rule reachable_keeps [OF assms(1)])
  show "\<exists>m. ordered L T (machine_new n (system_new a)) m" using ordered_new by blast
  fix mc mc'
  assume s: "run_step L depth False P {..T} mc mc'" and "\<exists>m. ordered L T mc m"
  then obtain m where "ordered L T mc m" by blast
  with assms(2) show "\<exists>m. ordered L T mc' m" by (rule run_step_ordered [OF s])
qed

abbreviation timely_request :: "u64 \<Rightarrow> nat \<Rightarrow> call \<Rightarrow> RESPValue \<Rightarrow> Machine \<Rightarrow> bool" where
  "timely_request T \<equiv> \<lambda>t cl request mc. timely T cl request"


text \<open>Three clients at work on one key: it is set, deleted together with another one, and counted up.\<close>

definition ex_threads :: "Machine run" where
  "ex_threads = run_fold (do_move ex_lib 2 False (timely_request 1000)) (machine_new 3 (system_new ex_aof))
     [Arrive 0 (ex_call 7) (bulk_array [''SET'', ''k'', ''5'']), Go 0,
      Arrive 2 (ex_call 7) (bulk_array [''DEL'', ''kk'', ''k'']), Go 2, Go 0, Go 2,
      Arrive 1 (ex_call 8) (bulk_array [''INCR'', ''k'']), Go 1, Go 1, Go 2, Go 2, Go 0]"


end
