(* ===== verification/Disjoint_Writes.thy ===== *)
theory Disjoint_Writes
  imports Linearizability
begin

text \<open>
  Concurrent writes and the log. The log may lag behind the engine, and the threads may reach it in
  another order than the engine. If no two clients write the same key at the same time, the log
  still leads to what the engine holds, by way of the writes that the threads have yet to append:
  writes of different keys commute.
\<close>

section \<open>Exchanging writes of different keys\<close>

definition apart :: "RESPValue list list \<Rightarrow> bool" where
  "apart ps \<longleftrightarrow> (\<forall>i<length ps. \<forall>j<length ps. i \<noteq> j \<longrightarrow> keys_of_all (ps ! i) \<inter> keys_of_all (ps ! j) = {})"

lemma apart_split:
  assumes "apart ps" and "t < length ps"
  shows "keys_of_all (ps ! t) \<inter> keys_of_all (concat (take t ps)) = {}"
    and "keys_of_all (ps ! t) \<inter> keys_of_all (concat (drop (Suc t) ps)) = {}"
proof -
  have "keys_of_all (ps ! t) \<inter> keys_of_all xs = {}" if mem: "xs \<in> set (take t ps)" for xs
  proof -
    obtain i where "i < t" "xs = ps ! i" using mem assms(2) by (auto simp: in_set_conv_nth)
    then show ?thesis using assms unfolding apart_def by (metis less_trans less_irrefl)
  qed
  then show "keys_of_all (ps ! t) \<inter> keys_of_all (concat (take t ps)) = {}" by auto
  have "keys_of_all (ps ! t) \<inter> keys_of_all xs = {}" if mem: "xs \<in> set (drop (Suc t) ps)" for xs
  proof -
    obtain i where "i < length ps - Suc t" "xs = ps ! (Suc t + i)" using mem assms(2) by (auto simp: in_set_conv_nth)
    then show ?thesis using assms unfolding apart_def by auto
  qed
  then show "keys_of_all (ps ! t) \<inter> keys_of_all (concat (drop (Suc t) ps)) = {}" by auto
qed

lemma concat_update: "t < length ps \<Longrightarrow> concat (ps[t := us]) = concat (take t ps) @ us @ concat (drop (Suc t) ps)"
  by (simp add: upd_conv_take_nth_drop)

lemma concat_nth: "t < length ps \<Longrightarrow> concat ps = concat (take t ps) @ ps ! t @ concat (drop (Suc t) ps)"
  using concat_update [of t ps "ps ! t"] by simp

lemma replays_replace:
  assumes "replays (concat ps) ml = Some m" and "t < length ps" and "apart ps" and "apart (ps[t := us])"
    and "\<And>mo. replays (ps ! t) mo = Some m \<Longrightarrow> replays us mo = Some m'"
  shows "replays (concat (ps[t := us])) ml = Some m'"
proof -
  let ?xs = "concat (take t ps)" and ?zs = "concat (drop (Suc t) ps)"
  obtain m1 where m1: "replays ?xs ml = Some m1" "replays (ps ! t @ ?zs) m1 = Some m"
    using assms(1) unfolding concat_nth [OF assms(2)] by (auto simp: replays_append [of ?xs] bind_eq_Some_conv)
  from replays_swap [OF m1(2) apart_split(2) [OF assms(3,2)]]
  obtain mo where "replays ?zs m1 = Some mo" "replays (ps ! t) mo = Some m" by (auto simp: replays_append bind_eq_Some_conv)
  then have "replays (?zs @ us) m1 = Some m'" using assms(5) by (simp add: replays_append)
  moreover have "keys_of_all us \<inter> keys_of_all ?zs = {}" using apart_split(2) [OF assms(4), of t] assms(2) by simp
  ultimately have "replays (us @ ?zs) m1 = Some m'" using replays_swap [of ?zs us m1 m'] by blast
  then show ?thesis using m1(1) assms(2) by (simp add: concat_update replays_append [of ?xs])
qed

lemma replays_front:
  assumes "replays (concat ps) ml = Some m" and "t < length ps" and "apart ps"
  shows "replays (ps ! t @ concat (ps[t := []])) ml = Some m"
proof -
  let ?xs = "concat (take t ps)" and ?zs = "concat (drop (Suc t) ps)"
  obtain m1 where m1: "replays (?xs @ ps ! t) ml = Some m1" "replays ?zs m1 = Some m"
    using assms(1) unfolding concat_nth [OF assms(2)] append_assoc [symmetric] replays_append [of "?xs @ ps ! t"]
    by (auto simp: bind_eq_Some_conv)
  from replays_swap [OF m1(1)] apart_split(1) [OF assms(3,2)] have "replays (ps ! t @ ?xs) ml = Some m1"
    by (simp add: Int_commute)
  then have "replays ((ps ! t @ ?xs) @ ?zs) ml = Some m" using m1(2) unfolding replays_append [of "ps ! t @ ?xs"] by simp
  then show ?thesis using assms(2) by (simp add: concat_update)
qed

section \<open>What a thread has yet to append\<close>

definition recoverable :: "u64 \<Rightarrow> nat \<Rightarrow> RESPValue \<Rightarrow> bool" where
  "recoverable T depth v \<longleftrightarrow> replayable T v \<and> frame_ok depth v"

text \<open>A \<open>DEL\<close> under way counts for the keys it has removed so far.\<close>

fun pending :: "u64 \<Rightarrow> nat \<Rightarrow> kv \<Rightarrow> task \<Rightarrow> RESPValue list \<Rightarrow> bool" where
  "pending T depth m (Appending request bytes r) vs =
     (\<exists>v. vs = [v] \<and> bytes = serialize v \<and> keys_of v = keys_of request \<and> recoverable T depth v)"
| "pending T depth m (Deleting request keys n) vs =
     (frame_ok depth request \<and>
      (\<exists>ks. key_args request = ks @ keys \<and> (\<forall>k\<in>set ks. m k = None) \<and>
         vs = (if 0 < n then [bulk_array (''DEL'' # ks)] else [])))"
| "pending T depth m (Checking j) vs = (vs = [] \<and> frame_ok depth (j_request j))"
| "pending T depth m (Evicting j needed) vs = (vs = [] \<and> frame_ok depth (j_request j))"
| "pending T depth m (Committing j) vs = (vs = [] \<and> frame_ok depth (j_request j))"
| "pending T depth m _ vs = (vs = [])"

lemma busy_simps [simp]:
  "busy (Deleting request keys n) = keys_of request" "busy (Checking j) = keys_of (j_request j)"
  "busy (Committing j) = keys_of (j_request j)" "busy (Appending request bytes r) = keys_of request"
  "busy (Idle ro) = {}" "busy (Counting now keys n) = {}" "busy (Evicting j needed) = keys_of (j_request j)"
  by (simp_all add: busy_def)

lemma pending_keys:
  assumes "pending T depth m ta vs" and "task_plain T m' ta"
  shows "keys_of_all vs \<subseteq> busy ta"
proof (cases ta)
  case (Deleting request keys n)
  obtain ks where ks: "key_args request = ks @ keys" "vs = (if 0 < n then [bulk_array (''DEL'' # ks)] else [])"
    using assms(1) unfolding Deleting pending.simps by blast
  have "busy ta = set (key_args request)" using assms(2) Deleting by (simp add: keys_of_def)
  then show ?thesis unfolding ks by (simp add: del_request(2))
next
  case (Appending request bytes r)
  obtain v where "vs = [v]" "keys_of v = keys_of request" using assms(1) unfolding Appending pending.simps by blast
  then show ?thesis unfolding Appending by simp
qed (use assms(1) in simp_all)

lemma pending_cong:
  assumes "pending T depth m ta vs" and "task_plain T m ta" and "\<forall>k\<in>busy ta. m' k = m k"
  shows "pending T depth m' ta vs"
proof (cases ta)
  case (Deleting request keys n)
  then have "busy ta = set (key_args request)" using assms(2) by (simp add: keys_of_def)
  moreover obtain ks where ks: "frame_ok depth request" "key_args request = ks @ keys" "\<forall>k\<in>set ks. m k = None"
    "vs = (if 0 < n then [bulk_array (''DEL'' # ks)] else [])" using assms(1) unfolding Deleting pending.simps by blast
  ultimately have "\<forall>k\<in>set ks. m' k = None" using assms(3) by simp
  then show ?thesis using ks unfolding Deleting pending.simps by blast
qed (use assms in auto)

lemma section_effect_busy:
  assumes "task_plain T m ta" and "k \<notin> busy ta"
  shows "section_effect ta m k = m k"
proof (cases ta)
  case (Deleting request keys n)
  then show ?thesis using assms by (cases keys) (auto simp: keys_of_def)
qed (use assms in \<open>auto simp: job_plain_def\<close>)

text \<open>Removing one more key.\<close>

lemma pending_del:
  fixes n d :: int
  assumes "\<forall>k\<in>set ks. m k = None" and "0 \<le> n" and "0 \<le> d" and "0 < d \<longleftrightarrow> m key \<noteq> None"
    and "replays (if 0 < n then [bulk_array (''DEL'' # ks)] else []) mo = Some m"
  shows "replays (if 0 < n + d then [bulk_array (''DEL'' # ks @ [key])] else []) mo = Some (m(key := None))"
proof (cases "0 < n")
  case True
  then have e: "\<exists>k\<in>set ks. mo k \<noteq> None" and m: "m = mo |` (- set ks)"
    using assms(5) by (simp_all add: del_request split: if_splits)
  have "m(key := None) = mo |` (- set (ks @ [key]))" unfolding m by (auto simp: restrict_map_def)
  moreover have "\<exists>k\<in>set (ks @ [key]). mo k \<noteq> None" using e by auto
  ultimately have "plain_effect 0 (bulk_array (''DEL'' # ks @ [key])) mo = Returns (Some (m(key := None)))"
    unfolding del_request(4) by (simp only: if_True)
  moreover have "0 < n + d" using True assms(3) by linarith
  ultimately show ?thesis by simp
next
  case False
  then have mo: "mo = m" and n: "n = 0" using assms(2,5) by simp_all
  show ?thesis
  proof (cases "0 < d")
    case True
    have "m(key := None) = m |` (- set (ks @ [key]))" using assms(1) by (auto simp: restrict_map_def)
    moreover have "\<exists>k\<in>set (ks @ [key]). m k \<noteq> None" using assms(4) True by simp
    ultimately have "plain_effect 0 (bulk_array (''DEL'' # ks @ [key])) m = Returns (Some (m(key := None)))"
      unfolding del_request(4) by (simp only: if_True)
    then show ?thesis unfolding mo n using True by simp
  next
    case False
    then have "m key = None" using assms(4) by blast
    then have "m(key := None) = m" by (metis fun_upd_triv)
    then show ?thesis using False mo n by simp
  qed
qed

lemma del_effect:
  assumes "valid_request request" and "command_of request = ''DEL''" and "2 \<le> argc request"
  shows "plain_effect now request = plain_effect now (bulk_array (''DEL'' # key_args request))" and "replayable T request"
proof -
  have r: "\<not> relative request" using assms(2) by (simp add: relative_def)
  then show "replayable T request" using assms(2) relative_cases [OF r] by (simp add: replayable_def)
  show "plain_effect now request = plain_effect now (bulk_array (''DEL'' # key_args request))"
    unfolding fun_eq_iff del_request(4) using assms by (simp add: plain_effect_def)
qed

lemma section_pending:
  assumes "next_section L ta w = (ta', w')" and "plain L T (storage_engine w) m" and "task_plain T m ta"
    and "pending T depth m ta vs" and "to_append ta = []"
  shows "\<exists>vs'. pending T depth (section_effect ta m) ta' vs' \<and>
     (\<forall>mo. replays vs mo = Some m \<longrightarrow> replays vs' mo = Some (section_effect ta m))"
  using assms
proof (induction L ta w rule: next_section.induct)
  case (2 L request n w)
  then have r: "valid_request request" "command_of request = ''DEL''" "2 \<le> argc request" by auto
  note de = del_effect [OF r]
  show ?case
  proof (cases "0 < n")
    case True
    then have "vs = [bulk_array (''DEL'' # key_args request)]" "frame_ok depth request"
      "ta' = Appending request (serialize request) (reply (create_integer n))" using 2 by auto
    then show ?thesis using de by (intro exI [of _ "[request]"]) (simp add: recoverable_def)
  qed (use 2 in auto)
next
  case (3 L request key keys n w)
  obtain d e where d: "storage_del L [key] (storage_engine w) = (d, e)" by fastforce
  note p = plain_del [OF "3.prems"(2) d, unfolded list.set restrict_single]
  have d0: "0 \<le> d" using storage_del_props [OF plain_invar(1) [OF "3.prems"(2)] d] by simp
  have ta': "ta' = Deleting request keys (n + d)" using "3.prems"(1) d by simp
  obtain ks where ks: "frame_ok depth request" "key_args request = ks @ key # keys" "\<forall>k\<in>set ks. m k = None"
    "vs = (if 0 < n then [bulk_array (''DEL'' # ks)] else [])" using "3.prems"(4) by auto
  let ?vs = "if 0 < n + d then [bulk_array (''DEL'' # ks @ [key])] else []"
  have "pending T depth (m(key := None)) ta' ?vs"
    using ks unfolding ta' pending.simps by (intro conjI exI [of _ "ks @ [key]"]) auto
  moreover have "replays ?vs mo = Some (m(key := None))" if "replays vs mo = Some m" for mo
    using pending_del [OF ks(3) _ d0 _ that [unfolded ks(4)], of key] "3.prems"(3) p(2) by simp
  ultimately show ?case by (intro exI [of _ ?vs]) (simp add: fun_upd_def)
next
  case (8 L j w)
  then have "job_plain T m j" by simp
  moreover have "ta' = Appending (j_request j) (serialize (j_request j)) (reply (success (j_write j)))"
    "vs = []" "frame_ok depth (j_request j)" using 8 by simp_all
  ultimately show ?case
    by (intro exI [of _ "[j_request j]"]) (simp add: job_plain_def recoverable_def fun_upd_def)
next
  case (5 L now key keys n w)
  then show ?case by (cases "storage_exists L now [key] (storage_engine w)") auto
next
  case (6 L j w)
  then show ?case by (auto split: option.splits)
qed auto

section \<open>The log and the engine\<close>

text \<open>\<open>ml\<close> is what the log leads to; the writes \<open>ps\<close> that the threads have yet to append lead from there to
  what the engine holds.\<close>

definition lagging :: "lib \<Rightarrow> u64 \<Rightarrow> nat \<Rightarrow> Machine \<Rightarrow> kv \<Rightarrow> kv \<Rightarrow> RESPValue list list \<Rightarrow> bool" where
  "lagging L T depth mc m ml ps \<longleftrightarrow>
     ordered L T mc m \<and> is_open (aof_logger (m_system mc)) \<and>
     (\<exists>us. file_content (aof_logger (m_system mc)) = wire us \<and> replays us Map.empty = Some ml \<and>
        (\<forall>v\<in>set us. recoverable T depth v)) \<and>
     length ps = length (threads mc) \<and> (\<forall>i<length ps. pending T depth m (threads mc ! i) (ps ! i)) \<and>
     replays (concat ps) ml = Some m \<and>
     (\<forall>i<length ps. \<forall>j<length ps. i \<noteq> j \<longrightarrow> busy (threads mc ! i) \<inter> busy (threads mc ! j) = {})"

lemma lagging_task_plain: "lagging L T depth mc m ml ps \<Longrightarrow> i < length ps \<Longrightarrow> task_plain T m (threads mc ! i)"
  by (simp add: lagging_def ordered_def)

lemma lagging_apart:
  assumes "lagging L T depth mc m ml ps"
  shows "apart ps"
  unfolding apart_def
proof (intro allI impI)
  fix i j
  assume ij: "i < length ps" "j < length ps" "i \<noteq> j"
  have "keys_of_all (ps ! i) \<subseteq> busy (threads mc ! i)" if "i < length ps" for i
    using assms that unfolding lagging_def by (intro pending_keys [OF _ lagging_task_plain [OF assms that]]) blast
  then show "keys_of_all (ps ! i) \<inter> keys_of_all (ps ! j) = {}"
    using assms ij unfolding lagging_def by blast
qed

text \<open>A thread goes on: the writes it has yet to append become \<open>vs\<close>, to the effect that the map becomes \<open>m'\<close>.\<close>

lemma put_task_lagging:
  assumes "lagging L T depth mc m ml ps" and "t < length (threads mc)" and "ordered L T (put_task t ta w mc) m'"
    and "aof_logger w = aof_logger (m_system mc)" and "pending T depth m' ta vs"
    and "\<And>mo. replays (ps ! t) mo = Some m \<Longrightarrow> replays vs mo = Some m'"
    and "others t mc (\<lambda>tb. busy ta \<inter> busy tb = {})" and "others t mc (\<lambda>tb. \<forall>k\<in>busy tb. m' k = m k)"
  shows "lagging L T depth (put_task t ta w mc) m' ml (ps[t := vs])"
proof -
  let ?ts = "(threads mc)[t := ta]" and ?ps = "ps[t := vs]"
  have len: "length ps = length (threads mc)" using assms(1) by (simp add: lagging_def)
  have pe: "pending T depth m' (?ts ! i) (?ps ! i)" if i: "i < length ps" for i
  proof (cases "i = t")
    case False
    have "pending T depth m (threads mc ! i) (ps ! i)" using assms(1) i by (simp add: lagging_def)
    moreover have "\<forall>k\<in>busy (threads mc ! i). m' k = m k" using assms(8) i len False by (simp add: others_def)
    ultimately show ?thesis using pending_cong [OF _ lagging_task_plain [OF assms(1) i]] False by simp
  qed (use assms(2,5) len in simp)
  have di: "busy (?ts ! i) \<inter> busy (?ts ! j) = {}" if "i < length ps" "j < length ps" "i \<noteq> j" for i j
    using that assms(1,7) len unfolding lagging_def others_def by (cases "i = t"; cases "j = t") auto
  have pl: "task_plain T m' (?ts ! i)" if "i < length ps" for i
    using assms(3) that len by (simp add: ordered_def put_task_def)
  have "apart ?ps"
    unfolding apart_def
  proof (intro allI impI)
    fix i j
    assume "i < length ?ps" "j < length ?ps" "i \<noteq> j"
    then show "keys_of_all (?ps ! i) \<inter> keys_of_all (?ps ! j) = {}"
      using pending_keys [OF pe pl, of i] pending_keys [OF pe pl, of j] di [of i j] by fastforce
  qed
  then have "replays (concat ?ps) ml = Some m'"
    using replays_replace [OF _ _ lagging_apart [OF assms(1)] _ assms(6)] assms(1,2) len by (simp add: lagging_def)
  then show ?thesis
    using assms(1,3,4) len pe di unfolding lagging_def by (simp add: put_task_def)
qed

lemma append_lagging:
  assumes "lagging L T depth mc m ml ps" and "t < length (threads mc)" and "threads mc ! t = Appending request bytes r"
    and "ordered L T (do_section L t mc) m"
  shows "\<exists>ml' ps'. lagging L T depth (do_section L t mc) m ml' ps'"
proof -
  have len: "length ps = length (threads mc)" and o: "is_open (aof_logger (m_system mc))" using assms(1) by (simp_all add: lagging_def)
  have "pending T depth m (Appending request bytes r) (ps ! t)"
    using assms(1-3) len unfolding lagging_def by metis
  then obtain v where v: "ps ! t = [v]" "bytes = serialize v" "recoverable T depth v" unfolding pending.simps by blast
  from assms(1) obtain us where us: "file_content (aof_logger (m_system mc)) = wire us" "replays us Map.empty = Some ml"
    "\<forall>v\<in>set us. recoverable T depth v" unfolding lagging_def by blast
  have "replays ([v] @ concat (ps[t := []])) ml = Some m"
    using replays_front [OF _ _ lagging_apart [OF assms(1)], of ml m t] assms(1,2) len v(1) by (simp add: lagging_def)
  then obtain ml' where ml': "replays [v] ml = Some ml'" "replays (concat (ps[t := []])) ml' = Some m"
    unfolding replays_append [of "[v]"] by (auto simp: bind_eq_Some_conv)
  have s: "do_section L t mc = put_task t (Idle (Some r)) (log_phase bytes (m_system mc)) mc"
    using assms(3) by (simp add: do_section_def)
  have "file_content (aof_logger (log_phase bytes (m_system mc))) = wire (us @ [v])"
    "replays (us @ [v]) Map.empty = Some ml'" "\<forall>v\<in>set (us @ [v]). recoverable T depth v"
    using o us v(2,3) ml'(1) by (simp_all add: log_phase_def replays_append)
  then have "\<exists>us. file_content (aof_logger (log_phase bytes (m_system mc))) = wire us \<and> replays us Map.empty = Some ml' \<and>
      (\<forall>v\<in>set us. recoverable T depth v)" by blast
  moreover have "is_open (aof_logger (log_phase bytes (m_system mc)))" using o by (simp add: log_phase_def)
  moreover have "pending T depth m ((threads mc)[t := Idle (Some r)] ! i) (ps[t := []] ! i)" if "i < length ps" for i
    using assms(1,2) that len by (cases "i = t") (simp_all add: lagging_def)
  moreover have "busy ((threads mc)[t := Idle (Some r)] ! i) \<inter> busy ((threads mc)[t := Idle (Some r)] ! j) = {}"
    if "i < length ps" "j < length ps" "i \<noteq> j" for i j
    using assms(1) that len by (cases "i = t"; cases "j = t") (simp_all add: lagging_def)
  ultimately have "lagging L T depth (do_section L t mc) m ml' (ps[t := []])"
    using assms(4) ml'(2) len unfolding lagging_def s by (simp add: put_task_def)
  then show ?thesis by blast
qed

text \<open>A request may arrive when it comes before the horizon and, if it may write, no other thread is busy with
  its keys.\<close>

definition undisturbed :: "u64 \<Rightarrow> nat \<Rightarrow> call \<Rightarrow> RESPValue \<Rightarrow> Machine \<Rightarrow> bool" where
  "undisturbed T t cl request mc \<longleftrightarrow>
     timely T cl request \<and>
     (is_mutating_command (command_of request) \<longrightarrow> (\<forall>ta\<in>set (threads mc). keys_of request \<inter> busy ta = {}))"

lemma arrival_pending:
  assumes "arrival L T request m ta w m' vs" and "frame_ok depth request"
  shows "pending T depth m' ta vs" and "busy ta \<subseteq> keys_of request" and "\<forall>k. m' k \<noteq> m k \<longrightarrow> k \<in> busy ta"
proof -
  note a = assms(1) [unfolded arrival_def]
  show "busy ta \<subseteq> keys_of request" using a by (auto simp: busy_def)
  have vs: "\<forall>v\<in>set vs. recoverable T depth v \<and> keys_of v = keys_of request"
    using a assms(2) by (simp add: recoverable_def)
  have r: "task_request ta = None \<or> task_request ta = Some request" using a by blast
  have "pending T depth m' ta vs \<and> (\<forall>k. m' k \<noteq> m k \<longrightarrow> k \<in> busy ta)"
  proof (cases "to_append ta = []")
    case True
    then have "vs = []" and m': "m' = m" using a by auto
    then show ?thesis using a r assms(2) by (cases ta) auto
  next
    case False
    then obtain req bytes rr where ta: "ta = Appending req bytes rr" by (cases ta) auto
    then have "map serialize vs = [bytes]" and "req = request" using a r by auto
    then obtain v where v: "vs = [v]" "bytes = serialize v" by auto
    have "m' k = m k" if "k \<notin> keys_of v" for k
      using a v(1) plain_effect_local(2) [of 0 v m m' m] that by (auto split: run.splits option.splits)
    then show ?thesis using v vs unfolding ta \<open>req = request\<close> by auto
  qed
  then show "pending T depth m' ta vs" and "\<forall>k. m' k \<noteq> m k \<longrightarrow> k \<in> busy ta" by simp_all
qed

lemma section_busy: "next_section L ta w = (ta', w') \<Longrightarrow> busy ta' \<subseteq> busy ta"
  by (induction L ta w rule: next_section.induct) (auto split: prod.splits option.splits if_splits)

lemma section_log: "next_section L ta w = (ta', w') \<Longrightarrow> to_append ta = [] \<Longrightarrow> aof_logger w' = aof_logger w"
  by (induction L ta w rule: next_section.induct) (auto split: prod.splits option.splits if_splits)

lemma ordered_unique:
  assumes "ordered L T mc m" and "plain L T (storage_engine (m_system mc)) m'"
  shows "m' = m"
  using assms by (auto simp: ordered_def plain_def)

lemma begin_lagging:
  assumes "lagging L T depth mc m ml ps" and "t < length (threads mc)" and "idle (threads mc ! t)"
    and "frame_ok depth request" and "undisturbed T t cl request mc" and "arrival L T request m ta w m' vs"
    and "aof_logger w = aof_logger (m_system mc)" and "ordered L T (put_task t ta w mc) m'"
  shows "lagging L T depth (put_task t ta w mc) m' ml (ps[t := vs])"
proof -
  note p = arrival_pending [OF assms(6,4)]
  have di: "busy ta \<inter> busy tb = {}" if "tb \<in> set (threads mc)" for tb
  proof (cases "task_request ta")
    case (Some r)
    then have "is_mutating_command (command_of request)" using assms(6) by (simp add: arrival_def)
    then show ?thesis using assms(5) p(2) that unfolding undisturbed_def by blast
  qed (simp add: busy_def)
  have "ps ! t = []"
    using assms(1-3) unfolding lagging_def by (cases "threads mc ! t") (auto dest!: spec [of _ t])
  moreover have "replays vs m = Some m'" using assms(6) by (simp add: arrival_def)
  moreover have "others t mc (\<lambda>tb. busy ta \<inter> busy tb = {})" using di by (simp add: others_def)
  moreover have "others t mc (\<lambda>tb. \<forall>k\<in>busy tb. m' k = m k)"
    unfolding others_def using di p(3) by (meson disjoint_iff nth_mem)
  ultimately show ?thesis
    using assms(7) p(1) by (intro put_task_lagging [OF assms(1,2,8)]) simp_all
qed

lemma section_lagging:
  assumes "lagging L T depth mc m ml ps" and "t < length (threads mc)" and "to_append (threads mc ! t) = []"
    and "next_section L (threads mc ! t) (m_system mc) = (ta, w)"
    and "ordered L T (put_task t ta w mc) (section_effect (threads mc ! t) m)"
  shows "\<exists>vs. lagging L T depth (put_task t ta w mc) (section_effect (threads mc ! t) m) ml (ps[t := vs])"
proof -
  let ?tb = "threads mc ! t"
  have len: "length ps = length (threads mc)" using assms(1) by (simp add: lagging_def)
  have pl: "plain L T (storage_engine (m_system mc)) m" and tp: "task_plain T m ?tb" and "pending T depth m ?tb (ps ! t)"
    using assms(1,2) by (simp_all add: lagging_def ordered_def)
  from section_pending [OF assms(4) pl tp this(3) assms(3)] obtain vs where
    vs: "pending T depth (section_effect ?tb m) ta vs"
    and re: "\<And>mo. replays (ps ! t) mo = Some m \<Longrightarrow> replays vs mo = Some (section_effect ?tb m)" by blast
  have "busy ?tb \<inter> busy (threads mc ! i) = {}" if "i < length (threads mc)" "i \<noteq> t" for i
    using assms(1,2) that len unfolding lagging_def by metis
  then have "others t mc (\<lambda>tc. busy ta \<inter> busy tc = {})"
    "others t mc (\<lambda>tc. \<forall>k\<in>busy tc. section_effect ?tb m k = m k)"
    using section_busy [OF assms(4)] section_effect_busy [OF tp] unfolding others_def by blast+
  with section_log [OF assms(4,3)] vs re have "lagging L T depth (put_task t ta w mc) (section_effect ?tb m) ml (ps[t := vs])"
    by (intro put_task_lagging [OF assms(1,2,5)])
  then show ?thesis by blast
qed

lemma run_step_lagging:
  assumes "run_step L depth False (undisturbed T) {..T} mc mc'" and "lagging L T depth mc m ml ps"
  shows "\<exists>m' ml' ps'. lagging L T depth mc' m' ml' ps'"
proof -
  have o: "ordered L T mc m" and inv: "engine_invar L (storage_engine (m_system mc))"
    and pl: "plain L T (storage_engine (m_system mc)) m"
    using assms(2) by (simp_all add: lagging_def ordered_def plain_def)
  from run_step_ordered [OF assms(1) _ o] obtain m' where o': "ordered L T mc' m'" by (auto simp: undisturbed_def)
  from assms(1) show ?thesis
  proof cases
    case (Begin t request cl)
    obtain ta w where b: "begin_task L cl request False (m_system mc) = Returns (ta, w)" and mc': "mc' = put_task t ta w mc"
      using Begin(6) unfolding do_begin_def by (auto elim!: map_run_ReturnsE)
    have "timely T cl request" using Begin(4) by (simp add: undisturbed_def)
    from begin_task_plain [OF b pl this] obtain m1 vs where a: "arrival L T request m ta w m1 vs" by blast
    then have "m1 = m'" using ordered_unique [OF o', of m1] by (simp add: mc' put_task_def arrival_def)
    then show ?thesis
      using begin_lagging [OF assms(2) Begin(1-4) a] begin_task_ok [OF b inv Begin(3)] o' unfolding mc' by blast
  next
    case (Section t)
    obtain ta w where n: "next_section L (threads mc ! t) (m_system mc) = (ta, w)" by fastforce
    then have mc': "mc' = put_task t ta w mc" using Section(1) by (simp add: do_section_def)
    have "task_plain T m (threads mc ! t)" using o Section(2) by (simp add: ordered_def)
    from section_plain [OF n pl this] have "plain L T (storage_engine (m_system mc')) (section_effect (threads mc ! t) m)"
      by (simp add: mc' put_task_def)
    from ordered_unique [OF o' this] have "m' = section_effect (threads mc ! t) m" by (rule sym)
    note o1 = o' [unfolded this]
    show ?thesis
    proof (cases "to_append (threads mc ! t) = []")
      case True
      from section_lagging [OF assms(2) Section(2) True n] o1 show ?thesis unfolding mc' by blast
    next
      case False
      then obtain request bytes r where "threads mc ! t = Appending request bytes r" by (cases "threads mc ! t") auto
      then show ?thesis using append_lagging [OF assms(2) Section(2)] o1 unfolding Section(1) by auto
    qed
  next
    case (Sweep now i)
    then have "ordered L T (do_sweep now i mc) m"
      using o plain_sweep [OF pl, of now i] by (auto simp: ordered_def do_sweep_def)
    then have "lagging L T depth mc' m ml ps" using assms(2) unfolding Sweep(1) by (simp add: lagging_def do_sweep_def)
    then show ?thesis by blast
  qed
qed

lemma lagging_new:
  assumes "is_open a" and "file_content a = []"
  shows "lagging L T depth (machine_new n (system_new a)) Map.empty Map.empty (replicate n [])"
proof -
  have "concat (replicate n []) = ([] :: RESPValue list)" by (induction n) simp_all
  then show ?thesis
    using assms ordered_new [of L T n a]
    by (auto simp: lagging_def machine_new_def intro!: exI [of _ "[]"])
qed

lemma reachable_lagging:
  assumes "(run_step L depth False (undisturbed T) {..T})\<^sup>*\<^sup>* (machine_new n (system_new a)) mc"
    and "is_open a" and "file_content a = []"
  shows "\<exists>m ml ps. lagging L T depth mc m ml ps"
proof -
  have "\<exists>m ml ps. lagging L T depth (machine_new n (system_new a)) m ml ps" using lagging_new [OF assms(2,3)] by blast
  with assms(1) show ?thesis by (rule reachable_keeps) (use run_step_lagging in blast)
qed

lemma length_wire: "length vs \<le> length (wire vs)"
proof (induction vs)
  case (Cons v vs)
  obtain x xs where "serialize v = x # xs" by (cases "serialize v") simp_all
  then show ?case using Cons by simp
qed simp

text \<open>A key that no thread is busy with has in the log the value it has in the engine.\<close>

lemma lagging_quiet:
  assumes "lagging L T depth mc m ml ps" and "\<forall>ta\<in>set (threads mc). k \<notin> busy ta"
  shows "ml k = m k"
proof -
  have len: "length ps = length (threads mc)" and re: "replays (concat ps) ml = Some m" using assms(1) by (simp_all add: lagging_def)
  have "k \<notin> keys_of_all (ps ! i)" if "i < length ps" for i
    using pending_keys [OF _ lagging_task_plain [OF assms(1) that], of depth m "ps ! i"] assms that len
    unfolding lagging_def by (metis nth_mem subsetD)
  then have "\<forall>vs\<in>set ps. k \<notin> keys_of_all vs" by (metis in_set_conv_nth)
  then have "k \<notin> keys_of_all (concat ps)" by simp
  then show ?thesis using replays_local [OF re order_refl, of ml] by auto
qed


text \<open>Two clients with a key each: the second is logged before the first, which then deletes its key and has not
  yet come to log that.\<close>

definition ex_disjoint :: "Machine run" where
  "ex_disjoint = run_fold (do_move ex_lib 2 False (undisturbed 1000)) (machine_new 2 (system_new ex_aof))
     [Arrive 0 (ex_call 7) (bulk_array [''SET'', ''k'', ''5'']), Go 0, Go 0,
      Arrive 1 (ex_call 7) (bulk_array [''SET'', ''kk'', ''6'']), Go 1, Go 1, Go 1, Go 0,
      Arrive 0 (ex_call 8) (bulk_array [''DEL'', ''k'']), Go 0, Go 0]"


end
