(* ===== verification/Logger.thy ===== *)
theory Logger
  imports Charconv
begin

text \<open>
  The console messages of \<open>src/util/Logger.cpp\<close>. The two streams of the console are the bytes written to
  them. The program never calls \<open>setlocale\<close>, so \<open>strftime\<close> formats in the C locale, where \<open>%X\<close> is \<open>%H:%M:%S\<close>;
  \<open>localtime\<close>, which depends on the time zone of the machine, is an argument.
\<close>

section \<open>Time stamps\<close>

record tm =
  tm_sec :: int
  tm_min :: int
  tm_hour :: int
  tm_mday :: int
  tm_mon :: int
  tm_year :: int

text \<open>A field of two digits, padded with zero.\<close>

definition two_digits :: "int \<Rightarrow> string" where
  "two_digits n = (if n < 10 then ''0'' else []) @ int_to_string n"

definition current_time :: "(int \<Rightarrow> tm) \<Rightarrow> int \<Rightarrow> string" where
  "current_time localtime in_time_t =
     (let t = localtime in_time_t
      in int_to_string (1900 + tm_year t) @ ''-'' @ two_digits (tm_mon t + 1) @ ''-'' @ two_digits (tm_mday t) @ '' '' @
         two_digits (tm_hour t) @ '':'' @ two_digits (tm_min t) @ '':'' @ two_digits (tm_sec t))"

section \<open>Messages\<close>

record Console =
  console_out :: string
  console_err :: string

definition newline :: char where
  "newline = CHR 0x0A"

definition logger_info :: "(int \<Rightarrow> tm) \<Rightarrow> int \<Rightarrow> string \<Rightarrow> Console \<Rightarrow> Console" where
  "logger_info localtime now msg c =
     c\<lparr>console_out := console_out c @ ''['' @ current_time localtime now @ ''] [INFO] '' @ msg @ [newline]\<rparr>"

definition logger_error :: "(int \<Rightarrow> tm) \<Rightarrow> int \<Rightarrow> string \<Rightarrow> Console \<Rightarrow> Console" where
  "logger_error localtime now msg c =
     c\<lparr>console_err := console_err c @ ''['' @ current_time localtime now @ ''] [ERROR] '' @ msg @ [newline]\<rparr>"

section \<open>The buffer of a time stamp, and lines\<close>

text \<open>What \<open>localtime\<close> yields: a date and a time of day (with leap seconds), of a year with four digits.\<close>

definition tm_valid :: "tm \<Rightarrow> bool" where
  "tm_valid t \<longleftrightarrow>
     tm_sec t \<in> {0..60} \<and> tm_min t \<in> {0..59} \<and> tm_hour t \<in> {0..23} \<and> tm_mday t \<in> {1..31} \<and> tm_mon t \<in> {0..11} \<and>
     tm_year t \<in> {- 900..8099}"

lemma length_nat_to_string:
  assumes "n < 10 ^ k" and "0 < k"
  shows "length (nat_to_string n) \<le> k"
  using assms
proof (induction n arbitrary: k rule: nat_to_string.induct)
  case (1 n)
  show ?case
  proof (cases "n < 10")
    case True
    then show ?thesis using 1(3) by (simp add: nat_to_string.simps)
  next
    case False
    then obtain j where j: "k = Suc j" "0 < j" using 1(2,3) by (cases k; cases "k - 1") auto
    then have "n div 10 < 10 ^ j" using 1(2) by (simp add: less_mult_imp_div_less mult.commute)
    then show ?thesis using 1(1) [OF False _ j(2)] False j by (subst nat_to_string.simps) simp
  qed
qed

lemma length_int_to_string: "0 \<le> n \<Longrightarrow> n < 10 ^ k \<Longrightarrow> 0 < k \<Longrightarrow> length (int_to_string n) \<le> k"
  using length_nat_to_string [of "nat n" k] by (simp add: int_to_string_def nat_less_iff)

lemma length_two_digits:
  assumes "0 \<le> n" and "n < 100"
  shows "length (two_digits n) \<le> 2"
  using length_int_to_string [of n 1] length_int_to_string [of n 2] assms by (simp add: two_digits_def)

text \<open>The text and its terminator fit into the buffer of 100 bytes that \<open>strftime\<close> is given.\<close>

lemma current_time_fits:
  assumes "tm_valid (localtime t)"
  shows "length (current_time localtime t) \<le> 19"
proof -
  let ?tm = "localtime t"
  have y: "length (int_to_string (1900 + tm_year ?tm)) \<le> 4"
    using length_int_to_string [of "1900 + tm_year ?tm" 4] assms by (simp add: tm_valid_def)
  have d: "length (two_digits n) \<le> 2" if "n \<in> {tm_mon ?tm + 1, tm_mday ?tm, tm_hour ?tm, tm_min ?tm, tm_sec ?tm}" for n
    using that assms by (intro length_two_digits) (auto simp: tm_valid_def)
  show ?thesis
    using y d [of "tm_mon ?tm + 1"] d [of "tm_mday ?tm"] d [of "tm_hour ?tm"] d [of "tm_min ?tm"] d [of "tm_sec ?tm"]
    by (simp add: current_time_def Let_def)
qed

lemma newline_int_to_string: "newline \<notin> set (int_to_string n)"
  using nat_to_string_digits [of newline] by (auto simp: int_to_string_def newline_def is_digit_def)

lemma newline_current_time: "newline \<notin> set (current_time localtime t)"
  using newline_int_to_string by (simp add: current_time_def two_digits_def Let_def newline_def)

text \<open>One call, one line: cutting a stream at its newlines gives back the messages, if they are lines.\<close>

fun lines_of :: "string \<Rightarrow> string \<Rightarrow> string list" where
  "lines_of line [] = []"
| "lines_of line (c # cs) = (if c = newline then line # lines_of [] cs else lines_of (line @ [c]) cs)"

lemma lines_of_line: "newline \<notin> set l \<Longrightarrow> lines_of line (l @ newline # cs) = (line @ l) # lines_of [] cs"
  by (induction l arbitrary: line) auto

definition info_text :: "(int \<Rightarrow> tm) \<Rightarrow> int \<times> string \<Rightarrow> string" where
  "info_text localtime call = (case call of (now, msg) \<Rightarrow> ''['' @ current_time localtime now @ ''] [INFO] '' @ msg)"

lemma console_lines:
  assumes "\<forall>(now, msg)\<in>set calls. newline \<notin> set msg"
  shows "lines_of [] (console_out (fold (\<lambda>(now, msg). logger_info localtime now msg) calls \<lparr>console_out = [], console_err = es\<rparr>)) =
     map (info_text localtime) calls"
proof -
  have out: "console_out (fold (\<lambda>(now, msg). logger_info localtime now msg) calls c) =
      console_out c @ concat (map (\<lambda>x. info_text localtime x @ [newline]) calls)" for c calls
    by (induction calls arbitrary: c) (auto simp: logger_info_def info_text_def)
  have "lines_of [] (concat (map (\<lambda>x. info_text localtime x @ [newline]) calls)) = map (info_text localtime) calls"
    using assms
  proof (induction calls)
    case (Cons call calls)
    then have "newline \<notin> set (info_text localtime call)"
      using newline_current_time by (auto simp: info_text_def newline_def)
    then show ?case using Cons by (simp add: lines_of_line)
  qed simp
  then show ?thesis by (simp add: out)
qed

end
