(* ===== verification/Spec2Isabelle.thy ===== *)
theory Spec2Isabelle
  imports Disjoint_Writes Logger
begin

text \<open>
  A verification of the key-value store of this repository: a server that speaks the Redis protocol,
  keeps its data in memory in shards, appends every write to a log, replays the log when it starts,
  and streams it to replicas.

  \<^bold>\<open>The program and its model.\<close> A thread per client (\<open>src/server/Server.cpp\<close>) reads bytes from a socket
  (\<open>src/net/Connection.cpp\<close>), cuts them into requests with the parser (\<open>src/protocol/RESP.cpp\<close>) and hands
  each to the dispatcher (\<open>src/server/CommandDispatcher.cpp\<close>), which calls the storage engine
  (\<open>src/storage/StorageEngine.cpp\<close>) and appends writes to the log (\<open>src/storage/AOFLogger.cpp\<close>). A replica
  receives the log of its primary and applies it. The theories follow these parts:
  \<^item> \<open>Prelude\<close>: fixed-width integers, the ways a C++ call ends (\<open>run\<close>: a value, an exception or undefined
    behaviour, no end), facts on lists; \<open>Charconv\<close>: \<open>std::to_string\<close> and \<open>std::from_chars\<close>.
  \<^item> \<open>RESP\<close>: the values of the protocol, \<open>serialize\<close>, \<open>parse\<close>; \<open>Framing\<close>: streams of printed values and the
    contracts (locales \<open>frame_loop\<close>, \<open>chunk_loop\<close>) of the loops that parse and handle them.
  \<^item> \<open>UMap\<close>: \<open>std::string\<close> with its capacity and \<open>std::unordered_map\<close> with its buckets, behind the interface
    \<open>dictionary\<close>; \<open>Engine\<close>: the operations of the storage engine, its eviction and its sweeper;
    \<open>Engine_Invariant\<close>, \<open>Engine_Spec\<close>, \<open>Engine_Theorems\<close>: well-formedness, the abstract map of keys with
    deadlines, and the theorems on both.
  \<^item> \<open>AOF\<close>: the log file; \<open>Dispatcher\<close>: \<open>dispatch\<close>, one definition per command, with the process-wide
    counters of \<open>src/server/Metrics.cpp\<close>; \<open>Dispatcher_Theorems\<close>, \<open>Dispatcher_Spec\<close>: its properties and the
    command language it implements.
  \<^item> \<open>Connection\<close>: the owner of a socket; \<open>Server\<close>: construction, start, the accept loop, the client loop,
    the stream to a replica, the replica's worker, the command line of \<open>src/main.cpp\<close>;
    \<open>Server_Theorems\<close>, \<open>Durability\<close>, \<open>Replication\<close>: properties of the loops, of a restart, of a replica;
    \<open>Horizon\<close>: engines before any of their deadlines has passed, on which a command is a function of the
    stored map.
  \<^item> \<open>Sections\<close>: a command as the sequence of its critical sections (\<open>task\<close>, \<open>begin_task\<close>, \<open>next_section\<close>);
    \<open>Concurrency\<close>: the machine of client threads and sweeper (\<open>run_step\<close>); \<open>Linearizability\<close>,
    \<open>Disjoint_Writes\<close>: the order of concurrent writes, and what a restart makes of their log.
  \<^item> \<open>Logger\<close>: the console messages of \<open>src/util/Logger.cpp\<close>.

  \<^bold>\<open>State and environment.\<close> Objects are records with the fields of the class, operations take the object
  and return it. What the outside supplies is an argument: clock readings and random draws (\<open>tick\<close>, and
  \<open>call\<close> for a dispatched command), the results of system calls, the bytes that arrive (\<open>event\<close>), the
  contents of the log file at each look. The hash function and the growth policy of the hash table
  are the parameter \<open>lib\<close>; every theorem holds for any such function.

  \<^bold>\<open>What is shown.\<close>
  \<^item> Protocol: printing and parsing are inverse, also with bytes behind the value; an incomplete value
    is recognised as such; nothing outside the buffer is consumed; the parser ends on every buffer
    without negative bulk lengths, and recurses for ever on one with.
  \<^item> Engine: every reachable engine is well-formed; each operation refines an operation on a map from
    keys to values and deadlines; eviction frees what is needed or empties the shard; exactly how the
    memory counter departs from what is stored.
  \<^item> Dispatcher: a request refines a command of the command language; at most one frame is logged, and
    it is a well-formed write command; the exact condition of undefined behaviour; replicas refuse
    writes; replies can be parsed back.
  \<^item> Server: replaying a log handles exactly its complete frames; how a client's bytes are cut into
    packets does not matter; a short write is noticed.
  \<^item> Across components, without memory limit and as long as no deadline has passed (commands that set
    deadlines included): a restart restores the data; a log that is cut anywhere restores the data
    after some number of the requests; a replica converges to data and log of its primary;
    reconnecting between two commands loses nothing.
  \<^item> Concurrency: a thread alone does exactly what \<open>dispatch\<close> does. In any interleaving of the sections of
    all threads and of the sweeper, memory limits and commands with several keys included, the engine
    is well-formed, the log consists of complete frames, and every completed write is logged once or
    still to be logged; the threads never block each other for good. Without limit and before the deadlines, the server shows what the writes in
    the order of their effects lead to; and if no two clients write one key at the same time, the log
    restores every key that nobody is writing.
  \<^item> The limits of all this, as theorems too: replaying after a deadline may give other values,
    reconnecting within a command stops the replica for good, two concurrent writes of one key may be
    logged in the opposite order, two concurrent writes may exceed the memory limit, a client can make
    its thread spin.

  \<^bold>\<open>Fuel and bounds.\<close> The parser's recursion takes the stack depth available; \<open>parse_terminates\<close> gives a
  depth that is always enough on buffers without negative lengths, and the round trips need only
  the nesting of the value. The loops over a buffer take the number of rounds; one more than the
  number of complete values is enough, and the theorems say so by asking for no more. Running out
  is the outcome \<open>Diverges\<close>, never a result. \<open>fits\<close> bounds a buffer by the size of the largest vector of
  values (about \<open>2 ^ 63\<close> bytes over the size of a value).

  \<open>finish\<close> runs a thread alone for a number of sections; six more than the number of arguments is
  enough for every command.

  \<^bold>\<open>Not modelled.\<close> The system calls behind sockets, files, threads and clocks: their results are
  arguments. \<open>write\<close> on a socket the peer has closed raises a signal that the program does not handle;
  the model goes on as if it were ignored. In \<open>Concurrency\<close> atomics are sequentially consistent and a
  section is one step: within a section that holds the mutex of a shard, other threads only read or
  add to the memory counter and the statistics. The connections of the threads (the loops of \<open>Server\<close>)
  and the replica's worker are not interleaved section by section; there a command is one step. Which
  places call the logger of \<open>src/util/Logger.cpp\<close> is left out, since nothing reads the console. The tests,
  the benchmark, the client tool and the Docker files are not part of the server.
\<close>

end
